(* ===== verification/HPS_Prelude.thy ===== *)
theory HPS_Prelude
  imports Main "HOL-Library.AList" "HOL-Library.Sublist" "HOL-Library.Multiset"
begin

text \<open>
  Shared vocabulary of the development: Python exceptions as values, error-propagating
  folds, insertion-ordered dictionaries, the string methods the pipeline uses, and the
  generic list lemmas of the component theories.

  A Python \<^verbatim>\<open>dict\<close> is an association list. \<open>AList.update\<close> overwrites in place or
  appends at the end and \<open>AList.delete\<close> removes, so iteration order is the insertion
  order of the source. Text is a \<open>char list\<close>; the character classes are the ASCII ones.
  A byte outside ASCII is decoded to a replacement character, which is neither a space
  nor a digit nor a letter, and the classes below treat every non-ASCII \<open>char\<close> so.
\<close>

named_theorems store_defs
named_theorems text_defs

subsection \<open>Exceptions as values\<close>

datatype py_error = ValueError | KeyError | IndexError | OverflowError | TypeError | OSError | RuntimeError | AttributeError

type_synonym 'a res = "py_error + 'a"

definition bindE :: "'e + 'a \<Rightarrow> ('a \<Rightarrow> 'e + 'b) \<Rightarrow> 'e + 'b" where
  "bindE m f = (case m of Inl e \<Rightarrow> Inl e | Inr x \<Rightarrow> f x)"

fun mapE :: "('a \<Rightarrow> 'e + 'b) \<Rightarrow> 'a list \<Rightarrow> 'e + 'b list" where
  "mapE f [] = Inr []"
| "mapE f (x # xs) = bindE (f x) (\<lambda>y. bindE (mapE f xs) (\<lambda>ys. Inr (y # ys)))"

fun foldE :: "('s \<Rightarrow> 'a \<Rightarrow> 'e + 's) \<Rightarrow> 's \<Rightarrow> 'a list \<Rightarrow> 'e + 's" where
  "foldE f s [] = Inr s"
| "foldE f s (x # xs) = bindE (f s x) (\<lambda>s'. foldE f s' xs)"

definition raise_none :: "'e \<Rightarrow> 'a option \<Rightarrow> 'e + 'a" where
  "raise_none e x = (case x of None \<Rightarrow> Inl e | Some y \<Rightarrow> Inr y)"

lemma bindE_simps [simp]:
  "bindE (Inl e) f = Inl e"
  "bindE (Inr x) f = f x"
  by (simp_all add: bindE_def)

lemma bindE_Inr_iff: "bindE m f = Inr y \<longleftrightarrow> (\<exists>x. m = Inr x \<and> f x = Inr y)"
  by (cases m) auto

lemma bindE_Inl_iff: "bindE m f = Inl e \<longleftrightarrow> m = Inl e \<or> (\<exists>x. m = Inr x \<and> f x = Inl e)"
  by (cases m) auto

lemma bindE_assoc: "bindE (bindE m f) g = bindE m (\<lambda>x. bindE (f x) g)"
  by (cases m) auto

lemma bindE_cong: "(\<And>x. m = Inr x \<Longrightarrow> f x = g x) \<Longrightarrow> bindE m f = bindE m g"
  by (cases m) auto

lemma raise_none_simps [simp]:
  "raise_none e None = Inl e"
  "raise_none e (Some x) = Inr x"
  "raise_none e m = Inr y \<longleftrightarrow> m = Some y"
  by (auto simp: raise_none_def split: option.splits)

lemma mapE_length: "mapE f xs = Inr ys \<Longrightarrow> length ys = length xs"
  by (induction xs arbitrary: ys) (auto simp: bindE_Inr_iff)

lemma mapE_Inr_nth:
  "mapE f xs = Inr ys \<Longrightarrow> i < length xs \<Longrightarrow> f (xs ! i) = Inr (ys ! i)"
  by (induction xs arbitrary: ys i) (auto simp: bindE_Inr_iff nth_Cons split: nat.splits)

lemma mapE_total: "(\<And>x. x \<in> set xs \<Longrightarrow> f x = Inr (g x)) \<Longrightarrow> mapE f xs = Inr (map g xs)"
  by (induction xs) auto

lemma foldE_append: "foldE f s (xs @ ys) = bindE (foldE f s xs) (\<lambda>s'. foldE f s' ys)"
  by (induction xs arbitrary: s) (auto simp: bindE_assoc)

lemma foldE_concat: "foldE f s (concat xss) = foldE (\<lambda>s xs. foldE f s xs) s xss"
  by (induction xss arbitrary: s) (simp_all add: foldE_append)

lemma foldE_sim:
  assumes "\<And>s t x. R s t \<Longrightarrow> case f s x of Inl e \<Rightarrow> g t x = Inl e | Inr s' \<Rightarrow> \<exists>t'. g t x = Inr t' \<and> R s' t'"
  shows "R s t \<Longrightarrow> case foldE f s xs of Inl e \<Rightarrow> foldE g t xs = Inl e | Inr s' \<Rightarrow> \<exists>t'. foldE g t xs = Inr t' \<and> R s' t'"
proof (induction xs arbitrary: s t)
  case (Cons x xs)
  note step = assms[OF Cons.prems, of x]
  show ?case
  proof (cases "f s x")
    case (Inl e)
    then show ?thesis using step by simp
  next
    case (Inr s')
    then obtain t' where "g t x = Inr t'" "R s' t'" using step by auto
    then have "foldE f s (x # xs) = foldE f s' xs" "foldE g t (x # xs) = foldE g t' xs" using Inr by simp_all
    then show ?thesis using Cons.IH[OF \<open>R s' t'\<close>] by (simp only:)
  qed
qed auto

lemma foldE_invariant:
  assumes "\<And>s x s'. I s \<Longrightarrow> f s x = Inr s' \<Longrightarrow> I s'"
    and "I s" and "foldE f s xs = Inr s'"
  shows "I s'"
  using assms(2,3)
  by (induction xs arbitrary: s) (auto simp: bindE_Inr_iff intro: assms(1))

subsection \<open>Insertion-ordered dictionaries\<close>

abbreviation dget :: "('k \<times> 'v) list \<Rightarrow> 'k \<Rightarrow> 'v option" where
  "dget \<equiv> map_of"

abbreviation dset :: "'k \<Rightarrow> 'v \<Rightarrow> ('k \<times> 'v) list \<Rightarrow> ('k \<times> 'v) list" where
  "dset \<equiv> AList.update"

abbreviation ddel :: "'k \<Rightarrow> ('k \<times> 'v) list \<Rightarrow> ('k \<times> 'v) list" where
  "ddel \<equiv> AList.delete"

abbreviation keys :: "('k \<times> 'v) list \<Rightarrow> 'k list" where
  "keys \<equiv> map fst"

definition get_or :: "'v \<Rightarrow> ('k \<times> 'v) list \<Rightarrow> 'k \<Rightarrow> 'v" where
  "get_or d al k = (case map_of al k of None \<Rightarrow> d | Some v \<Rightarrow> v)"

lemma dget_dset [simp]: "dget (dset k v d) = (dget d)(k \<mapsto> v)"
  by (rule AList.update_conv')

lemma dget_ddel [simp]: "dget (ddel k d) = (dget d)(k := None)"
  by (rule AList.delete_conv')

lemma distinct_keys_dset [simp]: "distinct (keys d) \<Longrightarrow> distinct (keys (dset k v d))"
  by (rule AList.distinct_update)

lemma distinct_keys_ddel [simp]: "distinct (keys d) \<Longrightarrow> distinct (keys (ddel k d))"
  by (rule AList.distinct_delete)

lemma dget_None_iff: "dget d k = None \<longleftrightarrow> k \<notin> set (keys d)"
  by (induction d) auto

lemma dset_new: "k \<notin> set (keys d) \<Longrightarrow> dset k v d = d @ [(k, v)]"
  by (induction d) auto

lemma dset_distinct_split:
  "distinct (keys d) \<Longrightarrow> set (dset k v d) = insert (k, v) {p \<in> set d. fst p \<noteq> k}"
  by (induction d) force+

lemma dset_commute:
  "k \<in> set (keys d) \<Longrightarrow> k \<noteq> k' \<Longrightarrow> dset k v (dset k' u d) = dset k' u (dset k v d)"
  by (induction d) auto

lemma dset_overwrite: "dset k v (dset k u d) = dset k v d"
  by (induction d) auto

lemma dset_middle: "k \<notin> set (keys xs) \<Longrightarrow> dset k v (xs @ (k, u) # ys) = xs @ (k, v) # ys"
  by (induction xs) auto

lemma keys_dset_mem: "fst ` set (dset k v d) = insert k (fst ` set d)"
  by (induction d) auto

lemma dget_fresh: "k \<notin> fst ` set d \<Longrightarrow> dget d k = None"
  by (simp add: map_of_eq_None_iff)

lemma ddel_filter: "ddel k d = filter (\<lambda>p. fst p \<noteq> k) d"
  by (induction d) auto

lemma ddel_notin: "k \<notin> set (keys d) \<Longrightarrow> ddel k d = d"
  by (induction d) auto

subsection \<open>Character classes and string methods\<close>

definition py_isspace :: "char \<Rightarrow> bool" where
  "py_isspace c = (let n = (of_char c :: int) in (9 \<le> n \<and> n \<le> 13) \<or> (28 \<le> n \<and> n \<le> 32))"

definition py_isdigit :: "char \<Rightarrow> bool" where
  "py_isdigit c = (let n = (of_char c :: int) in 48 \<le> n \<and> n \<le> 57)"

definition py_isalpha :: "char \<Rightarrow> bool" where
  "py_isalpha c = (let n = (of_char c :: int) in (65 \<le> n \<and> n \<le> 90) \<or> (97 \<le> n \<and> n \<le> 122))"

definition py_tolower :: "char \<Rightarrow> char" where
  "py_tolower c = (let n = (of_char c :: int) in if 65 \<le> n \<and> n \<le> 90 then char_of (n + 32) else c)"

definition lstrip :: "string \<Rightarrow> string" where
  "lstrip s = dropWhile py_isspace s"

definition rstrip :: "string \<Rightarrow> string" where
  "rstrip s = rev (dropWhile py_isspace (rev s))"

definition strip :: "string \<Rightarrow> string" where
  "strip s = rstrip (lstrip s)"

definition lstrip_chars :: "string \<Rightarrow> string \<Rightarrow> string" where
  \<comment> \<open>\<^verbatim>\<open>s.lstrip(chars)\<close>: drop leading characters that belong to the set.\<close>
  "lstrip_chars cs s = dropWhile (\<lambda>c. c \<in> set cs) s"

definition startswith :: "string \<Rightarrow> string \<Rightarrow> bool" where
  "startswith s p = (take (length p) s = p)"

fun contains :: "string \<Rightarrow> string \<Rightarrow> bool" where
  \<comment> \<open>\<^verbatim>\<open>p in s\<close> for strings.\<close>
  "contains p [] = (p = [])"
| "contains p (c # s) = (startswith (c # s) p \<or> contains p s)"

fun split_on :: "char \<Rightarrow> string \<Rightarrow> string list" where
  \<comment> \<open>\<^verbatim>\<open>s.split(c)\<close> for a one-character separator.\<close>
  "split_on c [] = [[]]"
| "split_on c (x # xs) =
     (if x = c then [] # split_on c xs
      else (case split_on c xs of [] \<Rightarrow> [[x]] | y # ys \<Rightarrow> (x # y) # ys))"

definition split_once :: "char \<Rightarrow> string \<Rightarrow> string \<times> string option" where
  \<comment> \<open>\<^verbatim>\<open>s.split(c, 1)\<close>: the part before the first separator and the rest, if any.\<close>
  "split_once c s = (takeWhile (\<lambda>x. x \<noteq> c) s,
     (case dropWhile (\<lambda>x. x \<noteq> c) s of [] \<Rightarrow> None | _ # r \<Rightarrow> Some r))"

function split_ws :: "string \<Rightarrow> string list" where
  \<comment> \<open>\<^verbatim>\<open>s.split()\<close>: maximal runs of non-space characters.\<close>
  "split_ws s = (case dropWhile py_isspace s of [] \<Rightarrow> []
     | c # r \<Rightarrow> (c # takeWhile (\<lambda>x. \<not> py_isspace x) r)
                  # split_ws (dropWhile (\<lambda>x. \<not> py_isspace x) r))"
  by pat_completeness auto
termination
proof (relation "measure length", simp)
  fix s :: string and c r
  assume "dropWhile py_isspace s = c # r"
  then have "length r < length s"
    by (metis Suc_le_lessD length_Cons length_dropWhile_le)
  then show "(dropWhile (\<lambda>x. \<not> py_isspace x) r, s) \<in> measure length"
    using length_dropWhile_le[of "\<lambda>x. \<not> py_isspace x" r] by simp
qed

declare split_ws.simps [simp del]

fun split_ws_max :: "nat \<Rightarrow> string \<Rightarrow> string list" where
  \<comment> \<open>\<^verbatim>\<open>s.split(maxsplit=n)\<close>: the last piece keeps its inner and trailing spaces.\<close>
  "split_ws_max 0 s = (case dropWhile py_isspace s of [] \<Rightarrow> [] | r \<Rightarrow> [r])"
| "split_ws_max (Suc n) s = (case dropWhile py_isspace s of [] \<Rightarrow> []
     | c # r \<Rightarrow> (c # takeWhile (\<lambda>x. \<not> py_isspace x) r)
                  # split_ws_max n (dropWhile (\<lambda>x. \<not> py_isspace x) r))"

definition is_line_break :: "char \<Rightarrow> bool" where
  "is_line_break c = (let n = (of_char c :: int) in (10 \<le> n \<and> n \<le> 13) \<or> (28 \<le> n \<and> n \<le> 30))"

fun splitlines_from :: "bool \<Rightarrow> string \<Rightarrow> string list" where
  \<comment> \<open>The flag is set after a carriage return, whose line feed is part of the same break.\<close>
  "splitlines_from cr [] = []"
| "splitlines_from cr (c # s) =
     (if cr \<and> of_char c = (10 :: int) then splitlines_from False s
      else if is_line_break c then [] # splitlines_from (of_char c = (13 :: int)) s
      else (case splitlines_from False s of [] \<Rightarrow> [[c]] | l # ls \<Rightarrow> (c # l) # ls))"

definition splitlines :: "string \<Rightarrow> string list" where
  \<comment> \<open>\<^verbatim>\<open>s.splitlines()\<close>\<close>
  "splitlines s = splitlines_from False s"

lemma split_on_ne [simp]: "split_on c s \<noteq> []"
  by (induction s) (auto split: list.splits)

lemma split_on_append_sep: "split_on c (a @ c # b) = split_on c a @ split_on c b"
  by (induction a) (auto split: list.splits)

lemma split_on_no_sep: "c \<notin> set s \<Longrightarrow> split_on c s = [s]"
  by (induction s) auto

lemma split_on_pieces: "p \<in> set (split_on c s) \<Longrightarrow> c \<notin> set p"
  by (induction s arbitrary: p) (auto split: if_splits list.splits)

lemma hd_split_on: "hd (split_on c s) = takeWhile (\<lambda>x. x \<noteq> c) s"
  by (induction s) (auto split: list.splits)

lemma split_ws_lstrip: "split_ws (lstrip s) = split_ws s"
proof -
  have "dropWhile py_isspace (lstrip s) = dropWhile py_isspace s"
    by (simp add: lstrip_def)
  then show ?thesis by (subst (1 2) split_ws.simps) simp
qed

lemma startswith_append [simp]: "startswith (p @ s) p"
  by (simp add: startswith_def)

lemma startswith_prefix: "startswith s p \<longleftrightarrow> prefix p s"
proof
  assume "startswith s p"
  then have "s = p @ drop (length p) s"
    unfolding startswith_def by (metis append_take_drop_id)
  then show "prefix p s" by (rule prefixI)
next
  assume "prefix p s"
  then show "startswith s p" by (auto simp: startswith_def prefix_def)
qed

lemma contains_iff: "contains p s \<longleftrightarrow> (\<exists>a b. s = a @ p @ b)"
proof (induction s)
  case (Cons c s)
  note IH = Cons
  show ?case
  proof
    assume "contains p (c # s)"
    then consider b where "c # s = p @ b" | a b where "s = a @ p @ b"
      using Cons by (auto simp: startswith_prefix prefix_def)
    then show "\<exists>a b. c # s = a @ p @ b"
    proof cases
      case 1
      then show ?thesis by (intro exI[of _ "[]"] exI[of _ b]) simp
    next
      case 2
      then show ?thesis by (intro exI[of _ "c # a"] exI[of _ b]) simp
    qed
  next
    assume "\<exists>a b. c # s = a @ p @ b"
    then obtain a b where ab: "c # s = a @ p @ b" by blast
    show "contains p (c # s)"
    proof (cases a)
      case Nil
      with ab have "prefix p (c # s)" by (simp add: prefix_def)
      then show ?thesis by (simp add: startswith_prefix)
    next
      case (Cons x a')
      with ab have "s = a' @ p @ b" by simp
      then show ?thesis using IH by auto
    qed
  qed
qed simp

declare contains.simps [simp del]

lemma dropWhile_id: "(\<And>c. c \<in> set s \<Longrightarrow> \<not> P c) \<Longrightarrow> dropWhile P s = s"
  by (cases s) auto

lemma lstrip_idem [simp]: "lstrip (lstrip s) = lstrip s"
  by (simp add: lstrip_def)

lemma lstrip_head_nonspace: "lstrip s = c # r \<Longrightarrow> \<not> py_isspace c"
  unfolding lstrip_def by (metis hd_dropWhile list.discI list.sel(1))

lemma rstrip_ends: "rstrip s = [] \<or> \<not> py_isspace (last (rstrip s))"
proof (cases "dropWhile py_isspace (rev s)")
  case (Cons c r)
  then have "\<not> py_isspace c" by (metis hd_dropWhile list.discI list.sel(1))
  then show ?thesis using Cons by (simp add: rstrip_def)
qed (simp add: rstrip_def)

lemma rstrip_prefix: "\<exists>t. s = rstrip s @ t \<and> (\<forall>c \<in> set t. py_isspace c)"
proof -
  have "s = rev (dropWhile py_isspace (rev s)) @ rev (takeWhile py_isspace (rev s))"
    by (metis rev_append rev_rev_ident takeWhile_dropWhile_id)
  moreover have "\<forall>c \<in> set (rev (takeWhile py_isspace (rev s))). py_isspace c"
    by (auto dest: set_takeWhileD)
  ultimately show ?thesis unfolding rstrip_def by blast
qed

lemma rstrip_id: "s = [] \<or> \<not> py_isspace (last s) \<Longrightarrow> rstrip s = s"
  unfolding rstrip_def by (cases s rule: rev_cases) auto

lemma lstrip_id: "s = [] \<or> \<not> py_isspace (hd s) \<Longrightarrow> lstrip s = s"
  unfolding lstrip_def by (cases s) auto

lemma strip_idem [simp]: "strip (strip s) = strip s"
proof -
  have "strip s = [] \<or> \<not> py_isspace (hd (strip s))"
  proof (cases "strip s")
    case (Cons c r)
    obtain t where "lstrip s = strip s @ t" using rstrip_prefix[of "lstrip s"] by (auto simp: strip_def)
    then have "lstrip s = c # (r @ t)" using Cons by simp
    then show ?thesis using Cons lstrip_head_nonspace by simp
  qed simp
  then have "lstrip (strip s) = strip s" by (rule lstrip_id)
  moreover have "rstrip (strip s) = strip s"
    using rstrip_ends[of "lstrip s"] by (intro rstrip_id) (simp add: strip_def)
  ultimately show ?thesis by (simp add: strip_def)
qed

lemma strip_Nil [simp]: "strip [] = []"
  by (simp add: strip_def lstrip_def rstrip_def)

lemma py_class_disjoint:
  "py_isdigit c \<Longrightarrow> \<not> py_isalpha c" "py_isdigit c \<Longrightarrow> \<not> py_isspace c"
  "py_isalpha c \<Longrightarrow> \<not> py_isspace c"
  by (auto simp: py_isdigit_def py_isalpha_def py_isspace_def Let_def)

subsection \<open>Numerals\<close>

definition digit_val :: "char \<Rightarrow> int" where
  "digit_val c = of_char c - 48"

fun digits_us :: "int \<Rightarrow> nat \<Rightarrow> bool \<Rightarrow> string \<Rightarrow> (int \<times> nat) option" where
  \<comment> \<open>A run of digits with single underscores between digits: its value and its length.\<close>
  "digits_us acc n prev [] = (if prev then Some (acc, n) else None)"
| "digits_us acc n prev (c # cs) =
     (if py_isdigit c then digits_us (acc * 10 + digit_val c) (Suc n) True cs
      else if c = CHR ''_'' \<and> prev then digits_us acc n False cs
      else None)"

definition digit_run :: "string \<Rightarrow> (int \<times> nat) option" where
  "digit_run s = digits_us 0 0 False s"

definition split_sign :: "string \<Rightarrow> bool \<times> string" where
  "split_sign s = (case s of [] \<Rightarrow> (False, [])
     | c # r \<Rightarrow> if c = CHR ''-'' then (True, r) else if c = CHR ''+'' then (False, r) else (False, s))"

definition py_int :: "string \<Rightarrow> int option" where
  \<comment> \<open>\<^verbatim>\<open>int(s)\<close>; \<open>None\<close> is its \<^verbatim>\<open>ValueError\<close>.\<close>
  "py_int s = (let (neg, body) = split_sign (strip s) in
     map_option (\<lambda>(v, _). if neg then - v else v) (digit_run body))"

function nat_digits :: "int \<Rightarrow> string" where
  "nat_digits n = (if n < 10 then [char_of (48 + n)] else nat_digits (n div 10) @ [char_of (48 + n mod 10)])"
  by pat_completeness auto
termination by (relation "measure nat") auto

declare nat_digits.simps [simp del]

definition str_int :: "int \<Rightarrow> string" where
  \<comment> \<open>\<^verbatim>\<open>str(n)\<close> of an integer.\<close>
  "str_int n = (if n < 0 then CHR ''-'' # nat_digits (- n) else nat_digits n)"

lemmas [text_defs] = lstrip_def rstrip_def strip_def startswith_def split_sign_def py_int_def
  digit_run_def digit_val_def py_isspace_def py_isdigit_def py_isalpha_def

subsection \<open>Generic list lemmas\<close>

lemma sort_key_append_le:
  fixes f :: "'a \<Rightarrow> 'b::linorder"
  assumes "\<And>x y. x \<in> set xs \<Longrightarrow> y \<in> set ys \<Longrightarrow> f x \<le> f y"
  shows "sort_key f (xs @ ys) = sort_key f xs @ sort_key f ys"
proof (rule properties_for_sort_key)
  show "mset (sort_key f xs @ sort_key f ys) = mset (xs @ ys)" by simp
  show "sorted (map f (sort_key f xs @ sort_key f ys))"
    using assms by (auto simp: sorted_append)
  show "filter (\<lambda>x. f k = f x) (sort_key f xs @ sort_key f ys) = filter (\<lambda>x. f k = f x) (xs @ ys)"
    if "k \<in> set (sort_key f xs @ sort_key f ys)" for k
    using sort_key_stable[of f "f k" xs] sort_key_stable[of f "f k" ys]
    by (simp add: eq_commute[of "f k"])
qed

lemma find_append: "find P (xs @ ys) = (case find P xs of None \<Rightarrow> find P ys | Some x \<Rightarrow> Some x)"
  by (induction xs) auto

lemma find_SomeD: "find P xs = Some x \<Longrightarrow> x \<in> set xs \<and> P x"
  by (induction xs) (auto split: if_splits)

lemma find_filter: "(\<And>x. p x \<Longrightarrow> q x) \<Longrightarrow> find p (filter q xs) = find p xs"
  by (induction xs) auto

lemma case_two: "length xs \<noteq> 2 \<Longrightarrow> (case xs of [a, b] \<Rightarrow> f a b | _ \<Rightarrow> z) = z"
  by (cases xs; cases "tl xs"; cases "tl (tl xs)") auto

lemma case_three: "length xs \<noteq> 3 \<Longrightarrow> (case xs of [a, b, c] \<Rightarrow> f a b c | _ \<Rightarrow> z) = z"
  by (cases xs; cases "tl xs"; cases "tl (tl xs)"; cases "tl (tl (tl xs))") auto

lemma two_items: "length xs = 2 \<Longrightarrow> \<exists>a b. xs = [a, b]"
  by (cases xs; cases "tl xs") auto

lemma three_items: "length xs = 3 \<Longrightarrow> \<exists>a b c. xs = [a, b, c]"
  by (cases xs; cases "tl xs"; cases "tl (tl xs)") auto

lemma filter_map_snd: "filter P (map f xs) = map f (filter (P \<circ> f) xs)"
  by (simp add: filter_map)

lemma filter_filter_imp: "(\<And>x. P x \<Longrightarrow> Q x) \<Longrightarrow> filter P (filter Q xs) = filter P xs"
  by (induction xs) auto

lemma insort_key_map: "insort_key f (g x) (map g xs) = map g (insort_key (\<lambda>a. f (g a)) x xs)"
  by (induction xs) auto

lemma sort_key_map: "sort_key f (map g xs) = map g (sort_key (\<lambda>a. f (g a)) xs)"
  by (induction xs) (simp_all add: insort_key_map)

end
