(* ===== verification/Float64.thy ===== *)
theory Float64
  imports HPS_Prelude Complex_Main "HOL-Library.Log_Nat"
begin

text \<open>
  IEEE binary64 values as Python and numpy compute them: a finite value is the rational
  it denotes, arithmetic is exact arithmetic followed by round-to-nearest-even to a 53-bit
  significand (with subnormals and overflow to infinity). The sign of a zero is not kept;
  no code modelled here divides by a zero or prints one.
  The order of type \<open>f64\<close> is the order numpy sorts in (NaN last); the comparisons of
  the programs are \<open>flt\<close> and \<open>fle\<close>, false on NaN.
  The main facts: integers below \<open>2 ^ 53\<close> are exact (\<open>round_f64_int\<close>), and addition and
  subtraction of such integers stay exact while the result is one (\<open>fadd_int\<close>,
  \<open>fsub_int\<close>), and rounding never crosses a representable number (\<open>round_f64_below\<close>).
\<close>

datatype f64 = NInf | Fin rat | PInf | NaN

definition pow2 :: "int \<Rightarrow> rat" where
  "pow2 e = (if 0 \<le> e then 2 ^ nat e else 1 / 2 ^ nat (- e))"

definition ilog2 :: "rat \<Rightarrow> int" where
  \<comment> \<open>The binary exponent of a positive rational.\<close>
  "ilog2 q = (let (n, d) = quotient_of q; k = bitlen n - bitlen d
     in if pow2 k \<le> q then k else k - 1)"

definition round_half_even :: "rat \<Rightarrow> int" where
  "round_half_even q = (let f = \<lfloor>q\<rfloor>; r = q - of_int f
     in if r < 1 / 2 then f else if 1 / 2 < r then f + 1 else if even f then f else f + 1)"

definition round_f64 :: "rat \<Rightarrow> f64" where
  "round_f64 q =
     (if q = 0 then Fin 0
      else let e = max (ilog2 \<bar>q\<bar> - 52) (- 1074);
               v = of_int (round_half_even (q / pow2 e)) * pow2 e
           in if v \<noteq> 0 \<and> 1024 \<le> ilog2 \<bar>v\<bar> then (if 0 < q then PInf else NInf) else Fin v)"

fun f64_neg :: "f64 \<Rightarrow> f64" where
  "f64_neg NInf = PInf" | "f64_neg PInf = NInf" | "f64_neg NaN = NaN" | "f64_neg (Fin q) = Fin (- q)"

fun fadd :: "f64 \<Rightarrow> f64 \<Rightarrow> f64" where
  "fadd NaN _ = NaN" | "fadd _ NaN = NaN"
| "fadd (Fin a) (Fin b) = round_f64 (a + b)"
| "fadd PInf NInf = NaN" | "fadd NInf PInf = NaN"
| "fadd PInf _ = PInf" | "fadd NInf _ = NInf"
| "fadd (Fin _) PInf = PInf" | "fadd (Fin _) NInf = NInf"

definition fsub :: "f64 \<Rightarrow> f64 \<Rightarrow> f64" where
  "fsub a b = fadd a (f64_neg b)"

definition inf_sgn :: "rat \<Rightarrow> f64" where
  "inf_sgn s = (if s = 0 then NaN else if 0 < s then PInf else NInf)"

fun f64_sgn :: "f64 \<Rightarrow> rat" where
  "f64_sgn NInf = - 1" | "f64_sgn PInf = 1" | "f64_sgn (Fin q) = sgn q" | "f64_sgn NaN = 0"

fun fmul :: "f64 \<Rightarrow> f64 \<Rightarrow> f64" where
  "fmul NaN _ = NaN" | "fmul _ NaN = NaN"
| "fmul (Fin a) (Fin b) = round_f64 (a * b)"
| "fmul a b = inf_sgn (f64_sgn a * f64_sgn b)"

fun fdiv :: "f64 \<Rightarrow> f64 \<Rightarrow> f64" where
  \<comment> \<open>The quotient by zero is the infinity of the dividend's sign (NaN for zero).\<close>
  "fdiv NaN _ = NaN" | "fdiv _ NaN = NaN"
| "fdiv (Fin a) (Fin b) = (if b = 0 then inf_sgn (sgn a) else round_f64 (a / b))"
| "fdiv (Fin a) _ = Fin 0"
| "fdiv a (Fin b) = inf_sgn (f64_sgn a * (if b = 0 then 1 else sgn b))"
| "fdiv _ _ = NaN"

fun isfinite :: "f64 \<Rightarrow> bool" where
  "isfinite (Fin _) = True" | "isfinite _ = False"

definition isnan :: "f64 \<Rightarrow> bool" where
  "isnan v = (v = NaN)"

subsection \<open>The sorting order\<close>

fun f64_rank :: "f64 \<Rightarrow> nat" where
  "f64_rank NInf = 0" | "f64_rank (Fin _) = 1" | "f64_rank PInf = 2" | "f64_rank NaN = 3"

fun f64_val :: "f64 \<Rightarrow> rat" where
  "f64_val (Fin q) = q" | "f64_val _ = 0"

instantiation f64 :: linorder
begin

definition less_eq_f64 :: "f64 \<Rightarrow> f64 \<Rightarrow> bool" where
  "a \<le> b \<longleftrightarrow> f64_rank a < f64_rank b \<or> (f64_rank a = f64_rank b \<and> f64_val a \<le> f64_val b)"

definition less_f64 :: "f64 \<Rightarrow> f64 \<Rightarrow> bool" where
  "a < b \<longleftrightarrow> f64_rank a < f64_rank b \<or> (f64_rank a = f64_rank b \<and> f64_val a < f64_val b)"

instance
proof
  fix x y z :: f64
  show "x < y \<longleftrightarrow> x \<le> y \<and> \<not> y \<le> x"
    by (auto simp: less_eq_f64_def less_f64_def)
  show "x \<le> x" by (simp add: less_eq_f64_def)
  show "x \<le> y \<Longrightarrow> y \<le> z \<Longrightarrow> x \<le> z"
    by (auto simp: less_eq_f64_def)
  show "x \<le> y \<Longrightarrow> y \<le> x \<Longrightarrow> x = y"
    by (cases x; cases y) (auto simp: less_eq_f64_def)
  show "x \<le> y \<or> y \<le> x"
    by (auto simp: less_eq_f64_def)
qed

end

definition flt :: "f64 \<Rightarrow> f64 \<Rightarrow> bool" where
  "flt a b = (a \<noteq> NaN \<and> b \<noteq> NaN \<and> a < b)"

definition fle :: "f64 \<Rightarrow> f64 \<Rightarrow> bool" where
  "fle a b = (a \<noteq> NaN \<and> b \<noteq> NaN \<and> a \<le> b)"

lemma Fin_less [simp]: "Fin a < Fin b \<longleftrightarrow> a < b" "Fin a \<le> Fin b \<longleftrightarrow> a \<le> b"
  by (simp_all add: less_f64_def less_eq_f64_def)

lemma flt_Fin [simp]: "flt (Fin a) (Fin b) \<longleftrightarrow> a < b"
  by (simp add: flt_def)

lemma fle_Fin [simp]: "fle (Fin a) (Fin b) \<longleftrightarrow> a \<le> b"
  by (simp add: fle_def)

lemma isfinite_iff: "isfinite v \<longleftrightarrow> (\<exists>q. v = Fin q)"
  by (cases v) auto

lemma isfinite_not_nan [simp]: "isfinite v \<Longrightarrow> v \<noteq> NaN"
  by (cases v) auto

subsection \<open>Conversions\<close>

definition of_int_f64 :: "int \<Rightarrow> f64" where
  \<comment> \<open>\<^verbatim>\<open>float(n)\<close> of an integer.\<close>
  "of_int_f64 n = round_f64 (of_int n)"

fun trunc_f64 :: "f64 \<Rightarrow> int res" where
  \<comment> \<open>\<^verbatim>\<open>int(x)\<close> of a float: truncation, \<^verbatim>\<open>ValueError\<close> on NaN, \<^verbatim>\<open>OverflowError\<close> on infinity.\<close>
  "trunc_f64 (Fin q) = Inr (if 0 \<le> q then \<lfloor>q\<rfloor> else \<lceil>q\<rceil>)"
| "trunc_f64 NaN = Inl ValueError"
| "trunc_f64 PInf = Inl OverflowError"
| "trunc_f64 NInf = Inl OverflowError"

definition scaled10 :: "int \<Rightarrow> int \<Rightarrow> rat" where
  "scaled10 m e = (if 0 \<le> e then of_int (m * 10 ^ nat e) else of_int m / of_int (10 ^ nat (- e)))"

definition exponent_of :: "string option \<Rightarrow> int option" where
  "exponent_of e = (case e of None \<Rightarrow> Some 0
     | Some t \<Rightarrow> (let (neg, body) = split_sign t in
         map_option (\<lambda>(v, _). if neg then - v else v) (digit_run body)))"

definition mantissa_of :: "string \<Rightarrow> (int \<times> nat) option" where
  \<comment> \<open>The digits of \<^verbatim>\<open>i\<close>, \<^verbatim>\<open>i.\<close>, \<^verbatim>\<open>i.f\<close> or \<^verbatim>\<open>.f\<close> as one number, and the length of \<^verbatim>\<open>f\<close>.\<close>
  "mantissa_of s = (case split_once (CHR ''.'') s of
       (i, None) \<Rightarrow> map_option (\<lambda>(v, _). (v, 0)) (digit_run i)
     | (i, Some f) \<Rightarrow>
         (if i = [] then digit_run f
          else if f = [] then map_option (\<lambda>(v, _). (v, 0)) (digit_run i)
          else (case (digit_run i, digit_run f) of
                  (Some (a, _), Some (b, n)) \<Rightarrow> Some (a * 10 ^ n + b, n) | _ \<Rightarrow> None)))"

definition py_float :: "string \<Rightarrow> f64 option" where
  \<comment> \<open>\<^verbatim>\<open>float(s)\<close>; \<open>None\<close> is its \<^verbatim>\<open>ValueError\<close>.\<close>
  "py_float s =
     (let (neg, body) = split_sign (strip s); low = map py_tolower body;
          sg = (\<lambda>v. if neg then f64_neg v else v)
      in if low = ''inf'' \<or> low = ''infinity'' then Some (sg PInf)
         else if low = ''nan'' then Some NaN
         else (case split_once (CHR ''e'') low of (m, e) \<Rightarrow>
           (case (mantissa_of m, exponent_of e) of
              (Some (v, n), Some x) \<Rightarrow> Some (sg (round_f64 (scaled10 v (x - int n))))
            | _ \<Rightarrow> None)))"

subsection \<open>Exactness\<close>

lemma pow2_pos [simp]: "0 < pow2 e"
  by (simp add: pow2_def)

lemma pow2_nonneg: "0 \<le> e \<Longrightarrow> pow2 e = 2 ^ nat e"
  by (simp add: pow2_def)

lemma pow2_add: "pow2 (a + b) = pow2 a * pow2 b"
proof (cases "0 \<le> a"; cases "0 \<le> b")
  assume "0 \<le> a" "0 \<le> b"
  then show ?thesis by (simp add: pow2_def nat_add_distrib power_add)
next
  assume a: "0 \<le> a" and b: "\<not> 0 \<le> b"
  then have "0 \<le> a + b \<Longrightarrow> nat a = nat (a + b) + nat (- b)"
    and "\<not> 0 \<le> a + b \<Longrightarrow> nat (- b) = nat (- (a + b)) + nat a" by auto
  then show ?thesis using a b by (auto simp: pow2_def power_add)
next
  assume a: "\<not> 0 \<le> a" and b: "0 \<le> b"
  then have "0 \<le> a + b \<Longrightarrow> nat b = nat (a + b) + nat (- a)"
    and "\<not> 0 \<le> a + b \<Longrightarrow> nat (- a) = nat (- (a + b)) + nat b" by auto
  then show ?thesis using a b by (auto simp: pow2_def power_add)
next
  assume a: "\<not> 0 \<le> a" and b: "\<not> 0 \<le> b"
  then have "nat (- (a + b)) = nat (- a) + nat (- b)" by auto
  then show ?thesis using a b by (simp add: pow2_def power_add)
qed

lemma pow2_mono: "a \<le> b \<Longrightarrow> pow2 a \<le> pow2 b"
proof -
  assume "a \<le> b"
  then obtain d where d: "b = a + d" "0 \<le> d" by (metis add.commute diff_add_cancel diff_ge_0_iff_ge)
  have "1 \<le> pow2 d" using d(2) by (simp add: pow2_def)
  then have "pow2 a * 1 \<le> pow2 a * pow2 d" by (intro mult_left_mono) (auto intro: less_imp_le)
  then show ?thesis by (simp add: d pow2_add)
qed

lemma pow2_strict: "pow2 a < pow2 b \<Longrightarrow> a < b"
  using pow2_mono[of b a] by linarith

lemma pow2_bitlen:
  assumes "0 < n"
  shows "of_int n < pow2 (bitlen n)" and "pow2 (bitlen n - 1) \<le> of_int n"
proof -
  have b: "0 < bitlen n" using assms bitlen_nonneg[of n] bitlen_eq_zero_iff[of n] by linarith
  have *: "2 ^ nat (bitlen n - 1) \<le> n" "n < 2 ^ nat (bitlen n)"
    using bitlen_bounds[OF assms] by auto
  show "of_int n < pow2 (bitlen n)"
    using *(2) b of_int_less_iff[of n "2 ^ nat (bitlen n)", where 'a = rat] by (simp add: pow2_nonneg)
  show "pow2 (bitlen n - 1) \<le> of_int n"
    using *(1) b of_int_le_iff[of "2 ^ nat (bitlen n - 1)" n, where 'a = rat] by (simp add: pow2_nonneg)
qed

lemma ilog2_lower:
  assumes "0 < q"
  shows "pow2 (ilog2 q) \<le> q"
proof -
  obtain n d where nd: "quotient_of q = (n, d)" by force
  have d: "0 < d" using quotient_of_denom_pos[OF nd] .
  have q: "q = of_int n / of_int d" using quotient_of_div[OF nd] .
  have n: "0 < n" using assms d by (simp add: q zero_less_divide_iff)
  let ?k = "bitlen n - bitlen d"
  have "pow2 (?k - 1) * of_int d \<le> pow2 (?k - 1) * pow2 (bitlen d)"
    using pow2_bitlen(1)[OF d] by (intro mult_left_mono) (auto intro: less_imp_le)
  also have "\<dots> = pow2 (bitlen n - 1)" by (simp flip: pow2_add)
  also have "\<dots> \<le> of_int n" using pow2_bitlen(2)[OF n] .
  finally have "pow2 (?k - 1) \<le> q" using d by (simp add: q pos_le_divide_eq)
  then show ?thesis by (simp add: ilog2_def nd Let_def)
qed

lemma round_half_even_int [simp]: "round_half_even (of_int n) = n"
  by (simp add: round_half_even_def)

lemma round_f64_exact:
  assumes "q = of_int m * pow2 k" and "max (ilog2 \<bar>q\<bar> - 52) (- 1074) \<le> k" and "\<bar>q\<bar> < pow2 1024"
  shows "round_f64 q = Fin q"
proof (cases "q = 0")
  case False
  let ?e = "max (ilog2 \<bar>q\<bar> - 52) (- 1074)"
  have ke: "0 \<le> k - ?e" using assms(2) by simp
  have "pow2 k = pow2 (k - ?e) * pow2 ?e" using pow2_add[of "k - ?e" ?e] by simp
  then have "q = of_int m * pow2 (k - ?e) * pow2 ?e" using assms(1) by (simp only: mult.assoc)
  then have "q / pow2 ?e = of_int m * pow2 (k - ?e)"
    by (metis less_irrefl nonzero_mult_div_cancel_right pow2_pos)
  also have "\<dots> = of_int (m * 2 ^ nat (k - ?e))" using ke by (simp add: pow2_nonneg)
  finally have "of_int (round_half_even (q / pow2 ?e)) * pow2 ?e = q"
    by (metis pow2_pos round_half_even_int less_irrefl nonzero_divide_eq_eq)
  moreover have "ilog2 \<bar>q\<bar> < 1024"
    using pow2_strict[OF le_less_trans[OF ilog2_lower assms(3)]] False by simp
  ultimately show ?thesis using False by (simp add: round_f64_def Let_def)
qed (simp add: round_f64_def)

lemma round_f64_int:
  assumes "\<bar>n\<bar> < 2 ^ 53"
  shows "round_f64 (of_int n) = Fin (of_int n)"
proof (cases "n = 0")
  case False
  have b: "\<bar>of_int n :: rat\<bar> < 2 ^ 53" using assms
    by (metis of_int_abs of_int_less_iff of_int_numeral of_int_power)
  have "pow2 (ilog2 \<bar>of_int n\<bar>) \<le> \<bar>of_int n\<bar>" using False by (intro ilog2_lower) simp
  also have "\<dots> < pow2 53" using b by (simp add: pow2_def)
  finally have "ilog2 \<bar>of_int n\<bar> < 53" by (rule pow2_strict)
  moreover have "\<bar>of_int n :: rat\<bar> < pow2 1024"
    using less_le_trans[OF b, of "pow2 1024"] pow2_mono[of 53 1024] by (simp add: pow2_def)
  ultimately show ?thesis
    by (intro round_f64_exact[where m = n and k = 0]) (auto simp: pow2_def)
qed (simp add: round_f64_def)

lemma of_int_f64_exact: "\<bar>n\<bar> < 2 ^ 53 \<Longrightarrow> of_int_f64 n = Fin (of_int n)"
  by (simp add: of_int_f64_def round_f64_int)

lemma fadd_int: "\<bar>a + b\<bar> < 2 ^ 53 \<Longrightarrow> fadd (Fin (of_int a)) (Fin (of_int b)) = Fin (of_int (a + b))"
  using round_f64_int[of "a + b"] by simp

lemma fsub_int: "\<bar>a - b\<bar> < 2 ^ 53 \<Longrightarrow> fsub (Fin (of_int a)) (Fin (of_int b)) = Fin (of_int (a - b))"
  using round_f64_int[of "a - b"] by (simp add: fsub_def)

lemma fmul_int: "\<bar>a * b\<bar> < 2 ^ 53 \<Longrightarrow> fmul (Fin (of_int a)) (Fin (of_int b)) = Fin (of_int (a * b))"
  using round_f64_int[of "a * b"] by simp

subsection \<open>Rounding stays within powers of two\<close>

lemma round_half_even_le: "x \<le> of_int n \<Longrightarrow> round_half_even x \<le> n"
proof -
  assume x: "x \<le> of_int n"
  have f: "\<lfloor>x\<rfloor> \<le> n" using x by linarith
  show ?thesis
  proof (cases "\<lfloor>x\<rfloor> = n")
    case True
    then have "x = of_int n" using x of_int_floor_le[of x] by simp
    then show ?thesis by simp
  next
    case False
    then show ?thesis using f by (auto simp: round_half_even_def Let_def)
  qed
qed

lemma round_half_even_nonneg: "0 \<le> x \<Longrightarrow> 0 \<le> round_half_even x"
  by (auto simp: round_half_even_def Let_def)

lemma round_half_even_minus: "round_half_even (- x) = - round_half_even x"
proof (cases "x = of_int \<lfloor>x\<rfloor>")
  case True
  then show ?thesis using round_half_even_int[of "- \<lfloor>x\<rfloor>"] round_half_even_int[of "\<lfloor>x\<rfloor>"] by simp
next
  case False
  have f: "\<lfloor>- x\<rfloor> = - \<lfloor>x\<rfloor> - 1" using False by linarith
  show ?thesis unfolding round_half_even_def Let_def f by (auto simp: even_add)
qed

lemma round_f64_minus: "round_f64 (- q) = f64_neg (round_f64 q)"
  by (auto simp: round_f64_def Let_def round_half_even_minus)

lemma ilog2_le: "0 < q \<Longrightarrow> q < pow2 w \<Longrightarrow> ilog2 q < w"
  using pow2_strict[OF le_less_trans[OF ilog2_lower]] by blast

lemma pow2_Suc: "pow2 (w + 1) = 2 * pow2 w"
  by (simp add: pow2_add pow2_def[of 1])

lemma round_f64_pow2:
  assumes "- 1074 \<le> w" "w \<le> 1023"
  shows "round_f64 (pow2 w) = Fin (pow2 w)"
proof (rule round_f64_exact[where m = 1 and k = w])
  have "pow2 (ilog2 (pow2 w)) \<le> pow2 w" by (rule ilog2_lower) simp
  then have "\<not> pow2 (w + 1) \<le> pow2 (ilog2 (pow2 w))"
    using pow2_Suc[of w] pow2_pos[of w] by linarith
  then have "ilog2 (pow2 w) \<le> w" using pow2_mono[of "w + 1" "ilog2 (pow2 w)"] by linarith
  then show "max (ilog2 \<bar>pow2 w\<bar> - 52) (- 1074) \<le> w" using assms(1) pow2_pos[of w] by (simp add: abs_of_pos)
  have "pow2 w < pow2 1024"
    using pow2_mono[of "w + 1" 1024] pow2_Suc[of w] pow2_pos[of w] assms(2) by linarith
  then show "\<bar>pow2 w\<bar> < pow2 1024" using pow2_pos[of w] by (simp add: abs_of_pos)
qed simp

lemma round_f64_range:
  assumes "0 \<le> q" "q \<le> pow2 w" "- 1074 \<le> w" "w \<le> 1023"
  shows "\<exists>v. round_f64 q = Fin v \<and> 0 \<le> v \<and> v \<le> pow2 w"
proof (cases "q = 0 \<or> q = pow2 w")
  case True
  then show ?thesis using round_f64_pow2[OF assms(3,4)] pow2_pos[of w] by (auto simp: round_f64_def[of 0] less_imp_le)
next
  case False
  then have q: "0 < q" "q < pow2 w" using assms(1,2) by auto
  let ?e = "max (ilog2 \<bar>q\<bar> - 52) (- 1074)"
  let ?v = "of_int (round_half_even (q / pow2 ?e)) * pow2 ?e"
  have e: "0 \<le> w - ?e" using ilog2_le[OF q] q(1) assms(3) by simp
  have w: "pow2 w = of_int (2 ^ nat (w - ?e)) * pow2 ?e"
    using pow2_add[of "w - ?e" ?e] e by (simp add: pow2_nonneg)
  have "q / pow2 ?e \<le> of_int (2 ^ nat (w - ?e))"
    using q(2) unfolding w by (simp add: pos_divide_le_eq)
  from round_half_even_le[OF this] have "?v \<le> of_int (2 ^ nat (w - ?e)) * pow2 ?e"
    by (intro mult_right_mono) (auto simp only: of_int_le_iff less_imp_le[OF pow2_pos])
  then have v1: "?v \<le> pow2 w" unfolding w .
  have v0: "0 \<le> ?v" using round_half_even_nonneg[of "q / pow2 ?e"] q(1) by (simp add: less_imp_le)
  have "ilog2 \<bar>?v\<bar> < 1024" if "?v \<noteq> 0"
  proof -
    have "pow2 w < pow2 1024"
      using pow2_mono[of "w + 1" 1024] pow2_Suc[of w] pow2_pos[of w] assms(4) by linarith
    then show ?thesis using ilog2_le[of "\<bar>?v\<bar>" 1024] v0 v1 that by linarith
  qed
  then have "round_f64 q = Fin ?v" using q(1) unfolding round_f64_def Let_def by (auto simp: not_le)
  then show ?thesis using v0 v1 by blast
qed

subsection \<open>Rounding is bounded by representable numbers\<close>

lemma ilog2_upper:
  assumes "0 < q"
  shows "q < pow2 (ilog2 q + 1)"
proof -
  obtain n d where nd: "quotient_of q = (n, d)" by (cases "quotient_of q")
  have d: "0 < d" using quotient_of_denom_pos[OF nd] .
  have q: "q = of_int n / of_int d" using quotient_of_div[OF nd] .
  have n: "0 < n" using assms d unfolding q by (simp add: zero_less_divide_iff)
  have "of_int n < pow2 (bitlen n)" using pow2_bitlen[OF n] by simp
  also have "\<dots> = pow2 (bitlen n - bitlen d + 1) * pow2 (bitlen d - 1)" by (simp add: pow2_add[symmetric])
  also have "\<dots> \<le> pow2 (bitlen n - bitlen d + 1) * of_int d"
    using pow2_bitlen[OF d] by (intro mult_left_mono) (simp_all add: less_imp_le)
  finally have "q < pow2 (bitlen n - bitlen d + 1)" using d unfolding q by (simp add: divide_less_eq)
  then show ?thesis by (simp add: ilog2_def nd Let_def)
qed

lemma ilog2_mono: "0 < q \<Longrightarrow> q \<le> x \<Longrightarrow> ilog2 q \<le> ilog2 x"
  using ilog2_le[of q "ilog2 x + 1"] ilog2_upper[of x] by linarith

lemma round_f64_fixed:
  assumes "round_f64 x = Fin x" "x \<noteq> 0"
  shows "\<exists>r. x = of_int r * pow2 (max (ilog2 \<bar>x\<bar> - 52) (- 1074))"
  using assms unfolding round_f64_def Let_def by (metis f64.distinct(1) f64.distinct(7) f64.inject)

lemma round_f64_below:
  assumes "0 \<le> q" "q \<le> x" "round_f64 x = Fin x" "x < pow2 1024"
  shows "\<exists>v. round_f64 q = Fin v \<and> 0 \<le> v \<and> v \<le> x"
proof (cases "q = 0")
  case True
  then show ?thesis using assms(1,2) by (simp add: round_f64_def)
next
  case False
  then have q: "0 < q" "0 < x" using assms(1,2) by auto
  let ?e = "max (ilog2 \<bar>q\<bar> - 52) (- 1074)" and ?f = "max (ilog2 \<bar>x\<bar> - 52) (- 1074)"
  let ?v = "of_int (round_half_even (q / pow2 ?e)) * pow2 ?e"
  obtain r where r: "x = of_int r * pow2 ?f" using round_f64_fixed[OF assms(3)] q(2) by auto
  have e: "0 \<le> ?f - ?e" using ilog2_mono[OF q(1) assms(2)] q by (simp add: max_def)
  have x: "x = of_int (r * 2 ^ nat (?f - ?e)) * pow2 ?e"
    using r pow2_add[of "?f - ?e" ?e] e by (simp add: pow2_nonneg)
  have "q / pow2 ?e \<le> of_int (r * 2 ^ nat (?f - ?e))"
    using assms(2) x by (metis pos_divide_le_eq pow2_pos)
  from round_half_even_le[OF this] have v1: "?v \<le> x"
    by (subst x) (intro mult_right_mono, auto simp only: of_int_le_iff less_imp_le[OF pow2_pos])
  have v0: "0 \<le> ?v" using round_half_even_nonneg[of "q / pow2 ?e"] q(1) by (simp add: less_imp_le)
  have "ilog2 \<bar>?v\<bar> < 1024" if "?v \<noteq> 0"
    using ilog2_le[of "\<bar>?v\<bar>" 1024] v0 v1 that assms(4) by linarith
  then have "round_f64 q = Fin ?v" using q(1) unfolding round_f64_def Let_def by (auto simp: not_le)
  then show ?thesis using v0 v1 by blast
qed

lemma round_f64_scale:
  assumes "round_f64 m = Fin m" "0 \<le> m" "0 \<le> w" "m * pow2 w < pow2 1024"
  shows "round_f64 (m * pow2 w) = Fin (m * pow2 w)"
proof (cases "m = 0")
  case False
  then have m: "0 < m" using assms(2) by simp
  let ?e = "max (ilog2 \<bar>m\<bar> - 52) (- 1074)"
  obtain r where r: "m = of_int r * pow2 ?e" using round_f64_fixed[OF assms(1) False] by blast
  have p: "0 < m * pow2 w" using m by simp
  have "m * pow2 w < pow2 (ilog2 m + 1 + w)" using ilog2_upper[OF m] by (simp add: pow2_add[of _ w])
  from ilog2_le[OF p this] have "max (ilog2 \<bar>m * pow2 w\<bar> - 52) (- 1074) \<le> ?e + w"
    using m p assms(3) by (simp only: abs_of_pos)
  moreover have "m * pow2 w = of_int r * pow2 (?e + w)" by (subst r) (simp add: pow2_add)
  ultimately show ?thesis using assms(4) p by (intro round_f64_exact[where m = r]) (simp_all only: abs_of_pos)
qed (simp add: round_f64_def)

end
