(* ===== verification/Numerals.thy ===== *)
theory Numerals
  imports Float64
begin

text \<open>
  Printing and reading decimal numerals: \<open>str_int\<close> is read back by \<open>py_int\<close>
  (\<open>py_int_str_int\<close>) and, below \<open>2 ^ 53\<close>, by \<open>py_float\<close>, and what characters a printed
  numeral consists of. Schema tokens, lease tokens and file fingerprints rest on these.
\<close>

subsection \<open>Printing and reading numerals\<close>

lemma digit_char:
  assumes "0 \<le> d" "d < 10"
  shows "py_isdigit (char_of (48 + d :: int))" "digit_val (char_of (48 + d :: int)) = d"
    "\<not> py_isspace (char_of (48 + d :: int))" "\<not> py_isalpha (char_of (48 + d :: int))"
    "char_of (48 + d :: int) \<noteq> CHR '',''" "char_of (48 + d :: int) \<noteq> CHR ''-''"
    "char_of (48 + d :: int) \<noteq> CHR ''+''" "char_of (48 + d :: int) \<noteq> CHR ''W''"
    "char_of (48 + d :: int) \<noteq> CHR ''U''" "char_of (48 + d :: int) \<noteq> CHR ''=''"
proof -
  have "d = 0 \<or> d = 1 \<or> d = 2 \<or> d = 3 \<or> d = 4 \<or> d = 5 \<or> d = 6 \<or> d = 7 \<or> d = 8 \<or> d = 9"
    using assms by arith
  then show "py_isdigit (char_of (48 + d :: int))" "digit_val (char_of (48 + d :: int)) = d"
    "\<not> py_isspace (char_of (48 + d :: int))" "\<not> py_isalpha (char_of (48 + d :: int))"
    "char_of (48 + d :: int) \<noteq> CHR '',''" "char_of (48 + d :: int) \<noteq> CHR ''-''"
    "char_of (48 + d :: int) \<noteq> CHR ''+''" "char_of (48 + d :: int) \<noteq> CHR ''W''"
    "char_of (48 + d :: int) \<noteq> CHR ''U''" "char_of (48 + d :: int) \<noteq> CHR ''=''"
    by (elim disjE; simp add: py_isdigit_def digit_val_def py_isspace_def py_isalpha_def char_of_def)+
qed

lemma nat_digits_all:
  assumes "0 \<le> n" and "c \<in> set (nat_digits n)"
  shows "\<exists>d. 0 \<le> d \<and> d < 10 \<and> c = char_of (48 + d :: int)"
  using assms
proof (induction n rule: nat_digits.induct)
  case (1 n)
  then show ?case
    by (cases "n < 10") (auto simp: nat_digits.simps[of n] intro: exI[of _ n] exI[of _ "n mod 10"])
qed

lemma nat_digits_isdigit: "0 \<le> n \<Longrightarrow> c \<in> set (nat_digits n) \<Longrightarrow> py_isdigit c"
  using nat_digits_all digit_char(1) by blast

lemma py_isdigit_neq:
  assumes "py_isdigit c"
  shows "c \<noteq> CHR '',''" "c \<noteq> CHR ''=''" "c \<noteq> CHR ''W''" "c \<noteq> CHR ''U''" "c \<noteq> CHR ''-''"
    "c \<noteq> CHR ''+''" "c \<noteq> CHR ''e''" "c \<noteq> CHR ''.''" "c \<noteq> CHR ''i''" "c \<noteq> CHR ''n''" "c \<noteq> CHR ''%''"
    "c \<noteq> CHR ''!''"
  using assms by (auto simp: py_isdigit_def)

lemma py_isalpha_neq:
  assumes "py_isalpha c"
  shows "c \<noteq> CHR '',''" "c \<noteq> CHR ''=''" "\<not> py_isdigit c" "c \<noteq> CHR ''%''" "c \<noteq> CHR ''!''"
  using assms by (auto simp: py_isalpha_def py_isdigit_def Let_def)

lemma digits_us_nat_digits:
  assumes "0 \<le> n"
  shows "digits_us a k p (nat_digits n @ ys) =
    digits_us (a * 10 ^ length (nat_digits n) + n) (k + length (nat_digits n)) True ys"
  using assms
proof (induction n arbitrary: ys rule: nat_digits.induct)
  case (1 n)
  show ?case
  proof (cases "n < 10")
    case True
    with 1 show ?thesis by (simp add: nat_digits.simps[of n] digit_char)
  next
    case False
    with 1 show ?thesis
      by (simp add: nat_digits.simps[of n] digit_char algebra_simps)
  qed
qed

lemma digit_run_nat_digits:
  assumes "0 \<le> n"
  shows "digit_run (nat_digits n) = Some (n, length (nat_digits n))"
  using digits_us_nat_digits[OF assms, of 0 0 False "[]"] by (simp add: digit_run_def)

lemma nat_digits_ne: "nat_digits n \<noteq> []"
  by (simp add: nat_digits.simps[of n])

lemma dropWhile_hd_id: "(xs = [] \<or> \<not> P (hd xs)) \<Longrightarrow> dropWhile P xs = xs"
  by (cases xs) auto

lemma nat_digits_hd_last:
  assumes "0 \<le> n"
  shows "\<exists>d. 0 \<le> d \<and> d < 10 \<and> hd (nat_digits n) = char_of (48 + d :: int)"
    and "\<exists>d. 0 \<le> d \<and> d < 10 \<and> last (nat_digits n) = char_of (48 + d :: int)"
  using nat_digits_all[OF assms] nat_digits_ne[of n] by auto

lemma strip_no_space: "(\<And>c. c \<in> set s \<Longrightarrow> \<not> py_isspace c) \<Longrightarrow> strip s = s"
proof -
  assume *: "\<And>c. c \<in> set s \<Longrightarrow> \<not> py_isspace c"
  have "dropWhile py_isspace s = s" "dropWhile py_isspace (rev s) = rev s"
    using * by (auto intro!: dropWhile_id)
  then show "strip s = s" by (simp add: strip_def lstrip_def rstrip_def)
qed

lemma nat_digits_strip:
  assumes "0 \<le> n"
  shows "strip (nat_digits n) = nat_digits n" "split_sign (nat_digits n) = (False, nat_digits n)"
proof -
  show "strip (nat_digits n) = nat_digits n"
    using nat_digits_all[OF assms] digit_char(3) by (intro strip_no_space) blast
  show "split_sign (nat_digits n) = (False, nat_digits n)"
    using nat_digits_hd_last(1)[OF assms] nat_digits_ne[of n] digit_char(6,7)
    by (cases "nat_digits n") (auto simp: split_sign_def)
qed

lemma py_int_nat_digits: "0 \<le> n \<Longrightarrow> py_int (nat_digits n) = Some n"
  by (simp add: py_int_def nat_digits_strip digit_run_nat_digits)

lemma py_int_str_int: "py_int (str_int n) = Some n"
proof (cases "n < 0")
  case True
  have "\<not> py_isspace (CHR ''-'')" by (simp add: py_isspace_def)
  then have "strip (CHR ''-'' # nat_digits (- n)) = CHR ''-'' # nat_digits (- n)"
    using nat_digits_all[of "- n"] digit_char(3) True
    by (intro strip_no_space) (auto simp del: of_char_of)
  with True show ?thesis
    by (simp add: str_int_def py_int_def split_sign_def digit_run_nat_digits)
qed (simp add: str_int_def py_int_nat_digits)

lemma split_once_no_sep: "c \<notin> set s \<Longrightarrow> split_once c s = (s, None)"
proof -
  assume "c \<notin> set s"
  then have "takeWhile (\<lambda>x. x \<noteq> c) s = s" "dropWhile (\<lambda>x. x \<noteq> c) s = []"
    by (induction s) auto
  then show ?thesis unfolding split_once_def by (simp only: list.case)
qed

lemma py_float_nat_digits:
  assumes "0 \<le> n" "n < 2 ^ 53"
  shows "py_float (nat_digits n) = Some (Fin (of_int n))"
proof -
  let ?s = "nat_digits n"
  have d: "py_isdigit c" if "c \<in> set ?s" for c
    using nat_digits_all[OF assms(1) that] digit_char(1) by blast
  have low: "map py_tolower ?s = ?s"
    using d by (intro map_idI) (force simp: py_tolower_def py_isdigit_def Let_def)
  then have "CHR ''e'' \<notin> set ?s" "CHR ''.'' \<notin> set ?s" "CHR ''i'' \<notin> set ?s" "CHR ''n'' \<notin> set ?s"
    by (auto simp: py_isdigit_def dest!: d)
  then show ?thesis
    using assms round_f64_int[of n]
    by (auto simp: py_float_def nat_digits_strip low split_once_no_sep mantissa_of_def exponent_of_def
        digit_run_nat_digits scaled10_def Let_def)
qed

end
