(* ===== verification/Stats_Schema.thy ===== *)
theory Stats_Schema
  imports Numerals
begin

text \<open>
  Schema tokens, columnar stats buffers and device stamps of
  \<^verbatim>\<open>dbload/lib/sync_timedb_parsing.py\<close>. A \<^verbatim>\<open>!\<close> schema line declares, per stats type, a
  list of tokens \<^verbatim>\<open>event,E,U=<mult><unit>,W=<bits>,R=S\<close>; \<open>compile_schema_token\<close> reads one,
  \<open>compile_schema_tokens\<close> a whole line into parallel arrays, and
  \<open>append_compiled_stats_columns\<close> appends one stats line to the ten parallel columns.
  \<open>stats_payload_to_records\<close> reads the columns back as rows.
  \<open>stats_format_schema_entry_suffix\<close> is the monitor's printer
  (\<^verbatim>\<open>monitor/src/stats_text_format.c\<close>).
  Shown here: numerals print and parse back, the monitor's tokens compile back, every append keeps the
  columns aligned and adds whole lines only.
\<close>

definition exclude_types :: "string list" where
  "exclude_types = [''intel_x86_uncore_cha_skx'', ''host_ps'', ''host_sysv_shm'', ''host_tmpfs'',
     ''host_vfs'', ''ib'', ''ib_sw'', ''intel_skx_cha'', ''ps'', ''sysv_shm'', ''tmpfs'', ''vfs'']"

definition HOST_PROC_KEYS :: "string list" where
  "HOST_PROC_KEYS = [''uid'', ''vm_peak'', ''vm_size'', ''vm_lck'', ''vm_hwm'', ''vm_rss'', ''vm_data'',
     ''vm_stk'', ''vm_exe'', ''vm_lib'', ''vm_pte'', ''vm_swap'', ''threads'']"

definition GPU_STATS_TYPES :: "string list" where
  "GPU_STATS_TYPES = [''nvidia_gpu'', ''amd_gpu'', ''intel_gpu'']"

definition TIER_MARKERS :: "string list" where
  "TIER_MARKERS = [''@fast'', ''@full'']"

subsection \<open>Schema tokens\<close>

definition schema_key_basename :: "string \<Rightarrow> string" where
  "schema_key_basename token = (if token = [] then [] else fst (split_once (CHR '','') token))"

definition schema_token_is_slow_tier :: "string \<Rightarrow> bool" where
  "schema_token_is_slow_tier token = (''R=S'' \<in> set (tl (split_on (CHR '','') token)))"

definition fast_schema_keys :: "string list \<Rightarrow> string list" where
  "fast_schema_keys full_events = filter (\<lambda>e. \<not> schema_token_is_slow_tier e) full_events"

definition compile_schema_option :: "int \<times> f64 \<times> string \<Rightarrow> string \<Rightarrow> (int \<times> f64 \<times> string) res" where
  \<comment> \<open>One \<^verbatim>\<open>W=\<close>/\<^verbatim>\<open>U=\<close> element; a bad width raises, a missing multiplier is suppressed.\<close>
  "compile_schema_option wmu ele = (case wmu of (width, mul, unit) \<Rightarrow>
     bindE (if contains ''W='' ele then raise_none ValueError (py_int (lstrip_chars ''W='' ele))
            else Inr width)
       (\<lambda>width'.
         if contains ''U='' ele then
           (let ele' = lstrip_chars ''U='' ele in
            Inr (width',
                 (case py_float (filter py_isdigit ele') of None \<Rightarrow> mul | Some m \<Rightarrow> m),
                 filter py_isalpha ele'))
         else Inr (width', mul, unit)))"

definition compile_schema_token :: "string \<Rightarrow> (string \<times> int \<times> f64 \<times> string) res" where
  "compile_schema_token token =
     (let eve_parts = split_on (CHR '','') token in
      bindE (foldE compile_schema_option (64, Fin 1, ''#'') (tl eve_parts))
        (\<lambda>wmu. Inr (hd eve_parts, wmu)))"

record compiled_schema =
  events :: "string list"
  wids :: "int list"
  mults :: "f64 list"
  units :: "string list"

definition empty_compiled_schema :: compiled_schema where
  "empty_compiled_schema = \<lparr>events = [], wids = [], mults = [], units = []\<rparr>"

definition push_compiled :: "compiled_schema \<Rightarrow> string \<times> int \<times> f64 \<times> string \<Rightarrow> compiled_schema" where
  "push_compiled out t = (case t of (event, wid, mul, unit) \<Rightarrow>
     out\<lparr>events := events out @ [event], wids := wids out @ [wid],
         mults := mults out @ [mul], units := units out @ [unit]\<rparr>)"

definition compile_schema_tokens :: "string list \<Rightarrow> compiled_schema res" where
  "compile_schema_tokens tokens =
     foldE (\<lambda>out token. bindE (compile_schema_token token) (\<lambda>t. Inr (push_compiled out t)))
       empty_compiled_schema tokens"

definition compile_schema_bare_names :: "string list \<Rightarrow> string list" where
  "compile_schema_bare_names tokens = map schema_key_basename tokens"

subsection \<open>Columns and rows\<close>

record stats_cols =
  c_time :: "f64 list"
  c_host :: "string list"
  c_jid :: "string list"
  c_type :: "string list"
  c_dev :: "string list"
  c_event :: "string list"
  c_value :: "f64 list"
  c_wid :: "int list"
  c_mult :: "f64 list"
  c_unit :: "string list"

record stats_row =
  r_time :: f64
  r_host :: string
  r_jid :: string
  r_type :: string
  r_dev :: string
  r_event :: string
  r_value :: f64
  r_wid :: int
  r_mult :: f64
  r_unit :: string

definition empty_stats_columns :: stats_cols where
  "empty_stats_columns = \<lparr>c_time = [], c_host = [], c_jid = [], c_type = [], c_dev = [],
     c_event = [], c_value = [], c_wid = [], c_mult = [], c_unit = []\<rparr>"

definition stats_payload_row_count :: "stats_cols option \<Rightarrow> nat" where
  "stats_payload_row_count payload = (case payload of None \<Rightarrow> 0 | Some cols \<Rightarrow> length (c_time cols))"

definition stats_payload_to_records :: "stats_cols option \<Rightarrow> stats_row list" where
  "stats_payload_to_records payload = (case payload of None \<Rightarrow> []
     | Some cols \<Rightarrow> map (\<lambda>i. \<lparr>r_time = c_time cols ! i, r_host = c_host cols ! i, r_jid = c_jid cols ! i,
          r_type = c_type cols ! i, r_dev = c_dev cols ! i, r_event = c_event cols ! i,
          r_value = c_value cols ! i, r_wid = c_wid cols ! i, r_mult = c_mult cols ! i,
          r_unit = c_unit cols ! i\<rparr>) [0..<stats_payload_row_count payload])"

definition append_compiled_stats_columns ::
  "stats_cols \<Rightarrow> f64 \<Rightarrow> string \<Rightarrow> string \<Rightarrow> string \<Rightarrow> string \<Rightarrow> compiled_schema \<Rightarrow> string list \<Rightarrow> stats_cols res"
where
  "append_compiled_stats_columns cols time host jid typ dev compiled vals =
     (let n = length (events compiled) in
      if length vals \<noteq> n then Inr cols
      else bindE (mapE (\<lambda>v. raise_none ValueError (py_float v)) vals)
        (\<lambda>fs. Inr (cols\<lparr>
            c_time := c_time cols @ replicate n time,
            c_host := c_host cols @ replicate n host,
            c_jid := c_jid cols @ replicate n jid,
            c_type := c_type cols @ replicate n typ,
            c_dev := c_dev cols @ replicate n dev,
            c_event := c_event cols @ events compiled,
            c_value := c_value cols @ fs,
            c_wid := c_wid cols @ wids compiled,
            c_mult := c_mult cols @ mults compiled,
            c_unit := c_unit cols @ units compiled\<rparr>)))"

definition zip_schema_vals :: "string list \<Rightarrow> 'v list \<Rightarrow> (string \<times> 'v) list option" where
  \<comment> \<open>\<^verbatim>\<open>dict(zip(keys, vals))\<close>, or \<open>None\<close> when the counts differ.\<close>
  "zip_schema_vals schema_keys vals =
     (if length vals \<noteq> length schema_keys then None
      else Some (foldl (\<lambda>d (k, v). dset k v d) [] (zip schema_keys vals)))"

subsection \<open>Device stamps\<close>

definition job_stamp :: "string \<Rightarrow> string" where
  \<comment> \<open>\<^verbatim>\<open>f"j:{jid}"[:64]\<close>\<close>
  "job_stamp jid = take 64 (''j:'' @ jid)"

definition shared_row_dev :: "string \<Rightarrow> string \<Rightarrow> string \<Rightarrow> bool \<Rightarrow> string" where
  "shared_row_dev dev typ jid shared =
     (if typ \<in> set GPU_STATS_TYPES then dev
      else if jid = [] \<or> jid = ''-'' \<or> jid = ''0'' then dev
      else if typ = ''host_mem_job'' then
        (if startswith dev ''j:'' then take 64 dev else job_stamp jid)
      else if \<not> shared then dev
      else job_stamp jid)"

subsection \<open>The monitor's schema tokens\<close>

record schema_entry =
  \<comment> \<open>\<^verbatim>\<open>struct schema_entry\<close> of the monitor; a null unit is \<open>None\<close>.\<close>
  se_key :: string
  se_unit :: "string option"
  se_type :: nat
  se_width :: nat
  se_collect_tier :: nat

definition stats_format_schema_entry_suffix :: "schema_entry \<Rightarrow> string option" where
  \<comment> \<open>What the monitor prints after a key; \<open>None\<close> when it does not fit the 96 bytes of its buffer.\<close>
  "stats_format_schema_entry_suffix se =
     (let suf = (if se_type se = 2 then '',C'' else if se_type se = 1 then '',E'' else [])
            @ (case se_unit se of None \<Rightarrow> [] | Some u \<Rightarrow> '',U='' @ u)
            @ (if se_width se \<noteq> 0 then '',W='' @ nat_digits (int (se_width se)) else [])
            @ (if se_collect_tier se = 1 then '',R=S'' else [])
      in if length suf < 96 then Some suf else None)"

definition emit_one_schema_entry :: "schema_entry \<Rightarrow> string option" where
  \<comment> \<open>The token of a schema line, without the blank before it.\<close>
  "emit_one_schema_entry se = map_option (\<lambda>suf. se_key se @ suf) (stats_format_schema_entry_suffix se)"

lemma not_contains_eq: "CHR ''='' \<notin> set s \<Longrightarrow> \<not> contains [x, CHR ''=''] s"
  by (auto simp: contains_iff)

lemma contains_key_eq:
  assumes "CHR ''='' \<notin> set s"
  shows "contains [x, CHR ''=''] (y # CHR ''='' # s) \<longleftrightarrow> x = y"
  using not_contains_eq[OF assms] assms by (cases s) (auto simp: startswith_def contains.simps)

lemma compile_option_W:
  assumes "0 \<le> w"
  shows "compile_schema_option (a, b, c) (''W='' @ nat_digits w) = Inr (w, b, c)"
proof -
  have d: "c \<noteq> CHR ''=''" "c \<noteq> CHR ''W''" if "c \<in> set (nat_digits w)" for c
    using py_isdigit_neq[OF nat_digits_isdigit[OF assms that]] by auto
  then have "CHR ''='' \<notin> set (nat_digits w)" by blast
  moreover have "dropWhile (\<lambda>c. c \<in> set ''W='') (nat_digits w) = nat_digits w"
    by (rule dropWhile_id) (use d in auto)
  ultimately show ?thesis
    by (simp add: compile_schema_option_def contains_key_eq py_int_nat_digits assms lstrip_chars_def)
qed

lemma compile_option_U:
  assumes "0 \<le> m" "m < 2 ^ 53" "\<forall>c\<in>set u. py_isalpha c"
  shows "compile_schema_option (a, b, c) (''U='' @ nat_digits m @ u) = Inr (a, Fin (of_int m), u)"
proof -
  have d: "py_isdigit c" if "c \<in> set (nat_digits m)" for c
    using nat_digits_isdigit[OF assms(1) that] .
  have "CHR ''='' \<notin> set (nat_digits m @ u)"
    using d py_isdigit_neq(2) py_isalpha_neq(2) assms(3) by (metis Un_iff set_append)
  moreover have "lstrip_chars ''U='' (''U='' @ nat_digits m @ u) = nat_digits m @ u"
    using nat_digits_ne[of m] d py_isdigit_neq(2,4)
    by (cases "nat_digits m") (auto simp: lstrip_chars_def)
  moreover have "filter py_isdigit (nat_digits m @ u) = nat_digits m"
    using d assms(3) py_isalpha_neq(3) by (simp add: filter_id_conv filter_empty_conv)
  moreover have "filter py_isalpha (nat_digits m @ u) = u"
    using d assms(3) py_class_disjoint(1) by (simp add: filter_id_conv filter_empty_conv)
  ultimately show ?thesis
    using py_float_nat_digits[OF assms(1,2)]
    by (simp add: compile_schema_option_def contains_key_eq)
qed

lemma compile_option_U_plain:
  assumes "\<forall>c\<in>set u. py_isalpha c" "\<not> startswith u ''U''"
  shows "compile_schema_option (a, b, c) (''U='' @ u) = Inr (a, b, u)"
proof -
  have "CHR ''='' \<notin> set u" using py_isalpha_neq(2) assms(1) by metis
  moreover from this assms(2) have "lstrip_chars ''U='' (''U='' @ u) = u"
    by (cases u) (auto simp: lstrip_chars_def startswith_def)
  moreover have "filter py_isdigit u = []" using assms(1) py_isalpha_neq(3) by (simp add: filter_empty_conv)
  moreover have "filter py_isalpha u = u" using assms(1) by (simp add: filter_id_conv)
  moreover have "py_float [] = None" by code_simp
  ultimately show ?thesis by (simp add: compile_schema_option_def contains_key_eq)
qed

lemma compile_option_flag: "ele \<in> {''C'', ''E'', ''R=S''} \<Longrightarrow> compile_schema_option wmu ele = Inr wmu"
  by (cases wmu) (auto simp: compile_schema_option_def contains.simps startswith_def)

type_synonym unit_spec = "int option \<times> string"

fun unit_text :: "unit_spec \<Rightarrow> string" where
  \<comment> \<open>A unit as the schemas write it: a multiplier, if any, and letters.\<close>
  "unit_text (m, u) = (case m of None \<Rightarrow> [] | Some n \<Rightarrow> nat_digits n) @ u"

fun unit_spec_ok :: "unit_spec \<Rightarrow> bool" where
  "unit_spec_ok (m, u) = (list_all py_isalpha u \<and>
     (case m of None \<Rightarrow> \<not> startswith u ''U'' | Some n \<Rightarrow> 0 \<le> n \<and> n < 2 ^ 53))"

lemma compile_option_unit:
  assumes "unit_spec_ok (m, u)"
  shows "compile_schema_option (a, b, c) (''U='' @ unit_text (m, u)) = Inr (a, case m of None \<Rightarrow> b | Some n \<Rightarrow> Fin (of_int n), u)"
    and "CHR '','' \<notin> set (unit_text (m, u))"
proof -
  have u: "\<forall>c\<in>set u. py_isalpha c" using assms by (simp add: list_all_iff)
  show "compile_schema_option (a, b, c) (''U='' @ unit_text (m, u)) = Inr (a, case m of None \<Rightarrow> b | Some n \<Rightarrow> Fin (of_int n), u)"
    using assms compile_option_U_plain[OF u] compile_option_U[OF _ _ u] by (cases m) simp_all
  have "CHR '','' \<notin> set u" using u py_isalpha_neq(1) by metis
  moreover have "CHR '','' \<notin> set (nat_digits n)" if "0 \<le> n" for n using nat_digits_isdigit[OF that] py_isdigit_neq(1) by metis
  ultimately show "CHR '','' \<notin> set (unit_text (m, u))" using assms by (cases m) auto
qed

definition entry_options :: "schema_entry \<Rightarrow> string list" where
  "entry_options se = (if se_type se = 2 then [''C''] else if se_type se = 1 then [''E''] else [])
     @ (case se_unit se of None \<Rightarrow> [] | Some u \<Rightarrow> [''U='' @ u])
     @ (if se_width se \<noteq> 0 then [''W='' @ nat_digits (int (se_width se))] else [])
     @ (if se_collect_tier se = 1 then [''R=S''] else [])"

lemma split_on_options:
  "c \<notin> set x \<Longrightarrow> \<forall>q \<in> set opts. c \<notin> set q \<Longrightarrow> split_on c (x @ concat (map (\<lambda>q. c # q) opts)) = x # opts"
proof (induction opts arbitrary: x)
  case (Cons q opts)
  then show ?case using split_on_append_sep[of c x "q @ concat (map (\<lambda>q. c # q) opts)"] by (simp add: split_on_no_sep)
qed (simp add: split_on_no_sep)

lemma emitted_token:
  assumes "emit_one_schema_entry se = Some token" "CHR '','' \<notin> set (se_key se)"
    "\<forall>u. se_unit se = Some u \<longrightarrow> CHR '','' \<notin> set u"
  shows "split_on (CHR '','') token = se_key se # entry_options se"
proof -
  have "token = se_key se @ concat (map (\<lambda>q. CHR '','' # q) (entry_options se))"
    using assms(1) by (auto simp: emit_one_schema_entry_def stats_format_schema_entry_suffix_def entry_options_def Let_def
        split: if_splits option.splits)
  moreover have "CHR '','' \<notin> set (nat_digits (int (se_width se)))"
    using nat_digits_isdigit[of "int (se_width se)"] py_isdigit_neq(1) by (metis of_nat_0_le_iff)
  then have "\<forall>q \<in> set (entry_options se). CHR '','' \<notin> set q"
    using assms(3) by (auto simp: entry_options_def split: option.splits)
  ultimately show ?thesis using split_on_options[OF assms(2)] by simp
qed

text \<open>C33. What the monitor prints for a schema entry, the parser reads back: the token of an
  entry (key, control or event flag, unit, width, slow tier, each printed only when present)
  compiles to the key, the width (64 when the entry has none), the multiplier and the letters
  of the unit (1 and \<open>#\<close> when it has none), and it is a slow-tier token exactly when the entry is.
  A unit is a multiplier below \<open>2 ^ 53\<close>, if any, and letters, not starting with \<open>U\<close> when there is no
  multiplier; other characters of a unit, as in \<open>B/s\<close>, are dropped by the parser.\<close>

theorem compile_schema_token_roundtrip:
  assumes "emit_one_schema_entry se = Some token" "CHR '','' \<notin> set (se_key se)"
    and "se_unit se = map_option unit_text unit" "\<forall>mu. unit = Some mu \<longrightarrow> unit_spec_ok mu"
  shows "compile_schema_token token = Inr (se_key se, (if se_width se = 0 then 64 else int (se_width se)),
      (case unit of Some (Some m, u) \<Rightarrow> Fin (of_int m) | _ \<Rightarrow> Fin 1), (case unit of None \<Rightarrow> ''#'' | Some (m, u) \<Rightarrow> u)) \<and>
    (schema_token_is_slow_tier token \<longleftrightarrow> se_collect_tier se = 1)"
proof -
  have "CHR '','' \<notin> set v" if v: "se_unit se = Some v" for v
  proof -
    obtain m u where mu: "unit = Some (m, u)" "v = unit_text (m, u)" using assms(3) v by (cases unit) force+
    then have "unit_spec_ok (m, u)" using assms(4) by blast
    from compile_option_unit(2)[OF this] show ?thesis unfolding mu(2) .
  qed
  then have "\<forall>v. se_unit se = Some v \<longrightarrow> CHR '','' \<notin> set v" by blast
  note split = emitted_token[OF assms(1,2) this]
  let ?f = "foldE compile_schema_option"
  have flags: "?f x (if se_type se = 2 then [''C''] else if se_type se = 1 then [''E''] else []) = Inr x"
    "?f x (if se_collect_tier se = 1 then [''R=S''] else []) = Inr x" for x
    by (simp_all add: compile_option_flag)
  have u: "?f (a, Fin 1, ''#'') (case se_unit se of None \<Rightarrow> [] | Some v \<Rightarrow> [''U='' @ v]) =
      Inr (a, (case unit of Some (Some m, u) \<Rightarrow> Fin (of_int m) | _ \<Rightarrow> Fin 1), (case unit of None \<Rightarrow> ''#'' | Some (m, u) \<Rightarrow> u))" for a
  proof (cases unit)
    case (Some mu)
    obtain m u where mu: "mu = (m, u)" by (cases mu)
    then have "unit_spec_ok (m, u)" using assms(4) Some by blast
    from compile_option_unit(1)[OF this] show ?thesis using assms(3) Some mu by (simp del: append.simps unit_text.simps split: option.split)
  qed (use assms(3) in simp)
  have w: "?f (64, b, c) (if se_width se \<noteq> 0 then [''W='' @ nat_digits (int (se_width se))] else []) =
      Inr (if se_width se = 0 then 64 else int (se_width se), b, c)" for b c
    using compile_option_W[of "int (se_width se)"] by (simp del: append.simps)
  have "compile_schema_token token = Inr (se_key se, (if se_width se = 0 then 64 else int (se_width se)),
      (case unit of Some (Some m, u) \<Rightarrow> Fin (of_int m) | _ \<Rightarrow> Fin 1), (case unit of None \<Rightarrow> ''#'' | Some (m, u) \<Rightarrow> u))"
    unfolding compile_schema_token_def split Let_def list.sel entry_options_def foldE_append flags bindE_simps u w by simp
  moreover have "schema_token_is_slow_tier token \<longleftrightarrow> se_collect_tier se = 1"
    unfolding schema_token_is_slow_tier_def split by (auto simp: entry_options_def split: option.splits)
  ultimately show ?thesis by blast
qed

theorem compile_schema_token_roundtrip_witness:
  "emit_one_schema_entry \<lparr>se_key = ''rd_sectors'', se_unit = Some ''512B'', se_type = 1, se_width = 48, se_collect_tier = 1\<rparr> =
     Some ''rd_sectors,E,U=512B,W=48,R=S'' \<and>
   compile_schema_token ''rd_sectors,E,U=512B,W=48,R=S'' = Inr (''rd_sectors'', 48, Fin (of_int 512), ''B'') \<and>
   schema_token_is_slow_tier ''rd_sectors,E,U=512B,W=48,R=S''"
proof -
  let ?se = "\<lparr>se_key = ''rd_sectors'', se_unit = Some ''512B'', se_type = 1, se_width = 48, se_collect_tier = 1\<rparr> :: schema_entry"
  have e: "emit_one_schema_entry ?se = Some ''rd_sectors,E,U=512B,W=48,R=S''" by code_simp
  have u: "Some ''512B'' = map_option unit_text (Some (Some 512, ''B''))" "unit_spec_ok (Some 512, ''B'')" by code_simp+
  have "compile_schema_token ''rd_sectors,E,U=512B,W=48,R=S'' = Inr (''rd_sectors'', 48, Fin (of_int 512), ''B'') \<and>
      schema_token_is_slow_tier ''rd_sectors,E,U=512B,W=48,R=S''"
    using compile_schema_token_roundtrip[OF e, of "Some (Some 512, ''B'')"] u by (simp del: unit_text.simps unit_spec_ok.simps)
  then show ?thesis using e by blast
qed

subsection \<open>Alignment\<close>

definition compiled_aligned :: "compiled_schema \<Rightarrow> bool" where
  "compiled_aligned c \<longleftrightarrow> length (wids c) = length (events c) \<and> length (mults c) = length (events c)
     \<and> length (units c) = length (events c)"

definition cols_aligned :: "stats_cols \<Rightarrow> bool" where
  "cols_aligned c \<longleftrightarrow> (\<forall>n \<in> {length (c_host c), length (c_jid c), length (c_type c), length (c_dev c),
     length (c_event c), length (c_value c), length (c_wid c), length (c_mult c), length (c_unit c)}.
     n = length (c_time c))"

lemma compiled_aligned_empty [simp]: "compiled_aligned empty_compiled_schema"
  by (simp add: compiled_aligned_def empty_compiled_schema_def)

lemma compile_schema_tokens_aligned:
  "compile_schema_tokens ts = Inr c \<Longrightarrow> compiled_aligned c"
  unfolding compile_schema_tokens_def
  by (rule foldE_invariant[where I = compiled_aligned])
     (auto simp: bindE_Inr_iff compiled_aligned_def push_compiled_def empty_compiled_schema_def)

lemma compile_schema_tokens_events:
  "foldE (\<lambda>out token. bindE (compile_schema_token token) (\<lambda>t. Inr (push_compiled out t))) out ts = Inr c
    \<Longrightarrow> events c = events out @ map (\<lambda>t. hd (split_on (CHR '','') t)) ts"
proof (induction ts arbitrary: out)
  case (Cons t ts)
  then obtain x where x: "compile_schema_token t = Inr x"
    and r: "foldE (\<lambda>out token. bindE (compile_schema_token token) (\<lambda>t. Inr (push_compiled out t)))
        (push_compiled out x) ts = Inr c"
    by (auto simp: bindE_Inr_iff)
  have "fst x = hd (split_on (CHR '','') t)"
    using x by (auto simp: compile_schema_token_def bindE_Inr_iff Let_def)
  with Cons.IH[OF r] show ?case by (cases x) (simp add: push_compiled_def)
qed simp

lemma cols_aligned_empty [simp]: "cols_aligned empty_stats_columns"
  by (simp add: cols_aligned_def empty_stats_columns_def)

lemma append_compiled_aligned:
  "cols_aligned cols \<Longrightarrow> compiled_aligned c \<Longrightarrow>
   append_compiled_stats_columns cols t h j ty d c vs = Inr cols' \<Longrightarrow> cols_aligned cols'"
  by (auto simp: append_compiled_stats_columns_def cols_aligned_def compiled_aligned_def Let_def
      bindE_Inr_iff split: if_splits dest: mapE_length)

definition line_rows ::
  "f64 \<Rightarrow> string \<Rightarrow> string \<Rightarrow> string \<Rightarrow> string \<Rightarrow> compiled_schema \<Rightarrow> f64 list \<Rightarrow> stats_row list" where
  \<comment> \<open>The rows one stats line stands for: one per schema event, in schema order.\<close>
  "line_rows time host jid typ dev c fs = map (\<lambda>i. \<lparr>r_time = time, r_host = host, r_jid = jid,
     r_type = typ, r_dev = dev, r_event = events c ! i, r_value = fs ! i, r_wid = wids c ! i,
     r_mult = mults c ! i, r_unit = units c ! i\<rparr>) [0..<length (events c)]"

lemma upt_append_shift: "map f [0..<a + n] = map f [0..<a] @ map (\<lambda>i. f (a + i)) [0..<n]"
proof -
  have "[0..<a + n] = [0..<a] @ map (\<lambda>i. a + i) [0..<n]"
    by (induction n) auto
  then show ?thesis by simp
qed

lemma append_compiled_records:
  assumes "cols_aligned cols" "compiled_aligned c" "length vals = length (events c)"
    and "mapE (\<lambda>v. raise_none ValueError (py_float v)) vals = Inr fs"
  shows "\<exists>cols'. append_compiled_stats_columns cols t h j ty d c vals = Inr cols' \<and>
    stats_payload_to_records (Some cols') = stats_payload_to_records (Some cols) @ line_rows t h j ty d c fs"
  using assms
  by (auto simp: append_compiled_stats_columns_def Let_def stats_payload_to_records_def
      stats_payload_row_count_def upt_append_shift line_rows_def cols_aligned_def compiled_aligned_def
      nth_append)

lemma append_compiled_mismatch:
  "length vals \<noteq> length (events c) \<Longrightarrow> append_compiled_stats_columns cols t h j ty d c vals = Inr cols"
  by (simp add: append_compiled_stats_columns_def Let_def)

end
