(* ===== verification/Proc_Merge.thy ===== *)
theory Proc_Merge
  imports Stats_Schema
begin

text \<open>
  Per-process memory rows (\<^verbatim>\<open>host_proc\<close>) of \<^verbatim>\<open>dbload/lib/sync_timedb_parsing.py\<close>. Samples of
  one \<^verbatim>\<open>(jid, host, proc)\<close> are merged: the kernel peaks are high-water marks, every other
  field is last-write. The merge runs online in the parser (\<open>merge_proc_row_online\<close>), in
  batch (\<open>dedupe_proc_stats_peak_merge\<close>) and against the rows already stored
  (\<open>peak_merge_proc_objs_with_existing\<close>).
  Locale \<open>keyed_merge\<close> is the contract of a merge that keeps the key of its rows; its
  lemmas say what an insertion-ordered dictionary of merged rows holds. The query against
  the stored rows is the Django ORM's: a parameter of the model.
\<close>

record proc_row =
  p_time :: f64
  p_host :: string
  p_jid :: string
  p_proc :: string
  p_device :: string
  p_fields :: "(string \<times> int option) list"

type_synonym proc_key = "string \<times> string \<times> string"

definition HOST_PROC_PEAK_KEYS :: "string list" where
  "HOST_PROC_PEAK_KEYS = [''vm_peak'', ''vm_hwm'', ''vm_stk'', ''vm_exe'', ''vm_lib'']"

fun nullable_int_max :: "int option \<Rightarrow> int option \<Rightarrow> int option" where
  "nullable_int_max None r = r"
| "nullable_int_max l None = l"
| "nullable_int_max (Some l) (Some r) = Some (max l r)"

definition merge_proc_field :: "(string \<times> int option) list \<Rightarrow> string \<times> int option \<Rightarrow> (string \<times> int option) list" where
  "merge_proc_field earlier kv = (case kv of (key, value) \<Rightarrow>
     if key \<in> set HOST_PROC_PEAK_KEYS
     then dset key (nullable_int_max (get_or None earlier key) value) earlier
     else dset key value earlier)"

definition merge_proc_row_dicts :: "proc_row \<Rightarrow> proc_row \<Rightarrow> proc_row" where
  "merge_proc_row_dicts earlier later =
     \<lparr>p_time = p_time later, p_host = p_host later, p_jid = p_jid later, p_proc = p_proc later,
      p_device = p_device later,
      p_fields = foldl merge_proc_field (p_fields earlier) (p_fields later)\<rparr>"

definition proc_row_key :: "proc_row \<Rightarrow> proc_key" where
  "proc_row_key row = (p_jid row, p_host row, p_proc row)"

definition merge_proc_row_online :: "(proc_key \<times> proc_row) list \<Rightarrow> proc_row \<Rightarrow> (proc_key \<times> proc_row) list" where
  "merge_proc_row_online by_key row =
     (let key = proc_row_key row in
      case dget by_key key of None \<Rightarrow> dset key row by_key
      | Some existing \<Rightarrow> dset key (merge_proc_row_dicts existing row) by_key)"

fun dedupe_step :: "(proc_key \<times> proc_row) list \<Rightarrow> proc_row list \<Rightarrow> (proc_key \<times> proc_row) list" where
  "dedupe_step by_key [] = by_key"
| "dedupe_step by_key (row # rows) =
     (let key = proc_row_key row in
      dedupe_step
        (if key \<in> set (keys by_key)
         then dset key (merge_proc_row_dicts (the (dget by_key key)) row) by_key
         else dset key row by_key) rows)"

definition dedupe_proc_stats_peak_merge :: "proc_row list \<Rightarrow> proc_row list" where
  "dedupe_proc_stats_peak_merge proc_stats_list = map snd (dedupe_step [] proc_stats_list)"

subsection \<open>Columns of process rows\<close>

datatype cell = CFloat f64 | CStr string | CInt int | CNone

definition cell_of_int :: "int option \<Rightarrow> cell" where
  "cell_of_int v = (case v of None \<Rightarrow> CNone | Some n \<Rightarrow> CInt n)"

definition row_items :: "proc_row \<Rightarrow> (string \<times> cell) list" where
  \<comment> \<open>The row as the dict the parser builds.\<close>
  "row_items r = [(''time'', CFloat (p_time r)), (''host'', CStr (p_host r)), (''jid'', CStr (p_jid r)),
     (''proc'', CStr (p_proc r)), (''device'', CStr (p_device r))]
     @ map (\<lambda>(k, v). (k, cell_of_int v)) (p_fields r)"

definition add_new :: "'a list \<Rightarrow> 'a \<Rightarrow> 'a list" where
  "add_new seen k = (if k \<in> set seen then seen else seen @ [k])"

definition proc_rows_to_columns :: "proc_row list \<Rightarrow> (string \<times> cell list) list" where
  "proc_rows_to_columns rows =
     (let ks = foldl (\<lambda>seen row. foldl add_new seen (keys (row_items row))) [] rows in
      map (\<lambda>k. (k, map (\<lambda>row. get_or CNone (row_items row) k) rows)) ks)"

subsection \<open>Stored rows\<close>

record proc_obj =
  o_jid :: string
  o_host :: string
  o_proc :: string
  o_attr :: "string \<Rightarrow> int option"

definition proc_obj_key :: "proc_obj \<Rightarrow> proc_key" where
  "proc_obj_key obj = (o_jid obj, o_host obj, o_proc obj)"

definition apply_proc_peak_attrs_from_earlier :: "proc_obj \<Rightarrow> proc_obj \<Rightarrow> proc_obj" where
  "apply_proc_peak_attrs_from_earlier earlier later =
     foldl (\<lambda>o' key. o'\<lparr>o_attr := (o_attr o')(key := nullable_int_max (o_attr earlier key) (o_attr o' key))\<rparr>)
       later HOST_PROC_PEAK_KEYS"

function chunks_of :: "nat \<Rightarrow> 'a list \<Rightarrow> 'a list list" where
  \<comment> \<open>\<^verbatim>\<open>xs[i:i+n] for i in range(0, len(xs), n)\<close> with \<open>n\<close> at least 1.\<close>
  "chunks_of n xs = (if xs = [] then [] else take (max 1 n) xs # chunks_of n (drop (max 1 n) xs))"
  by pat_completeness auto
termination by (relation "measure (\<lambda>(n, xs). length xs)") auto

declare chunks_of.simps [simp del]

definition group_by_jid_host :: "proc_obj list \<Rightarrow> ((string \<times> string) \<times> proc_obj list) list" where
  "group_by_jid_host proc_objs =
     foldl (\<lambda>d obj. dset (o_jid obj, o_host obj) (get_or [] d (o_jid obj, o_host obj) @ [obj]) d) [] proc_objs"

definition load_existing ::
  "(string \<Rightarrow> string \<Rightarrow> string list \<Rightarrow> proc_obj list) \<Rightarrow> nat \<Rightarrow> proc_obj list \<Rightarrow> (proc_key \<times> proc_obj) list" where
  "load_existing query chunk_size proc_objs =
     foldl (\<lambda>existing ((jid, host), group).
        foldl (\<lambda>ex part. foldl (\<lambda>ex' row. dset (proc_obj_key row) row ex') ex (query jid host part))
          existing (chunks_of chunk_size (foldl add_new [] (map o_proc group))))
       [] (group_by_jid_host proc_objs)"

definition peak_merge_proc_objs_with_existing ::
  "(string \<Rightarrow> string \<Rightarrow> string list \<Rightarrow> proc_obj list) \<Rightarrow> int option \<Rightarrow> int option \<Rightarrow> proc_obj list \<Rightarrow> proc_obj list" where
  \<comment> \<open>The configured chunk size is an argument, \<open>None\<close> when reading it raises.\<close>
  "peak_merge_proc_objs_with_existing query cfg_chunk lookup_chunk_size proc_objs =
     (if proc_objs = [] then proc_objs
      else
        (let chunk_size = nat (max 1 (case lookup_chunk_size of Some n \<Rightarrow> n
               | None \<Rightarrow> (case cfg_chunk of Some n \<Rightarrow> n | None \<Rightarrow> 256)));
             existing = load_existing query chunk_size proc_objs
         in if existing = [] then proc_objs
            else map (\<lambda>obj. case dget existing (proc_obj_key obj) of None \<Rightarrow> obj
                   | Some prior \<Rightarrow> apply_proc_peak_attrs_from_earlier prior obj) proc_objs))"

subsection \<open>Dictionaries of merged rows\<close>

locale keyed_merge =
  fixes key :: "'r \<Rightarrow> 'k" and merge :: "'r \<Rightarrow> 'r \<Rightarrow> 'r"
  assumes key_merge: "key a = key b \<Longrightarrow> key (merge a b) = key b"
begin

definition step :: "('k \<times> 'r) list \<Rightarrow> 'r \<Rightarrow> ('k \<times> 'r) list" where
  "step d r = (case dget d (key r) of None \<Rightarrow> dset (key r) r d
     | Some e \<Rightarrow> dset (key r) (merge e r) d)"

definition merge_opt :: "'r option \<Rightarrow> 'r list \<Rightarrow> 'r option" where
  "merge_opt e rs = foldl (\<lambda>acc r. Some (case acc of None \<Rightarrow> r | Some a \<Rightarrow> merge a r)) e rs"

lemma dget_step: "dget (step d r) k = (if key r = k then merge_opt (dget d k) [r] else dget d k)"
  by (auto simp: step_def merge_opt_def split: option.splits)

lemma merge_opt_append: "merge_opt e (rs @ rs') = merge_opt (merge_opt e rs) rs'"
  by (simp add: merge_opt_def)

lemma dget_fold: "dget (foldl step d rs) k = merge_opt (dget d k) (filter (\<lambda>r. key r = k) rs)"
proof (induction rs arbitrary: d)
  case (Cons r rs)
  then show ?case
    using merge_opt_append[of "dget d k" "[r]" "filter (\<lambda>r. key r = k) rs"] by (simp add: dget_step)
qed (simp add: merge_opt_def)

lemma distinct_fold: "distinct (keys d) \<Longrightarrow> distinct (keys (foldl step d rs))"
  by (induction rs arbitrary: d) (auto simp: step_def split: option.splits)

lemma step_keyed: "(\<forall>(k, r) \<in> set d. key r = k) \<Longrightarrow> distinct (keys d) \<Longrightarrow> (\<forall>(k, r') \<in> set (step d r). key r' = k)"
  by (auto simp: step_def dset_distinct_split split: option.splits)
     (metis (mono_tags, lifting) case_prodD key_merge map_of_SomeD)

lemma fold_keyed:
  "(\<forall>(k, r) \<in> set d. key r = k) \<Longrightarrow> distinct (keys d) \<Longrightarrow> (\<forall>(k, r) \<in> set (foldl step d rs). key r = k)"
proof (induction rs arbitrary: d)
  case (Cons r rs)
  have "distinct (keys (step d r))" using distinct_fold[OF Cons.prems(2), of "[r]"] by simp
  with Cons.IH[OF step_keyed[OF Cons.prems]] show ?case by simp
qed simp

end

locale assoc_keyed_merge = keyed_merge +
  fixes good :: "'a \<Rightarrow> bool"
  assumes good_merge: "good a \<Longrightarrow> good b \<Longrightarrow> good (merge a b)"
    and merge_assoc: "good b \<Longrightarrow> merge a (merge b c) = merge (merge a b) c"
begin

lemma step_commute:
  assumes "key r \<in> set (keys d)" "key r \<noteq> key r'"
  shows "step (step d r') r = step (step d r) r'"
proof -
  obtain e where "dget d (key r) = Some e" using assms(1) by (metis dget_None_iff option.exhaust)
  then show ?thesis
    using assms dset_commute[of "key r" d "key r'"] by (auto simp: step_def split: option.splits)
qed

lemma steps_commute:
  "key r \<in> set (keys d) \<Longrightarrow> \<forall>r' \<in> set rs. key r' \<noteq> key r \<Longrightarrow> step (foldl step d rs) r = foldl step (step d r) rs"
proof (induction rs arbitrary: d)
  case (Cons r' rs)
  have "key r \<in> set (keys (step d r'))"
    using Cons.prems by (auto simp: step_def keys_dset_mem split: option.splits)
  then show ?case using Cons step_commute[of r d r'] by (simp add: eq_commute)
qed simp

lemma step_twice: "good e \<Longrightarrow> key e = key r \<Longrightarrow> step (step d e) r = step d (merge e r)"
  by (auto simp: step_def key_merge merge_assoc dset_overwrite split: option.splits)

definition keyed :: "('b \<times> 'a) list \<Rightarrow> bool" where
  "keyed d \<longleftrightarrow> distinct (keys d) \<and> (\<forall>(k, r) \<in> set d. key r = k \<and> good r)"

lemma steps_step:
  assumes "keyed b"
  shows "foldl step a (map snd (step b r)) = step (foldl step a (map snd b)) r"
proof (cases "dget b (key r)")
  case None
  moreover then have "key r \<notin> set (keys b)" by (simp only: dget_None_iff not_False_eq_True)
  ultimately have "step b r = b @ [(key r, r)]" by (simp add: step_def dset_new)
  then show ?thesis by simp
next
  case (Some e)
  then obtain xs ys where b: "b = xs @ (key r, e) # ys"
    by (metis in_set_conv_decomp map_of_SomeD)
  then have k: "key r \<notin> set (keys xs)" "key r \<notin> set (keys ys)" "key e = key r" "good e"
    using assms by (auto simp: keyed_def)
  have all: "\<forall>(k, r) \<in> set b. key r = k \<and> good r" using assms unfolding keyed_def by blast
  have k5: "\<forall>r' \<in> set (map snd ys). key r' \<noteq> key r"
  proof
    fix r' assume "r' \<in> set (map snd ys)"
    then obtain p where p: "p \<in> set ys" "r' = snd p" by auto
    then have "key r' = fst p" using bspec[OF all, of p] b by (cases p) auto
    moreover have "fst p \<noteq> key r" using k(2) p(1) by force
    ultimately show "key r' \<noteq> key r" by simp
  qed
  have s: "step b r = xs @ (key r, merge e r) # ys"
    using Some k(1,2) by (simp add: step_def b dset_middle)
  let ?A = "foldl step a (map snd xs)"
  have "key r \<in> set (keys (step ?A e))" using k(3) by (auto simp: step_def keys_dset_mem split: option.splits)
  from steps_commute[OF this k5] show ?thesis
    using k(3,4) by (simp add: s[unfolded b] b step_twice)
qed

lemma step_keyed_good: "keyed d \<Longrightarrow> good r \<Longrightarrow> keyed (step d r)"
  unfolding keyed_def
proof (intro conjI, goal_cases)
  case 1
  then show ?case using distinct_fold[of d "[r]"] by simp
next
  case 2
  have "\<forall>(k, r) \<in> set d. key r = k" using 2 by auto
  then have "\<forall>(k, r') \<in> set (step d r). key r' = k" using step_keyed 2 by blast
  moreover have "good r'" if "(k, r') \<in> set (step d r)" for k r'
    using that 2 by (auto simp: step_def dset_distinct_split good_merge split: option.splits dest!: map_of_SomeD)
  ultimately show ?case by auto
qed

lemma fold_assoc:
  "keyed b \<Longrightarrow> \<forall>r \<in> set rs. good r \<Longrightarrow>
   foldl step a (map snd (foldl step b rs)) = foldl step (foldl step a (map snd b)) rs"
proof (induction rs arbitrary: b)
  case (Cons r rs)
  then show ?case using Cons.IH[of "step b r"] step_keyed_good[of b r] steps_step[of b a r] by simp
qed simp

end

lemma proc_row_key_merge: "proc_row_key (merge_proc_row_dicts a b) = proc_row_key b"
  by (simp add: proc_row_key_def merge_proc_row_dicts_def)

interpretation proc: keyed_merge proc_row_key merge_proc_row_dicts
  by unfold_locales (rule proc_row_key_merge)

lemma merge_proc_row_online_step: "merge_proc_row_online = proc.step"
  by (intro ext) (simp add: merge_proc_row_online_def proc.step_def Let_def)

lemma dedupe_step_fold: "dedupe_step d rows = foldl proc.step d rows"
proof (induction rows arbitrary: d)
  case (Cons r rows)
  have "(if proc_row_key r \<in> set (keys d)
         then dset (proc_row_key r) (merge_proc_row_dicts (the (dget d (proc_row_key r))) r) d
         else dset (proc_row_key r) r d) = proc.step d r"
    by (auto simp: proc.step_def dget_None_iff split: option.splits)
       (metis map_of_eq_None_iff image_set option.distinct(1))
  with Cons show ?case by (simp add: Let_def)
qed simp

subsection \<open>High-water marks\<close>

definition proc_row_ok :: "proc_row \<Rightarrow> bool" where
  "proc_row_ok r \<longleftrightarrow> distinct (keys (p_fields r))"

lemma nullable_int_max_None [simp]: "nullable_int_max l None = l"
  by (cases l) auto

lemma dget_merge_field:
  "dget (merge_proc_field e (k, v)) f =
     (if f = k then Some (if k \<in> set HOST_PROC_PEAK_KEYS then nullable_int_max (get_or None e k) v else v)
      else dget e f)"
  by (simp add: merge_proc_field_def)

lemma dget_merge_fields:
  "distinct (keys l) \<Longrightarrow> dget (foldl merge_proc_field e l) f =
     (case dget l f of None \<Rightarrow> dget e f
      | Some v \<Rightarrow> Some (if f \<in> set HOST_PROC_PEAK_KEYS then nullable_int_max (get_or None e f) v else v))"
proof (induction l arbitrary: e)
  case (Cons kv l)
  obtain k v where kv: "kv = (k, v)" by force
  have "f = k \<Longrightarrow> dget l f = None" using Cons.prems kv by (simp add: dget_None_iff)
  moreover have "f \<noteq> k \<Longrightarrow> get_or None (merge_proc_field e (k, v)) f = get_or None e f"
    by (simp add: get_or_def dget_merge_field)
  ultimately show ?case
    using Cons kv by (auto simp: dget_merge_field split: option.splits)
qed simp

lemma proc_row_ok_merge: "proc_row_ok a \<Longrightarrow> proc_row_ok (merge_proc_row_dicts a b)"
proof -
  have "distinct (keys e) \<Longrightarrow> distinct (keys (foldl merge_proc_field e l))" for e l
    by (induction l arbitrary: e) (auto simp: merge_proc_field_def)
  then show "proc_row_ok a \<Longrightarrow> proc_row_ok (merge_proc_row_dicts a b)"
    by (simp add: proc_row_ok_def merge_proc_row_dicts_def)
qed

definition field_val :: "string \<Rightarrow> proc_row \<Rightarrow> int option" where
  "field_val f r = get_or None (p_fields r) f"

lemma field_val_merge_peak:
  "proc_row_ok b \<Longrightarrow> f \<in> set HOST_PROC_PEAK_KEYS \<Longrightarrow>
   field_val f (merge_proc_row_dicts a b) = nullable_int_max (field_val f a) (field_val f b)"
  by (auto simp: field_val_def merge_proc_row_dicts_def get_or_def dget_merge_fields proc_row_ok_def
      split: option.splits)

lemma field_val_merge_other:
  "proc_row_ok b \<Longrightarrow> f \<notin> set HOST_PROC_PEAK_KEYS \<Longrightarrow> dget (p_fields (merge_proc_row_dicts a b)) f =
     (case dget (p_fields b) f of None \<Rightarrow> dget (p_fields a) f | Some v \<Rightarrow> Some v)"
  by (auto simp: merge_proc_row_dicts_def dget_merge_fields proc_row_ok_def split: option.splits)

definition opt_set :: "int option \<Rightarrow> int set" where
  "opt_set v = (case v of None \<Rightarrow> {} | Some n \<Rightarrow> {n})"

definition peak_of :: "int set \<Rightarrow> int option" where
  "peak_of A = (if A = {} then None else Some (Max A))"

lemma nullable_int_max_peak:
  "finite A \<Longrightarrow> finite B \<Longrightarrow> nullable_int_max (peak_of A) (peak_of B) = peak_of (A \<union> B)"
  by (auto simp: peak_of_def Max_Un)

lemma peak_of_opt [simp]: "peak_of (opt_set v) = v"
  by (cases v) (auto simp: peak_of_def opt_set_def)

definition seen_vals :: "string \<Rightarrow> proc_row list \<Rightarrow> int set" where
  "seen_vals f rs = {v. \<exists>r \<in> set rs. field_val f r = Some v}"

lemma seen_vals_simps: "seen_vals f [] = {}" "seen_vals f (r # rs) = opt_set (field_val f r) \<union> seen_vals f rs"
  by (auto simp: seen_vals_def opt_set_def split: option.splits)

lemma finite_seen_vals [simp]: "finite (seen_vals f rs)"
  by (induction rs) (auto simp: seen_vals_simps opt_set_def split: option.splits)

lemma merge_opt_peak:
  assumes "f \<in> set HOST_PROC_PEAK_KEYS" "\<forall>r \<in> set rs. proc_row_ok r"
    and "finite A" "Option.bind acc (field_val f) = peak_of A"
  shows "Option.bind (proc.merge_opt acc rs) (field_val f) = peak_of (A \<union> seen_vals f rs)"
  using assms(2-)
proof (induction rs arbitrary: acc A)
  case (Cons r rs)
  let ?acc = "Some (case acc of None \<Rightarrow> r | Some a \<Rightarrow> merge_proc_row_dicts a r)"
  have "Option.bind ?acc (field_val f) = nullable_int_max (peak_of A) (peak_of (opt_set (field_val f r)))"
    using Cons.prems assms(1) by (cases acc) (auto simp: field_val_merge_peak)
  also have "\<dots> = peak_of (A \<union> opt_set (field_val f r))"
    using Cons.prems(2) by (intro nullable_int_max_peak) (auto simp: opt_set_def split: option.splits)
  finally have "Option.bind (proc.merge_opt ?acc rs) (field_val f)
      = peak_of ((A \<union> opt_set (field_val f r)) \<union> seen_vals f rs)"
    using Cons by (intro Cons.IH) (auto simp: opt_set_def split: option.splits)
  then show ?case by (simp add: proc.merge_opt_def seen_vals_simps Un_assoc)
qed (simp add: proc.merge_opt_def seen_vals_simps)

subsection \<open>Merging is associative\<close>

lemma merge_field_commute:
  assumes "k \<in> set (keys e)" "k \<noteq> k'"
  shows "merge_proc_field (merge_proc_field e (k', u)) (k, v) = merge_proc_field (merge_proc_field e (k, v)) (k', u)"
  using assms dset_commute[of k e k'] by (auto simp: merge_proc_field_def get_or_def)

lemma merge_fields_commute:
  assumes "k \<in> set (keys e)" "k \<notin> set (keys l)"
  shows "merge_proc_field (foldl merge_proc_field e l) (k, v) = foldl merge_proc_field (merge_proc_field e (k, v)) l"
  using assms
proof (induction l arbitrary: e)
  case (Cons kv l)
  obtain k' u where kv: "kv = (k', u)" by (cases kv)
  have "k \<in> set (keys (merge_proc_field e kv))"
    using Cons.prems by (auto simp: merge_proc_field_def kv keys_dset_mem)
  then show ?case
    using Cons.IH[of "merge_proc_field e kv"] Cons.prems merge_field_commute[of k e k' u v] by (simp add: kv)
qed simp

lemma nullable_int_max_assoc: "nullable_int_max (nullable_int_max a b) c = nullable_int_max a (nullable_int_max b c)"
  by (cases a; cases b; cases c) auto

lemma merge_field_twice:
  "merge_proc_field (merge_proc_field e (k, w)) (k, v) =
   merge_proc_field e (k, if k \<in> set HOST_PROC_PEAK_KEYS then nullable_int_max w v else v)"
  by (simp add: merge_proc_field_def get_or_def nullable_int_max_assoc dset_overwrite)

lemma merge_fields_field:
  assumes "distinct (keys b)"
  shows "foldl merge_proc_field e (merge_proc_field b (k, v)) = merge_proc_field (foldl merge_proc_field e b) (k, v)"
proof (cases "k \<in> set (keys b)")
  case False
  then have "merge_proc_field b (k, v) = b @ [(k, v)]"
    by (simp add: merge_proc_field_def dset_new get_or_def dget_fresh)
  then show ?thesis by simp
next
  case True
  then obtain w xs ys where b: "b = xs @ (k, w) # ys" by (auto simp: in_set_conv_decomp)
  then have k: "k \<notin> set (keys xs)" "k \<notin> set (keys ys)" using assms by auto
  then have "dget b k = Some w" by (simp add: b map_add_def dget_fresh)
  moreover have "dset k u b = xs @ (k, u) # ys" for u
    using k unfolding b by (rule_tac dset_middle)
  ultimately have m: "merge_proc_field b (k, v) =
      xs @ (k, if k \<in> set HOST_PROC_PEAK_KEYS then nullable_int_max w v else v) # ys"
    by (simp add: merge_proc_field_def get_or_def)
  let ?e = "foldl merge_proc_field e xs"
  have "k \<in> set (keys (merge_proc_field ?e (k, w)))" by (auto simp: merge_proc_field_def keys_dset_mem)
  from merge_fields_commute[OF this k(2), of v] show ?thesis
    by (simp add: m[unfolded b] b merge_field_twice)
qed

lemma merge_fields_assoc:
  assumes "distinct (keys b)"
  shows "foldl merge_proc_field e (foldl merge_proc_field b c) = foldl merge_proc_field (foldl merge_proc_field e b) c"
  using assms
proof (induction c arbitrary: b)
  case (Cons kv c)
  have "distinct (keys (merge_proc_field b kv))"
    using Cons.prems by (auto simp: merge_proc_field_def split: prod.splits)
  then show ?case using Cons merge_fields_field[OF Cons.prems] by (cases kv) simp
qed simp

lemma merge_proc_row_assoc:
  "proc_row_ok b \<Longrightarrow> merge_proc_row_dicts a (merge_proc_row_dicts b c) = merge_proc_row_dicts (merge_proc_row_dicts a b) c"
  by (simp add: merge_proc_row_dicts_def merge_fields_assoc proc_row_ok_def)

interpretation proc: assoc_keyed_merge proc_row_key merge_proc_row_dicts proc_row_ok
  by unfold_locales (auto intro: merge_proc_row_assoc proc_row_ok_merge)

subsection \<open>Peaks\<close>

text \<open>C29. After any sequence of samples the row the parser keeps for a process carries, in each
  peak field, the maximum over all samples of that process (missing and null values ignored),
  so a later lower sample never lowers a high-water mark.\<close>

theorem proc_online_high_water:
  assumes "f \<in> set HOST_PROC_PEAK_KEYS" and "\<forall>r \<in> set rows. proc_row_ok r"
  shows "Option.bind (dget (foldl merge_proc_row_online [] rows) k) (field_val f) =
    peak_of {v. \<exists>r \<in> set rows. proc_row_key r = k \<and> field_val f r = Some v}"
proof -
  let ?rs = "filter (\<lambda>r. proc_row_key r = k) rows"
  have "Option.bind (proc.merge_opt None ?rs) (field_val f) = peak_of ({} \<union> seen_vals f ?rs)"
    using assms by (intro merge_opt_peak) (auto simp: peak_of_def)
  moreover have "seen_vals f ?rs = {v. \<exists>r \<in> set rows. proc_row_key r = k \<and> field_val f r = Some v}"
    by (auto simp: seen_vals_def)
  ultimately show ?thesis by (simp add: merge_proc_row_online_step proc.dget_fold)
qed

definition sample_proc_rows :: "proc_row list" where
  "sample_proc_rows =
     [\<lparr>p_time = Fin 1, p_host = ''h'', p_jid = ''7'', p_proc = ''a.out'', p_device = ''a.out/9'',
       p_fields = [(''vm_hwm'', Some 7000), (''threads'', Some 1)]\<rparr>,
      \<lparr>p_time = Fin 2, p_host = ''h'', p_jid = ''7'', p_proc = ''a.out'', p_device = ''a.out/9'',
       p_fields = [(''vm_hwm'', Some 0), (''threads'', Some 4)]\<rparr>]"

theorem proc_online_high_water_witness:
  "Option.bind (dget (foldl merge_proc_row_online [] sample_proc_rows) (''7'', ''h'', ''a.out''))
     (field_val ''vm_hwm'') =
   peak_of {v. \<exists>r \<in> set sample_proc_rows. proc_row_key r = (''7'', ''h'', ''a.out'') \<and> field_val ''vm_hwm'' r = Some v}"
  by (rule proc_online_high_water)
     (auto simp: HOST_PROC_PEAK_KEYS_def sample_proc_rows_def proc_row_ok_def)

text \<open>The batch de-duplication used for plain row lists returns exactly the rows the online
  merge holds, in the same order, so the parser may skip it for already merged rows.\<close>

theorem dedupe_eq_online:
  "dedupe_proc_stats_peak_merge rows = map snd (foldl merge_proc_row_online [] rows)"
  by (simp add: dedupe_proc_stats_peak_merge_def dedupe_step_fold merge_proc_row_online_step)

subsection \<open>Columns\<close>

lemma set_foldl_add_new: "set (foldl add_new seen ks) = set seen \<union> set ks"
  by (induction ks arbitrary: seen) (auto simp: add_new_def)

lemma distinct_foldl_add_new: "distinct seen \<Longrightarrow> distinct (foldl add_new seen ks)"
  by (induction ks arbitrary: seen) (auto simp: add_new_def)

lemma column_keys:
  fixes f :: "'r \<Rightarrow> string list"
  shows "set (foldl (\<lambda>seen row. foldl add_new seen (f row)) seen rows) = set seen \<union> (\<Union>r \<in> set rows. set (f r))"
    and "distinct seen \<Longrightarrow> distinct (foldl (\<lambda>seen row. foldl add_new seen (f row)) seen rows)"
  by (induction rows arbitrary: seen) (auto simp: set_foldl_add_new distinct_foldl_add_new)

text \<open>The columnar payload built from process rows loses nothing: every column has one cell
  per row, every field of every row is the cell at that row's index in the column of its name,
  and a cell of a field the row lacks is empty.\<close>

theorem proc_rows_to_columns_lossless:
  assumes "i < length rows" and "(k, col) \<in> set (proc_rows_to_columns rows)"
  shows "length col = length rows \<and> col ! i = get_or CNone (row_items (rows ! i)) k \<and>
    set (keys (row_items (rows ! i))) \<subseteq> set (keys (proc_rows_to_columns rows)) \<and>
    distinct (keys (proc_rows_to_columns rows))"
proof -
  have ks: "keys (proc_rows_to_columns rows) = foldl (\<lambda>seen row. foldl add_new seen (keys (row_items row))) [] rows"
    by (simp add: proc_rows_to_columns_def Let_def comp_def)
  have "rows ! i \<in> set rows" using assms(1) by simp
  then have "set (keys (row_items (rows ! i))) \<subseteq> set (keys (proc_rows_to_columns rows))"
    by (subst ks, subst column_keys(1)) blast
  moreover have "distinct (keys (proc_rows_to_columns rows))" by (subst ks) (rule column_keys(2), simp)
  moreover have "col = map (\<lambda>row. get_or CNone (row_items row) k) rows"
    using assms(2) by (auto simp: proc_rows_to_columns_def Let_def)
  ultimately show ?thesis using assms(1) by simp
qed

theorem proc_rows_to_columns_lossless_witness:
  "length [CInt 1, CInt 4] = length sample_proc_rows \<and>
   [CInt 1, CInt 4] ! 1 = get_or CNone (row_items (sample_proc_rows ! 1)) ''threads'' \<and>
   set (keys (row_items (sample_proc_rows ! 1))) \<subseteq> set (keys (proc_rows_to_columns sample_proc_rows)) \<and>
   distinct (keys (proc_rows_to_columns sample_proc_rows))"
  by (rule proc_rows_to_columns_lossless) (simp, code_simp, code_simp)

subsection \<open>Merging with stored rows\<close>

lemma apply_peak_attr:
  "o_attr (apply_proc_peak_attrs_from_earlier earlier later) k =
    (if k \<in> set HOST_PROC_PEAK_KEYS then nullable_int_max (o_attr earlier k) (o_attr later k) else o_attr later k)"
  by (simp add: apply_proc_peak_attrs_from_earlier_def HOST_PROC_PEAK_KEYS_def)

lemma set_chunks_of: "\<Union> (set ` set (chunks_of n xs)) = set xs"
proof (induction n xs rule: chunks_of.induct)
  case (1 n xs)
  show ?case
  proof (cases "xs = []")
    case False
    then have "\<Union> (set ` set (chunks_of n xs)) = set (take (max 1 n) xs) \<union> set (drop (max 1 n) xs)"
      using 1 by (simp add: chunks_of.simps[of n xs])
    then show ?thesis by (metis append_take_drop_id set_append)
  qed (simp add: chunks_of.simps)
qed

lemma foldl_dset_rows:
  "dget (foldl (\<lambda>ex row. dset (g row) row ex) ex rows) k =
    (case find (\<lambda>r. g r = k) (rev rows) of None \<Rightarrow> dget ex k | Some r \<Rightarrow> Some r)"
  by (induction rows arbitrary: ex rule: rev_induct) auto

definition group_rows ::
  "(string \<Rightarrow> string \<Rightarrow> string list \<Rightarrow> proc_obj list) \<Rightarrow> nat \<Rightarrow> (string \<times> string) \<times> proc_obj list \<Rightarrow> proc_obj list" where
  "group_rows query n g = (case g of ((jid, host), members) \<Rightarrow>
     concat (map (query jid host) (chunks_of n (foldl add_new [] (map o_proc members)))))"

lemma foldl_concat: "foldl (\<lambda>a x. foldl f a (h x)) a xs = foldl f a (concat (map h xs))"
  by (induction xs arbitrary: a) auto

lemma load_existing_rows:
  "load_existing query n objs = foldl (\<lambda>ex row. dset (proc_obj_key row) row ex) []
     (concat (map (group_rows query n) (group_by_jid_host objs)))"
  unfolding load_existing_def group_rows_def
  by (simp add: foldl_concat case_prod_unfold flip: foldl_concat)

lemma group_by_jid_host_get:
  "get_or [] (group_by_jid_host objs) (j, h) = filter (\<lambda>o'. o_jid o' = j \<and> o_host o' = h) objs"
  unfolding group_by_jid_host_def
  by (induction objs rule: rev_induct) (auto simp: get_or_def)

lemma group_by_jid_host_distinct: "distinct (keys (group_by_jid_host objs))"
  unfolding group_by_jid_host_def by (induction objs rule: rev_induct) auto

lemma group_member:
  assumes "((j, h), g) \<in> set (group_by_jid_host objs)"
  shows "g = filter (\<lambda>o'. o_jid o' = j \<and> o_host o' = h) objs"
  using group_by_jid_host_get[of objs j h] map_of_is_SomeI[OF group_by_jid_host_distinct assms]
  by (simp add: get_or_def)

lemma group_exists:
  assumes "o' \<in> set objs"
  shows "((o_jid o', o_host o'), filter (\<lambda>x. o_jid x = o_jid o' \<and> o_host x = o_host o') objs)
    \<in> set (group_by_jid_host objs)"
proof -
  have "filter (\<lambda>x. o_jid x = o_jid o' \<and> o_host x = o_host o') objs \<noteq> []"
    using assms by (auto simp: filter_empty_conv)
  then show ?thesis
    using group_by_jid_host_get[of objs "o_jid o'" "o_host o'"]
    by (auto simp: get_or_def dest: map_of_SomeD split: option.splits)
qed

lemma group_rows_exact:
  assumes "\<And>j h ps. set (query j h ps) = {r \<in> set table. o_jid r = j \<and> o_host r = h \<and> o_proc r \<in> set ps}"
  shows "set (concat (map (group_rows query n) (group_by_jid_host objs))) =
    {r \<in> set table. proc_obj_key r \<in> proc_obj_key ` set objs}"
proof -
  have rows: "set (group_rows query n ((j, h), g)) =
      {r \<in> set table. o_jid r = j \<and> o_host r = h \<and> o_proc r \<in> o_proc ` set g}" for j h g
    using set_chunks_of[of n "foldl add_new [] (map o_proc g)"]
    by (auto simp: group_rows_def assms set_foldl_add_new)
  show ?thesis
  proof (intro equalityI subsetI)
    fix r assume "r \<in> set (concat (map (group_rows query n) (group_by_jid_host objs)))"
    then obtain j h g where "((j, h), g) \<in> set (group_by_jid_host objs)" "r \<in> set (group_rows query n ((j, h), g))"
      by auto
    then obtain o' where "r \<in> set table" "o' \<in> set objs" "proc_obj_key r = proc_obj_key o'"
      by (auto simp: rows proc_obj_key_def dest!: group_member)
    then show "r \<in> {r \<in> set table. proc_obj_key r \<in> proc_obj_key ` set objs}" by auto
  next
    fix r assume "r \<in> {r \<in> set table. proc_obj_key r \<in> proc_obj_key ` set objs}"
    then obtain o' where "r \<in> set table" "o' \<in> set objs" "proc_obj_key r = proc_obj_key o'" by auto
    then have "r \<in> set (group_rows query n ((o_jid o', o_host o'),
        filter (\<lambda>x. o_jid x = o_jid o' \<and> o_host x = o_host o') objs))"
      by (auto simp: rows proc_obj_key_def)
    then show "r \<in> set (concat (map (group_rows query n) (group_by_jid_host objs)))"
      using group_exists[OF \<open>o' \<in> set objs\<close>] by force
  qed
qed

lemma find_unique:
  assumes "\<And>r r'. r \<in> set xs \<Longrightarrow> r' \<in> set xs \<Longrightarrow> g r = g r' \<Longrightarrow> r = r'" and "set xs = set ys"
  shows "find (\<lambda>r. g r = k) xs = find (\<lambda>r. g r = k) ys"
proof (cases "find (\<lambda>r. g r = k) ys")
  case None
  then have "find (\<lambda>r. g r = k) xs = None" using assms(2) by (simp add: find_None_iff)
  with None show ?thesis by simp
next
  case (Some r)
  then have r: "r \<in> set xs" "g r = k" using assms(2) by (auto simp: find_Some_iff)
  show ?thesis
  proof (cases "find (\<lambda>r. g r = k) xs")
    case None
    then have "g x \<noteq> k" if "x \<in> set xs" for x using that unfolding find_None_iff by blast
    then show ?thesis using r by blast
  next
    case (Some r')
    then have "r' \<in> set xs" "g r' = k" by (auto simp: find_Some_iff)
    then have "r' = r" using assms(1) r by simp
    then show ?thesis using Some \<open>find (\<lambda>r. g r = k) ys = Some r\<close> by simp
  qed
qed

text \<open>C30. Before process rows are written back, each of them is merged with the stored row of the
  same job, host and process, and with no other: whatever the chunk size of the lookups,
  provided a lookup answers with the stored rows of that job and host whose process is
  asked for and the table has one row per key. Peaks never fall below the stored peaks.\<close>

theorem peak_merge_uses_stored_row:
  assumes query: "\<And>j h ps. set (query j h ps) = {r \<in> set table. o_jid r = j \<and> o_host r = h \<and> o_proc r \<in> set ps}"
    and uniq: "distinct (map proc_obj_key table)"
  shows "peak_merge_proc_objs_with_existing query cfg n objs =
    map (\<lambda>obj. case find (\<lambda>r. proc_obj_key r = proc_obj_key obj) table of None \<Rightarrow> obj
         | Some prior \<Rightarrow> apply_proc_peak_attrs_from_earlier prior obj) objs"
proof -
  let ?m = "nat (max 1 (case n of Some n \<Rightarrow> n | None \<Rightarrow> (case cfg of Some n \<Rightarrow> n | None \<Rightarrow> 256)))"
  let ?L = "concat (map (group_rows query ?m) (group_by_jid_host objs))"
  let ?ex = "load_existing query ?m objs"
  let ?T = "filter (\<lambda>r. proc_obj_key r \<in> proc_obj_key ` set objs) table"
  have L: "set (rev ?L) = set ?T" using group_rows_exact[OF query] by auto
  have inj: "r = r'" if "r \<in> set table" "r' \<in> set table" "proc_obj_key r = proc_obj_key r'" for r r'
    using uniq that by (meson distinct_map inj_on_def)
  have ex: "dget ?ex (proc_obj_key obj) = find (\<lambda>r. proc_obj_key r = proc_obj_key obj) table"
    if "obj \<in> set objs" for obj
  proof -
    have "dget ?ex (proc_obj_key obj) = find (\<lambda>r. proc_obj_key r = proc_obj_key obj) (rev ?L)"
      by (simp add: load_existing_rows foldl_dset_rows split: option.splits)
    also have "\<dots> = find (\<lambda>r. proc_obj_key r = proc_obj_key obj) ?T"
      using L inj by (intro find_unique) auto
    also have "\<dots> = find (\<lambda>r. proc_obj_key r = proc_obj_key obj) table"
      using that by (intro find_filter) auto
    finally show ?thesis .
  qed
  have "?ex = [] \<Longrightarrow> map (\<lambda>obj. case dget ?ex (proc_obj_key obj) of None \<Rightarrow> obj
      | Some prior \<Rightarrow> apply_proc_peak_attrs_from_earlier prior obj) objs = objs"
    by (simp add: map_idI)
  then show ?thesis
    by (auto simp: peak_merge_proc_objs_with_existing_def Let_def ex cong: map_cong simp flip: ex
        intro!: map_cong)
qed

definition sample_proc_table :: "proc_obj list" where
  "sample_proc_table = [\<lparr>o_jid = ''7'', o_host = ''h'', o_proc = ''a.out'', o_attr = (\<lambda>_. None)(''vm_hwm'' := Some 9)\<rparr>]"

definition sample_query :: "string \<Rightarrow> string \<Rightarrow> string list \<Rightarrow> proc_obj list" where
  "sample_query j h ps = filter (\<lambda>r. o_jid r = j \<and> o_host r = h \<and> o_proc r \<in> set ps) sample_proc_table"

theorem peak_merge_uses_stored_row_witness:
  "peak_merge_proc_objs_with_existing sample_query None None
     [\<lparr>o_jid = ''7'', o_host = ''h'', o_proc = ''a.out'', o_attr = (\<lambda>_. None)(''vm_hwm'' := Some 4)\<rparr>] =
   [\<lparr>o_jid = ''7'', o_host = ''h'', o_proc = ''a.out'', o_attr = (\<lambda>_. None)(''vm_hwm'' := Some 9)\<rparr>]"
  by (subst peak_merge_uses_stored_row[of _ sample_proc_table])
     (auto simp: sample_query_def sample_proc_table_def proc_obj_key_def
       apply_proc_peak_attrs_from_earlier_def HOST_PROC_PEAK_KEYS_def)

end
