(* ===== verification/Monitor_Marks.thy ===== *)
theory Monitor_Marks
  imports Stats_Schema
begin

text \<open>
  Monitor marks (\<^verbatim>\<open>dbload/lib/monitor_mark_side_ingest.py\<close>): the \<^verbatim>\<open>%jobs\<close> and
  \<^verbatim>\<open>%affinity\<close> lines of a shared node, the walk that attaches each mark to the sample header
  that follows it, and the upsert of \<^verbatim>\<open>job_affinity\<close> rows. The walk keeps two Python lists
  that share the mark objects; the model keeps one store (\<open>marks\<close>, the position is the
  identity of the object) and a list of references into it (\<open>pending\<close>). The database calls
  are the Django ORM's: parameters of the model. \<open>attach\<close> is the specification the walk refines.
\<close>

subsection \<open>Mark lines\<close>

datatype mark_body = JobsMark (m_jids: "string list")
  | AffinityMark (m_jid: string) (m_cpus: string) (m_gpus: string) (m_cg: string)

record mark =
  m_body :: mark_body
  m_time :: "f64 option"
  m_host :: "string option"

definition null_jid :: "string \<Rightarrow> bool" where
  \<comment> \<open>\<^verbatim>\<open>not jid or jid in ("-", "0")\<close>\<close>
  "null_jid jid = (jid = [] \<or> jid = ''-'' \<or> jid = ''0'')"

definition parse_jobs_jids :: "string \<Rightarrow> string list" where
  "parse_jobs_jids line =
     (let text = strip line in
      if \<not> startswith text ''%jobs'' then []
      else (case split_ws_max 1 text of
          _ # rest # _ \<Rightarrow>
            (if \<not> startswith rest ''jids='' then []
             else filter (\<lambda>jid. \<not> null_jid jid \<and> length jid \<le> 32 \<and> CHR '' '' \<notin> set jid)
                    (map strip (split_on (CHR '','') (drop 5 rest))))
        | _ \<Rightarrow> []))"

definition affinity_fields :: "string list \<Rightarrow> (string \<times> string) list" where
  "affinity_fields tokens =
     foldl (\<lambda>fields token. case split_once (CHR ''='') token of (k, Some v) \<Rightarrow> dset k v fields | _ \<Rightarrow> fields)
       [] tokens"

definition parse_affinity_mark :: "string \<Rightarrow> mark_body option" where
  "parse_affinity_mark line =
     (let text = strip line in
      if \<not> startswith text ''%affinity'' then None
      else
        (let fields = affinity_fields (tl (split_ws text)); jid = strip (get_or [] fields ''jid'')
         in if null_jid jid \<or> length jid > 32 then None
            else Some (AffinityMark jid (get_or [] fields ''cpus'') (get_or ''-'' fields ''gpus'')
                   (get_or ''sched'' fields ''cg''))))"

definition cpu_list_from_token :: "string \<Rightarrow> string list" where
  "cpu_list_from_token cpus =
     (if cpus = [] \<or> cpus = ''-'' then [] else filter (\<lambda>part. part \<noteq> []) (split_on (CHR '','') cpus))"

definition gpu_list_from_token :: "string \<Rightarrow> string list" where
  "gpu_list_from_token gpus =
     (if gpus = [] \<or> gpus = ''-'' then []
      else filter (\<lambda>part. part \<noteq> [] \<and> part \<noteq> ''-'') (split_on (CHR '','') gpus))"

datatype payload = Text string | Lines "string list"

fun line_seq :: "payload \<Rightarrow> string list" where
  \<comment> \<open>\<^verbatim>\<open>lines.splitlines() if isinstance(lines, str) else lines\<close>\<close>
  "line_seq (Text s) = splitlines s"
| "line_seq (Lines ls) = ls"

definition detect_shared_node_contract :: "payload \<Rightarrow> bool" where
  "detect_shared_node_contract lines = list_ex (\<lambda>line. parse_jobs_jids line \<noteq> []) (line_seq lines)"

definition shared_dev_for_row :: "string \<Rightarrow> string \<Rightarrow> string option \<Rightarrow> bool \<Rightarrow> string" where
  "shared_dev_for_row typ dev jid shared =
     (if \<not> shared \<or> typ \<in> set GPU_STATS_TYPES then dev
      else (case jid of None \<Rightarrow> dev | Some j \<Rightarrow> if null_jid j then dev else job_stamp j))"

definition job_dev_tokens :: "string list \<Rightarrow> string list" where
  "job_dev_tokens jids = map job_stamp jids"

subsection \<open>Attaching marks to headers\<close>

definition mark_header :: "string \<Rightarrow> (f64 \<times> string) option" where
  \<comment> \<open>The time and host of a stripped header line; \<open>None\<close> where the loop continues.\<close>
  "mark_header line =
     (if py_isdigit (hd line) then
        (case split_ws line of a # _ # host # _ \<Rightarrow> map_option (\<lambda>when. (when, host)) (py_float a) | _ \<Rightarrow> None)
      else None)"

definition bind_mark :: "f64 \<Rightarrow> string \<Rightarrow> mark list \<Rightarrow> nat \<Rightarrow> mark list" where
  "bind_mark when host marks i =
     (if m_time (marks ! i) = None then marks[i := (marks ! i)\<lparr>m_time := Some when, m_host := Some host\<rparr>]
      else marks)"

definition new_mark :: "mark_body \<Rightarrow> mark" where
  "new_mark b = \<lparr>m_body = b, m_time = None, m_host = None\<rparr>"

definition mark_step :: "mark list \<times> nat list \<Rightarrow> string \<Rightarrow> mark list \<times> nat list" where
  "mark_step st raw =
     (let (marks, pending) = st; line = strip raw;
          push = (\<lambda>b. (marks @ [new_mark b], pending @ [length marks]))
      in if line = [] then st
         else if startswith line ''%jobs'' then
           (let jids = parse_jobs_jids line in if jids = [] then st else push (JobsMark jids))
         else if startswith line ''%affinity'' then
           (case parse_affinity_mark line of None \<Rightarrow> st | Some b \<Rightarrow> push b)
         else (case mark_header line of None \<Rightarrow> st
           | Some (when, host) \<Rightarrow> (foldl (bind_mark when host) marks pending, [])))"

definition collect_marks :: "payload \<Rightarrow> mark list" where
  "collect_marks lines = fst (foldl mark_step ([], []) (line_seq lines))"

subsection \<open>Side table\<close>

definition MIN_EPOCH :: int where "MIN_EPOCH = - 62135596800"
definition MAX_EPOCH :: int where "MAX_EPOCH = 253402300799"

definition as_utc :: "f64 \<Rightarrow> int res" where
  \<comment> \<open>\<^verbatim>\<open>datetime.fromtimestamp(t, tz=UTC)\<close> as microseconds since the epoch: the fraction is
     rounded half to even, a year outside 1 to 9999 is a \<^verbatim>\<open>ValueError\<close>.\<close>
  "as_utc t = bindE (trunc_f64 t) (\<lambda>secs.
     case fmul (fsub t (Fin (of_int secs))) (Fin 1000000) of
       Fin us \<Rightarrow> (let n = secs * 1000000 + round_half_even us in
                  if MIN_EPOCH \<le> n div 1000000 \<and> n div 1000000 \<le> MAX_EPOCH then Inr n else Inl ValueError)
     | _ \<Rightarrow> Inl ValueError)"

record affinity_row =
  a_cpu_list :: "string list"
  a_gpu_list :: "string list"
  a_cg :: string
  a_reported_at :: int

type_synonym affinity_dict = "((string \<times> string) \<times> affinity_row) list"

definition str_or :: "string \<Rightarrow> string \<Rightarrow> string" where
  \<comment> \<open>\<^verbatim>\<open>s or d\<close>\<close>
  "str_or s d = (if s = [] then d else s)"

fun affinity_row_of :: "mark_body \<Rightarrow> int \<Rightarrow> affinity_row" where
  "affinity_row_of (AffinityMark jid cpus gpus cg) when =
     \<lparr>a_cpu_list = cpu_list_from_token cpus, a_gpu_list = gpu_list_from_token (str_or gpus ''-''),
      a_cg = str_or cg ''sched'', a_reported_at = when\<rparr>"
| "affinity_row_of (JobsMark _) when = \<lparr>a_cpu_list = [], a_gpu_list = [], a_cg = [], a_reported_at = when\<rparr>"

definition affinity_step :: "affinity_dict \<Rightarrow> mark \<Rightarrow> affinity_dict res" where
  "affinity_step affinity rec =
     (case m_body rec of JobsMark _ \<Rightarrow> Inr affinity
      | AffinityMark jid cpus gpus cg \<Rightarrow>
          (case m_time rec of None \<Rightarrow> Inr affinity
           | Some t \<Rightarrow> bindE (as_utc t) (\<lambda>when.
               case m_host rec of None \<Rightarrow> Inr affinity
               | Some host \<Rightarrow>
                   if host = [] then Inr affinity
                   else Inr (dset (take 32 jid, take 64 host) (affinity_row_of (m_body rec) when) affinity))))"

fun write_affinity :: "('db \<Rightarrow> string \<times> string \<Rightarrow> affinity_row \<Rightarrow> 'db option) \<Rightarrow> 'db \<Rightarrow> affinity_dict \<Rightarrow> 'db" where
  \<comment> \<open>One \<^verbatim>\<open>update_or_create\<close> per entry; the first that raises ends the loop, earlier rows stay.\<close>
  "write_affinity upsert db [] = db"
| "write_affinity upsert db ((k, row) # rest) =
     (case upsert db k row of None \<Rightarrow> db | Some db' \<Rightarrow> write_affinity upsert db' rest)"

definition persist_monitor_marks ::
  "('db \<Rightarrow> string \<times> string \<Rightarrow> affinity_row \<Rightarrow> 'db option) \<Rightarrow> bool \<Rightarrow> 'db \<Rightarrow> mark list \<Rightarrow> 'db" where
  \<comment> \<open>\<open>ready\<close> is false when the Django applications are missing or not ready.\<close>
  "persist_monitor_marks upsert ready db marks =
     (if marks = [] \<or> \<not> ready then db
      else (case foldE affinity_step [] marks of Inl _ \<Rightarrow> db | Inr affinity \<Rightarrow> write_affinity upsert db affinity))"

definition persist_marks_from_lines ::
  "('db \<Rightarrow> string \<times> string \<Rightarrow> affinity_row \<Rightarrow> 'db option) \<Rightarrow> bool \<Rightarrow> 'db \<Rightarrow> payload \<Rightarrow> 'db" where
  "persist_marks_from_lines upsert ready db lines = persist_monitor_marks upsert ready db (collect_marks lines)"

subsection \<open>Latest sample time of a job\<close>

definition latest_step :: "(string \<Rightarrow> string option) \<Rightarrow> (string \<times> int) list \<Rightarrow> string \<times> int option \<Rightarrow> (string \<times> int) list" where
  "latest_step mapping found row =
     (case (mapping (fst row), snd row) of
        (Some jid, Some when) \<Rightarrow>
          (if jid = [] then found
           else (case dget found jid of None \<Rightarrow> dset jid when found
                 | Some prev \<Rightarrow> if when > prev then dset jid when found else found))
      | _ \<Rightarrow> found)"

definition max_host_time_by_jid ::
  "(string list \<Rightarrow> (string \<times> int option) list) \<Rightarrow> (string list \<Rightarrow> (string \<times> int option) list)
    \<Rightarrow> string list \<Rightarrow> (string \<times> int) list" where
  \<comment> \<open>The two aggregate queries over \<^verbatim>\<open>host_data\<close> (by \<^verbatim>\<open>jid\<close>, by \<^verbatim>\<open>dev\<close>) are the arguments.\<close>
  "max_host_time_by_jid by_jid by_dev jid_list =
     (if jid_list = [] then []
      else
        (let dev_to_jid = foldl (\<lambda>d (k, v). dset k v d) [] (zip (job_dev_tokens jid_list) jid_list)
         in foldl (latest_step (dget dev_to_jid))
              (foldl (latest_step Some) [] (by_jid jid_list))
              (by_dev (keys dev_to_jid))))"

subsection \<open>The walk attaches every mark to the next header\<close>

definition mark_of :: "string \<Rightarrow> mark_body option" where
  "mark_of raw =
     (let line = strip raw in
      if startswith line ''%jobs'' then
        (let jids = parse_jobs_jids line in if jids = [] then None else Some (JobsMark jids))
      else parse_affinity_mark line)"

fun next_header :: "string list \<Rightarrow> (f64 \<times> string) option" where
  "next_header [] = None"
| "next_header (raw # rest) =
     (case (if strip raw = [] then None else mark_header (strip raw)) of None \<Rightarrow> next_header rest | Some h \<Rightarrow> Some h)"

definition set_header :: "(f64 \<times> string) option \<Rightarrow> mark \<Rightarrow> mark" where
  "set_header h m = (case h of None \<Rightarrow> m | Some (when, host) \<Rightarrow> m\<lparr>m_time := Some when, m_host := Some host\<rparr>)"

fun attach :: "string list \<Rightarrow> mark list" where
  "attach [] = []"
| "attach (raw # rest) =
     (case mark_of raw of None \<Rightarrow> attach rest | Some b \<Rightarrow> set_header (next_header rest) (new_mark b) # attach rest)"

lemma percent_not_header: "startswith l (CHR ''%'' # p) \<Longrightarrow> mark_header l = None"
  by (cases l) (auto simp: startswith_def mark_header_def py_isdigit_def)

lemma mark_of_empty: "strip raw = [] \<Longrightarrow> mark_of raw = None"
  by (simp add: mark_of_def parse_affinity_mark_def startswith_def)

lemma mark_step_cases:
  "mark_step (marks, pending) raw =
     (case mark_of raw of Some b \<Rightarrow> (marks @ [new_mark b], pending @ [length marks])
      | None \<Rightarrow> (case next_header [raw] of None \<Rightarrow> (marks, pending)
          | Some (when, host) \<Rightarrow> (foldl (bind_mark when host) marks pending, [])))"
proof (cases "strip raw = []")
  case False
  then show ?thesis
    using percent_not_header[of "strip raw"]
    by (auto simp: mark_step_def mark_of_def Let_def parse_affinity_mark_def split: option.splits)
qed (simp add: mark_step_def mark_of_empty)

lemma mark_of_no_header: "mark_of raw = Some b \<Longrightarrow> next_header [raw] = None"
  using percent_not_header[of "strip raw"]
  by (auto simp: mark_of_def Let_def parse_affinity_mark_def split: if_splits)

lemma next_header_Cons: "next_header (raw # rest) = (case next_header [raw] of None \<Rightarrow> next_header rest | Some h \<Rightarrow> Some h)"
  by (auto split: option.splits)

definition unbound :: "mark list \<Rightarrow> nat list \<Rightarrow> bool" where
  "unbound marks pending \<longleftrightarrow> distinct pending \<and> (\<forall>i \<in> set pending. i < length marks \<and> m_time (marks ! i) = None)"

definition resolve :: "(f64 \<times> string) option \<Rightarrow> mark list \<Rightarrow> nat list \<Rightarrow> mark list" where
  "resolve h marks pending =
     map (\<lambda>i. if i \<in> set pending then set_header h (marks ! i) else marks ! i) [0..<length marks]"

lemma foldl_bind_mark:
  "unbound marks pending \<Longrightarrow> foldl (bind_mark when host) marks pending = resolve (Some (when, host)) marks pending"
proof (induction pending arbitrary: marks)
  case Nil
  then show ?case by (simp add: resolve_def map_nth)
next
  case (Cons i pending)
  let ?marks = "bind_mark when host marks i"
  have i: "i < length marks" "m_time (marks ! i) = None" "i \<notin> set pending"
    using Cons.prems by (auto simp: unbound_def)
  then have m: "?marks = marks[i := set_header (Some (when, host)) (marks ! i)]"
    by (simp add: bind_mark_def set_header_def)
  have "unbound ?marks pending" using Cons.prems i by (auto simp: m unbound_def nth_list_update)
  then have "foldl (bind_mark when host) marks (i # pending) = resolve (Some (when, host)) ?marks pending"
    using Cons.IH by simp
  also have "\<dots> = resolve (Some (when, host)) marks (i # pending)"
    using i by (auto simp: m resolve_def nth_list_update)
  finally show ?case .
qed

lemma resolve_push:
  "unbound marks pending \<Longrightarrow>
   resolve h (marks @ [m]) (pending @ [length marks]) = resolve h marks pending @ [set_header h m]"
  by (auto simp: resolve_def unbound_def nth_append)

lemma resolve_nil [simp]: "resolve h marks [] = marks"
  by (simp add: resolve_def map_nth)

lemma resolve_none [simp]: "resolve None marks pending = marks"
  by (rule nth_equalityI) (simp_all add: resolve_def set_header_def)

lemma foldl_mark_step:
  "unbound marks pending \<Longrightarrow>
   fst (foldl mark_step (marks, pending) ls) = resolve (next_header ls) marks pending @ attach ls"
proof (induction ls arbitrary: marks pending)
  case (Cons raw ls)
  show ?case
  proof (cases "mark_of raw")
    case (Some b)
    have "unbound (marks @ [new_mark b]) (pending @ [length marks])"
      using Cons.prems by (auto simp: unbound_def nth_append new_mark_def)
    from Cons.IH[OF this] show ?thesis
      using Some mark_of_no_header[OF Some] resolve_push[OF Cons.prems]
      by (simp add: mark_step_cases next_header_Cons[of raw ls] del: next_header.simps(2))
  next
    case None
    have "unbound m []" for m by (simp add: unbound_def)
    then show ?thesis
      using None Cons.IH[OF Cons.prems] Cons.IH[of _ "[]"] foldl_bind_mark[OF Cons.prems]
      by (auto simp: mark_step_cases next_header_Cons[of raw ls] simp del: next_header.simps(2) split: option.splits)
  qed
qed simp

text \<open>C31. Walking the lines of a payload yields its usable marks in order, each carrying the time
  and host of the first readable sample header after it and nothing when no header follows.\<close>

theorem collect_marks_attach: "collect_marks lines = attach (line_seq lines)"
  using foldl_mark_step[of "[]" "[]" "line_seq lines"] by (simp add: collect_marks_def unbound_def)

subsection \<open>The side table keeps the last report\<close>

definition affinity_entry :: "mark \<Rightarrow> ((string \<times> string) \<times> affinity_row) option" where
  \<comment> \<open>The row a bound affinity mark reports, under the truncated key.\<close>
  "affinity_entry m =
     (case (m_body m, m_time m, m_host m) of
        (AffinityMark jid cpus gpus cg, Some t, Some host) \<Rightarrow>
          (if host = [] then None
           else (case as_utc t of Inl _ \<Rightarrow> None
                 | Inr when \<Rightarrow> Some ((take 32 jid, take 64 host), affinity_row_of (m_body m) when)))
      | _ \<Rightarrow> None)"

definition time_ok :: "mark \<Rightarrow> bool" where
  "time_ok m \<longleftrightarrow> (case m_time m of None \<Rightarrow> True | Some t \<Rightarrow> isl (as_utc t) = False)"

lemma affinity_step_entry:
  "time_ok m \<Longrightarrow> affinity_step aff m = Inr (case affinity_entry m of None \<Rightarrow> aff | Some (k, row) \<Rightarrow> dset k row aff)"
  by (cases "as_utc (the (m_time m))")
     (auto simp: affinity_step_def affinity_entry_def time_ok_def split: mark_body.splits option.splits)

lemma affinity_fold:
  "\<forall>m \<in> set marks. time_ok m \<Longrightarrow>
   \<exists>aff'. foldE affinity_step aff marks = Inr aff' \<and> (distinct (keys aff) \<longrightarrow> distinct (keys aff')) \<and>
     (\<forall>k. dget aff' k = (case find (\<lambda>e. fst e = k) (rev (List.map_filter affinity_entry marks)) of
             None \<Rightarrow> dget aff k | Some e \<Rightarrow> Some (snd e)))"
proof (induction marks arbitrary: aff)
  case (Cons m marks)
  let ?aff = "case affinity_entry m of None \<Rightarrow> aff | Some (k, row) \<Rightarrow> dset k row aff"
  from Cons obtain aff' where aff': "foldE affinity_step ?aff marks = Inr aff'"
      "distinct (keys ?aff) \<longrightarrow> distinct (keys aff')"
      "\<And>k. dget aff' k = (case find (\<lambda>e. fst e = k) (rev (List.map_filter affinity_entry marks)) of
             None \<Rightarrow> dget ?aff k | Some e \<Rightarrow> Some (snd e))"
    by (metis list.set_intros(2))
  have "foldE affinity_step aff (m # marks) = Inr aff'"
    using aff'(1) Cons.prems by (simp add: affinity_step_entry)
  moreover have "dget aff' k = (case find (\<lambda>e. fst e = k) (rev (List.map_filter affinity_entry (m # marks))) of
             None \<Rightarrow> dget aff k | Some e \<Rightarrow> Some (snd e))" for k
    using aff'(3)[of k] by (auto simp: map_filter_simps find_append split: option.splits prod.splits)
  moreover have "distinct (keys aff) \<longrightarrow> distinct (keys aff')"
    using aff'(2) by (auto split: option.splits)
  ultimately show ?case by blast
qed (simp add: map_filter_simps)

lemma write_affinity_lookup:
  assumes "\<And>db k row. upsert db k row \<noteq> None"
    and "\<And>db db' k row k'. upsert db k row = Some db' \<Longrightarrow> lookup db' k' = (if k' = k then Some row else lookup db k')"
  shows "distinct (keys aff) \<Longrightarrow> lookup (write_affinity upsert db aff) k =
    (case dget aff k of None \<Rightarrow> lookup db k | Some row \<Rightarrow> Some row)"
proof (induction aff arbitrary: db)
  case (Cons kr aff)
  obtain k0 row0 where kr: "kr = (k0, row0)" by (cases kr)
  obtain db' where db': "upsert db k0 row0 = Some db'" using assms(1) by blast
  have "dget aff k0 = None" using Cons.prems kr by (simp add: dget_None_iff)
  then show ?case
    using Cons db' kr assms(2)[OF db'] by (auto split: option.splits)
qed simp

text \<open>C32. Persisting marks stores, for every job and host, the last affinity report among the
  bound marks (keys cut to the column widths) and leaves every other row of the table alone,
  provided \<^verbatim>\<open>update_or_create\<close> succeeds and replaces exactly the row of its key, and no
  sample time is outside the range of a datetime.\<close>

theorem persist_marks_last_report:
  assumes total: "\<And>db k row. upsert db k row \<noteq> None"
    and upsert: "\<And>db db' k row k'. upsert db k row = Some db' \<Longrightarrow>
        lookup db' k' = (if k' = k then Some row else lookup db k')"
    and ok: "\<forall>m \<in> set marks. time_ok m"
  shows "lookup (persist_monitor_marks upsert True db marks) k =
    (case find (\<lambda>e. fst e = k) (rev (List.map_filter affinity_entry marks)) of
       None \<Rightarrow> lookup db k | Some e \<Rightarrow> Some (snd e))"
proof (cases "marks = []")
  case False
  obtain aff where aff: "foldE affinity_step [] marks = Inr aff" "distinct (keys aff)"
      "\<And>k. dget aff k = (case find (\<lambda>e. fst e = k) (rev (List.map_filter affinity_entry marks)) of
             None \<Rightarrow> None | Some e \<Rightarrow> Some (snd e))"
    using affinity_fold[OF ok, of "[]"] by (metis distinct.simps(1) list.map(1) map_of.simps(1))
  show ?thesis
    using False aff(1) write_affinity_lookup[of upsert lookup aff db k, OF total upsert aff(2)] aff(3)[of k]
    by (auto simp: persist_monitor_marks_def split: option.splits)
qed (simp add: persist_monitor_marks_def map_filter_simps)

definition sample_mark_lines :: "string list" where
  "sample_mark_lines = [''%affinity jid=9 cpus=0-3,8 gpus=- cg=sched'', ''1710000001.5 9 hosta'',
     ''%affinity jid=9 cpus=4-7 gpus=0,1 cg=v2'', ''1710000002 9 hosta'']"

definition sample_upsert :: "affinity_dict \<Rightarrow> string \<times> string \<Rightarrow> affinity_row \<Rightarrow> affinity_dict option" where
  "sample_upsert db k row = Some (dset k row db)"

definition sample_marks :: "mark list" where
  "sample_marks = [\<lparr>m_body = AffinityMark ''9'' ''0-3,8'' ''-'' ''sched'', m_time = Some (Fin (3420000003 / 2)), m_host = Some ''hosta''\<rparr>,
     \<lparr>m_body = AffinityMark ''9'' ''4-7'' ''0,1'' ''v2'', m_time = Some (Fin 1710000002), m_host = Some ''hosta''\<rparr>]"

lemma sample_marks_collected: "collect_marks (Lines sample_mark_lines) = sample_marks"
  by code_simp

theorem persist_marks_last_report_witness:
  "dget (persist_monitor_marks sample_upsert True [] (collect_marks (Lines sample_mark_lines))) (''9'', ''hosta'') =
   Some \<lparr>a_cpu_list = [''4-7''], a_gpu_list = [''0'', ''1''], a_cg = ''v2'', a_reported_at = 1710000002000000\<rparr>"
proof -
  have "\<forall>m \<in> set sample_marks. time_ok m" by code_simp
  then have "dget (persist_monitor_marks sample_upsert True [] sample_marks) (''9'', ''hosta'') =
      (case find (\<lambda>e. fst e = (''9'', ''hosta'')) (rev (List.map_filter affinity_entry sample_marks)) of
         None \<Rightarrow> dget [] (''9'', ''hosta'') | Some e \<Rightarrow> Some (snd e))"
    by (intro persist_marks_last_report[where upsert = sample_upsert and lookup = dget and db = "[]" and
          marks = sample_marks and k = "(''9'', ''hosta'')"])
       (simp_all add: sample_upsert_def, metis dget_dset fun_upd_apply)
  also have "\<dots> = Some \<lparr>a_cpu_list = [''4-7''], a_gpu_list = [''0'', ''1''], a_cg = ''v2'', a_reported_at = 1710000002000000\<rparr>"
    by code_simp
  finally show ?thesis by (simp only: sample_marks_collected)
qed

subsection \<open>Latest sample times\<close>

definition opt_max :: "int option \<Rightarrow> int option \<Rightarrow> int option" where
  "opt_max a b = (case (a, b) of (Some x, Some y) \<Rightarrow> Some (max x y) | (None, _) \<Rightarrow> b | _ \<Rightarrow> a)"

lemma opt_max_simps [simp]: "opt_max None b = b" "opt_max a None = a" "opt_max (Some x) (Some y) = Some (max x y)"
  by (auto simp: opt_max_def split: option.splits)

lemma opt_max_assoc: "opt_max (opt_max a b) c = opt_max a (opt_max b c)"
  by (cases a; cases b; cases c) auto

fun opt_maximum :: "int option list \<Rightarrow> int option" where
  "opt_maximum [] = None"
| "opt_maximum (v # vs) = opt_max v (opt_maximum vs)"

lemma dget_latest_step:
  "j \<noteq> [] \<Longrightarrow> dget (latest_step mapping found row) j =
    (if mapping (fst row) = Some j then opt_max (dget found j) (snd row) else dget found j)"
  by (auto simp: latest_step_def opt_max_def split: option.splits)

lemma dget_latest_fold:
  "j \<noteq> [] \<Longrightarrow> dget (foldl (latest_step mapping) found rows) j =
    opt_max (dget found j) (opt_maximum (map snd (filter (\<lambda>row. mapping (fst row) = Some j) rows)))"
  by (induction rows arbitrary: found) (auto simp: dget_latest_step opt_max_assoc)

lemma filter_key: "distinct (keys d) \<Longrightarrow> filter (\<lambda>row. fst row = k) d = (case dget d k of None \<Rightarrow> [] | Some v \<Rightarrow> [(k, v)])"
proof (induction d)
  case (Cons p d)
  have "fst p = k \<Longrightarrow> dget d k = None" using Cons.prems by (simp add: dget_None_iff)
  with Cons show ?case by (cases p) auto
qed simp

lemma job_stamp_inj: "length a \<le> 62 \<Longrightarrow> length b \<le> 62 \<Longrightarrow> job_stamp a = job_stamp b \<Longrightarrow> a = b"
  by (simp add: job_stamp_def)

lemma dev_to_jid_get:
  "dget (foldl (\<lambda>d (k, v). dset k v d) d0 (zip (job_dev_tokens jids) jids)) k =
    (case find (\<lambda>j. job_stamp j = k) (rev jids) of None \<Rightarrow> dget d0 k | Some j \<Rightarrow> Some j)"
  by (induction jids arbitrary: d0) (auto simp: job_dev_tokens_def find_append split: option.splits)

lemma dev_to_jid_inverse:
  assumes "j \<in> set jids" "\<forall>j \<in> set jids. length j \<le> 62"
  shows "dget (foldl (\<lambda>d (k, v). dset k v d) [] (zip (job_dev_tokens jids) jids)) k = Some j \<longleftrightarrow> k = job_stamp j"
proof -
  have "find (\<lambda>j'. job_stamp j' = job_stamp j) (rev jids) = Some j"
  proof (cases "find (\<lambda>j'. job_stamp j' = job_stamp j) (rev jids)")
    case None
    then show ?thesis using assms(1) by (auto simp: find_None_iff)
  next
    case (Some j')
    then have "j' \<in> set jids" "job_stamp j' = job_stamp j" using find_SomeD by fastforce+
    then show ?thesis using Some assms job_stamp_inj by metis
  qed
  then show ?thesis using find_SomeD by (fastforce simp: dev_to_jid_get split: option.splits)
qed

definition max_time :: "(string \<times> string \<times> int) list \<Rightarrow> (string \<times> string \<times> int \<Rightarrow> bool) \<Rightarrow> int option" where
  "max_time table p = opt_maximum (map (\<lambda>r. Some (snd (snd r))) (filter p table))"

lemma max_time_disj: "opt_max (max_time table p) (max_time table q) = max_time table (\<lambda>r. p r \<or> q r)"
proof (induction table)
  case (Cons r table)
  then show ?case
    by (auto simp: max_time_def opt_max_assoc[symmetric]) 
       (auto simp: opt_max_def split: option.splits)
qed (simp add: max_time_def)

text \<open>The latest sample time of a job is the maximum over the host rows that carry its id and
  the shared-node rows stamped with its device token, and a job with neither kind of row is
  absent, provided the two aggregate queries answer with the maximal time per requested jid
  and per requested device. Job ids have the column width, so stamps are not cut.\<close>

theorem max_host_time_exact:
  assumes jid: "\<And>js. distinct (keys (by_jid js)) \<and> (\<forall>j. dget (by_jid js) j =
        (if j \<in> set js \<and> (\<exists>r \<in> set table. fst r = j) then Some (max_time table (\<lambda>r. fst r = j)) else None))"
    and dev: "\<And>ds. distinct (keys (by_dev ds)) \<and> (\<forall>d. dget (by_dev ds) d =
        (if d \<in> set ds \<and> (\<exists>r \<in> set table. fst (snd r) = d) then Some (max_time table (\<lambda>r. fst (snd r) = d)) else None))"
    and j: "j \<in> set jids" "j \<noteq> []" and len: "\<forall>j \<in> set jids. length j \<le> 62"
  shows "dget (max_host_time_by_jid by_jid by_dev jids) j = max_time table (\<lambda>r. fst r = j \<or> fst (snd r) = job_stamp j)"
proof -
  let ?d = "foldl (\<lambda>d (k, v). dset k v d) [] (zip (job_dev_tokens jids) jids)"
  have absent: "\<not> (\<exists>r \<in> set table. p r) \<Longrightarrow> max_time table p = None" for p
    by (simp add: max_time_def filter_empty_conv)
  have "job_stamp j \<in> set (keys ?d)"
    using dev_to_jid_inverse[OF j(1) len, of "job_stamp j"] by (metis dget_None_iff option.distinct(1))
  then have D: "opt_maximum (map snd (filter (\<lambda>row. dget ?d (fst row) = Some j) (by_dev (keys ?d)))) =
      max_time table (\<lambda>r. fst (snd r) = job_stamp j)"
    using dev[of "keys ?d"] absent[of "\<lambda>r. fst (snd r) = job_stamp j"]
    by (simp add: dev_to_jid_inverse[OF j(1) len] filter_key)
  have J: "opt_maximum (map snd (filter (\<lambda>row. Some (fst row) = Some j) (by_jid jids))) =
      max_time table (\<lambda>r. fst r = j)"
    using jid[of jids] j(1) absent[of "\<lambda>r. fst r = j"] by (simp add: filter_key)
  show ?thesis
    using j(1) D J max_time_disj[of table "\<lambda>r. fst r = j" "\<lambda>r. fst (snd r) = job_stamp j"]
    by (auto simp: max_host_time_by_jid_def Let_def dget_latest_fold[OF j(2)])
qed

definition sample_host_rows :: "(string \<times> string \<times> int) list" where
  "sample_host_rows = [(''42'', ''0'', 10), ([], ''j:42'', 12), ([], ''j:7'', 99)]"

definition sample_agg :: "(string \<times> string \<times> int \<Rightarrow> string) \<Rightarrow> string list \<Rightarrow> (string \<times> int option) list" where
  "sample_agg col ks = map (\<lambda>k. (k, max_time sample_host_rows (\<lambda>r. col r = k)))
     (filter (\<lambda>k. \<exists>r \<in> set sample_host_rows. col r = k) (remdups ks))"

theorem max_host_time_exact_witness:
  "dget (max_host_time_by_jid (sample_agg fst) (sample_agg (fst \<circ> snd)) [''42'']) ''42'' = Some 12"
proof -
  have agg: "distinct (keys (sample_agg col ks)) \<and> (\<forall>k. dget (sample_agg col ks) k =
      (if k \<in> set ks \<and> (\<exists>r \<in> set sample_host_rows. col r = k) then Some (max_time sample_host_rows (\<lambda>r. col r = k)) else None))"
    for col ks
    by (auto simp: sample_agg_def comp_def map_of_map_restrict restrict_map_def)
  have "dget (max_host_time_by_jid (sample_agg fst) (sample_agg (fst \<circ> snd)) [''42'']) ''42'' =
      max_time sample_host_rows (\<lambda>r. fst r = ''42'' \<or> fst (snd r) = job_stamp ''42'')"
    using agg[of fst] agg[of "fst \<circ> snd"] by (intro max_host_time_exact) auto
  also have "\<dots> = Some 12" by code_simp
  finally show ?thesis .
qed

end
