(* ===== verification/Legacy_Decode.thy ===== *)
theory Legacy_Decode
  imports Stats_Schema
begin

text \<open>
  Decoding of historical hardware-counter lines (\<^verbatim>\<open>dbload/lib/sync_timedb_parsing_legacy.py\<close>,
  \<^verbatim>\<open>schema_needs_legacy_hardware_decode\<close> of \<^verbatim>\<open>dbload/lib/monitor_naming/resolve.py\<close>): control
  registers (\<^verbatim>\<open>CTL\<close>) of a line name, through a hex event map, the events of the counters
  (\<^verbatim>\<open>CTR\<close>) of the same line. The code collects names and the positions of the controls, deletes
  those positions from the values and zips; \<open>pair_events\<close> is the specification that pairs each
  counter with its own value.
\<close>

datatype event_key = EHex int | EName string

type_synonym eventmap = "(event_key \<times> string) list"

definition amd64_pmc_eventmap :: eventmap where
  "amd64_pmc_eventmap =
     [(EHex 0x43FF03, ''FLOPS,W=48''), (EHex 0x4300C2, ''BRANCH_INST_RETIRED,W=48''),
      (EHex 0x4300C3, ''BRANCH_INST_RETIRED_MISS,W=48''), (EHex 0x4308AF, ''DISPATCH_STALL_CYCLES1,W=48''),
      (EHex 0x43FFAE, ''DISPATCH_STALL_CYCLES0,W=48'')]"

definition amd64_df_eventmap :: eventmap where
  "amd64_df_eventmap =
     [(EHex 0x403807, ''MBW_CHANNEL_0,W=48,U=64B''), (EHex 0x403847, ''MBW_CHANNEL_1,W=48,U=64B''),
      (EHex 0x403887, ''MBW_CHANNEL_2,W=48,U=64B''), (EHex 0x4038C7, ''MBW_CHANNEL_3,W=48,U=64B''),
      (EHex 0x433907, ''MBW_CHANNEL_4,W=48,U=64B''), (EHex 0x433947, ''MBW_CHANNEL_5,W=48,U=64B''),
      (EHex 0x433987, ''MBW_CHANNEL_6,W=48,U=64B''), (EHex 0x4339C7, ''MBW_CHANNEL_7,W=48,U=64B'')]"

definition intel_8pmc3_eventmap :: eventmap where
  "intel_8pmc3_eventmap =
     [(EHex 0x4301C7, ''FP_ARITH_INST_RETIRED_SCALAR_DOUBLE,W=48,U=1''),
      (EHex 0x4302C7, ''FP_ARITH_INST_RETIRED_SCALAR_SINGLE,W=48,U=1''),
      (EHex 0x4304C7, ''FP_ARITH_INST_RETIRED_128B_PACKED_DOUBLE,W=48,U=2''),
      (EHex 0x4308C7, ''FP_ARITH_INST_RETIRED_128B_PACKED_SINGLE,W=48,U=4''),
      (EHex 0x4310C7, ''FP_ARITH_INST_RETIRED_256B_PACKED_DOUBLE,W=48,U=4''),
      (EHex 0x4320C7, ''FP_ARITH_INST_RETIRED_256B_PACKED_SINGLE,W=48,U=8''),
      (EHex 0x4340C7, ''FP_ARITH_INST_RETIRED_512B_PACKED_DOUBLE,W=48,U=8''),
      (EHex 0x4380C7, ''FP_ARITH_INST_RETIRED_512B_PACKED_SINGLE,W=48,U=16''),
      (EHex 0x438010, ''SSE_DOUBLE_SCALAR,W=48,U=1''), (EHex 0x431010, ''SSE_DOUBLE_PACKED,W=48,U=2''),
      (EHex 0x430211, ''SIMD_DOUBLE_256,W=48,U=4''), (EHex 0x439010, ''SSE_DOUBLE_ALL,W=48,U=1''),
      (EName ''FIXED_CTR0'', ''INST_RETIRED,W=48''), (EName ''FIXED_CTR1'', ''APERF,W=48''),
      (EName ''FIXED_CTR2'', ''MPERF,W=48'')]"

definition intel_skx_imc_eventmap :: eventmap where
  "intel_skx_imc_eventmap = [(EHex 0x400304, ''CAS_READS,W=48''), (EHex 0x400C04, ''CAS_WRITES,W=48''),
     (EHex 0x400B01, ''ACT_COUNT,W=48''), (EHex 0x400102, ''PRE_COUNT_MISS,W=48'')]"

definition intel_snb_imc_eventmap :: eventmap where
  "intel_snb_imc_eventmap = [(EHex 0x400304, ''CAS_READS,W=48''), (EHex 0x400B04, ''CAS_WRITES,W=48'')]"

definition intel_hsw_imc_eventmap :: eventmap where
  "intel_hsw_imc_eventmap = [(EHex 0x400304, ''CAS_READS,W=48''), (EHex 0x400B04, ''CAS_WRITES,W=48'')]"

definition intel_knl_mc_dclk_eventmap :: eventmap where
  "intel_knl_mc_dclk_eventmap = [(EHex 0x300301, ''CAS_READS,W=48''), (EHex 0x300309, ''CAS_WRITES,W=48'')]"

definition EVENTMAPS_BY_TYPE :: "(string \<times> eventmap) list" where
  "EVENTMAPS_BY_TYPE =
     [(''amd64_pmc'', amd64_pmc_eventmap), (''amd64_df'', amd64_df_eventmap),
      (''intel_8pmc3'', intel_8pmc3_eventmap), (''intel_4pmc3'', intel_8pmc3_eventmap),
      (''intel_snb_imc'', intel_snb_imc_eventmap), (''intel_ivb_imc'', intel_snb_imc_eventmap),
      (''intel_hsw_imc'', intel_hsw_imc_eventmap), (''intel_bdw_imc'', intel_hsw_imc_eventmap),
      (''intel_knl_mc_dclk'', intel_knl_mc_dclk_eventmap), (''intel_knl_mc'', intel_knl_mc_dclk_eventmap),
      (''intel_skx_imc'', intel_skx_imc_eventmap)]"

definition LEGACY_HARDWARE_DECODE_TYPES :: "string list" where
  "LEGACY_HARDWARE_DECODE_TYPES = [''amd64_pmc'', ''amd64_df'', ''intel_8pmc3'', ''intel_4pmc3'', ''intel_snb_imc'',
     ''intel_ivb_imc'', ''intel_hsw_imc'', ''intel_bdw_imc'', ''intel_knl_mc_dclk'', ''intel_knl_mc'', ''intel_skx_imc'']"

definition REMOVED_LEGACY_SYMBOLS :: "string list" where
  \<comment> \<open>The \<^verbatim>\<open>removed_legacy\<close> list of the rename map.\<close>
  "REMOVED_LEGACY_SYMBOLS = [''host_ib_ext'', ''host_ib_sw'', ''host_mic'', ''intel_knl'', ''intel_knl_edc'',
     ''intel_knl_mc'', ''intel_x86_pmc_knl'', ''intel_x86_uncore_edc_knl'', ''intel_x86_uncore_mc_knl'',
     ''amd_x86_pmc'', ''amd_x86_uncore_df'', ''CTL0'', ''CTL1'', ''CTL2'', ''CTL3'', ''CTL4'', ''CTL5'', ''CTL6'',
     ''CTL7'', ''CTR0'', ''CTR1'', ''CTR2'', ''CTR3'', ''CTR4'', ''CTR5'', ''CTR6'', ''CTR7'', ''FIXED_CTR'',
     ''FIXED_CTR0'', ''FIXED_CTR1'', ''FIXED_CTR2'']"

definition schema_needs_legacy_hardware_decode :: "string \<Rightarrow> string list \<Rightarrow> bool" where
  "schema_needs_legacy_hardware_decode typ schema_events =
     (list_ex (\<lambda>token. let base = hd (split_on (CHR '','') token) in
          base \<in> set REMOVED_LEGACY_SYMBOLS \<or> contains ''CTL'' base \<or> contains ''CTR'' base \<or> contains ''FIXED_CTR'' base)
        schema_events
      \<or> typ \<in> set LEGACY_HARDWARE_DECODE_TYPES)"

subsection \<open>Decoding a line\<close>

record decode_state =
  ds_n :: "(string \<times> string) list"
  ds_rm_idx :: "nat list"
  ds_schema_mod :: "string list"

definition control_event :: "eventmap \<Rightarrow> string list \<Rightarrow> nat \<Rightarrow> string" where
  \<comment> \<open>\<^verbatim>\<open>eventmap[int(vals[idx])]\<close>, any exception giving \<^verbatim>\<open>OTHER\<close>.\<close>
  "control_event eventmap vals idx =
     (if idx < length vals then
        (case py_int (vals ! idx) of None \<Rightarrow> ''OTHER''
         | Some code \<Rightarrow> (case dget eventmap (EHex code) of None \<Rightarrow> ''OTHER'' | Some e \<Rightarrow> e))
      else ''OTHER'')"

definition decode_event :: "eventmap \<Rightarrow> string list \<Rightarrow> decode_state \<Rightarrow> nat \<times> string \<Rightarrow> decode_state res" where
  "decode_event eventmap vals st ie =
     (let (idx, tok) = ie; eve = hd (split_on (CHR '','') tok);
          emit = (\<lambda>name. st\<lparr>ds_schema_mod := ds_schema_mod st @ [name]\<rparr>)
      in if contains ''CTL'' eve then
           Inr (st\<lparr>ds_n := dset (lstrip_chars ''CTL'' eve) (control_event eventmap vals idx) (ds_n st),
                  ds_rm_idx := ds_rm_idx st @ [idx]\<rparr>)
         else if contains ''FIXED_CTR'' eve then
           bindE (raise_none KeyError (dget eventmap (EName eve))) (\<lambda>e. Inr (emit e))
         else if contains ''CTR'' eve then
           bindE (raise_none KeyError (dget (ds_n st) (lstrip_chars ''CTR'' eve))) (\<lambda>e. Inr (emit e))
         else Inr (emit eve))"

definition del_at :: "'a list \<Rightarrow> nat \<Rightarrow> 'a list res" where
  \<comment> \<open>\<^verbatim>\<open>del vals[idx]\<close>\<close>
  "del_at vals idx = (if idx < length vals then Inr (take idx vals @ drop (Suc idx) vals) else Inl IndexError)"

definition dict_zip :: "string list \<Rightarrow> 'v list \<Rightarrow> (string \<times> 'v) list" where
  "dict_zip ks vs = foldl (\<lambda>d (k, v). dset k v d) [] (zip ks vs)"

definition map_hardware_counter_vals :: "string list \<Rightarrow> string list \<Rightarrow> eventmap \<Rightarrow> (string \<times> string) list res" where
  "map_hardware_counter_vals schema_events vals eventmap =
     bindE (foldE (decode_event eventmap vals) \<lparr>ds_n = [], ds_rm_idx = [], ds_schema_mod = []\<rparr>
              (zip [0..<length schema_events] schema_events)) (\<lambda>st.
     bindE (foldE del_at vals (rev (sort (ds_rm_idx st)))) (\<lambda>vals'.
     Inr (dict_zip (ds_schema_mod st) vals')))"

definition legacy_output_type :: "string \<Rightarrow> string" where
  "legacy_output_type typ = (if typ = ''intel_knl_mc'' then ''intel_knl_mc_dclk'' else typ)"

definition decode_counter_line ::
  "string \<Rightarrow> (string \<times> string list) list \<Rightarrow> string list \<Rightarrow> (string \<times> string) list option res" where
  "decode_counter_line typ schema vals =
     (case (dget EVENTMAPS_BY_TYPE typ, dget schema typ) of
        (Some eventmap, Some toks) \<Rightarrow> bindE (map_hardware_counter_vals toks vals eventmap) (\<lambda>d. Inr (Some d))
      | _ \<Rightarrow> Inr None)"

definition vals_dict_from_line ::
  "string \<Rightarrow> (string \<times> string list) list \<Rightarrow> string list \<Rightarrow> string list \<Rightarrow> bool \<Rightarrow> (string \<times> string) list option res" where
  "vals_dict_from_line typ schema schema_keys vals use_legacy_decode =
     (if use_legacy_decode then decode_counter_line typ schema vals else Inr (zip_schema_vals schema_keys vals))"

definition append_vals_dict_columns ::
  "stats_cols \<Rightarrow> f64 \<Rightarrow> string \<Rightarrow> string \<Rightarrow> string \<Rightarrow> string \<Rightarrow> (string \<times> string) list \<Rightarrow> stats_cols res" where
  "append_vals_dict_columns cols time host jid typ dev vals_dict =
     (if vals_dict = [] then Inr cols
      else bindE (compile_schema_tokens (keys vals_dict)) (\<lambda>compiled.
        append_compiled_stats_columns cols time host jid typ dev compiled (map snd vals_dict)))"

subsection \<open>Every counter keeps its own value\<close>

fun pair_events ::
  "eventmap \<Rightarrow> (string \<times> string) list \<Rightarrow> string list \<Rightarrow> string list \<Rightarrow> (string \<times> string) list res" where
  "pair_events em n (tok # toks) (v # vs) =
     (let eve = hd (split_on (CHR '','') tok) in
      if contains ''CTL'' eve then pair_events em (dset (lstrip_chars ''CTL'' eve) (control_event em [v] 0) n) toks vs
      else bindE (if contains ''FIXED_CTR'' eve then raise_none KeyError (dget em (EName eve))
                  else if contains ''CTR'' eve then raise_none KeyError (dget n (lstrip_chars ''CTR'' eve))
                  else Inr eve)
             (\<lambda>name. bindE (pair_events em n toks vs) (\<lambda>rest. Inr ((name, v) # rest))))"
| "pair_events em n _ _ = Inr []"

definition is_control :: "string \<Rightarrow> bool" where
  "is_control tok = contains ''CTL'' (hd (split_on (CHR '','') tok))"

fun controls :: "nat \<Rightarrow> string list \<Rightarrow> nat list" where
  "controls k [] = []"
| "controls k (tok # toks) = (if is_control tok then [k] else []) @ controls (Suc k) toks"

lemma controls_Suc: "controls (Suc k) toks = map Suc (controls k toks)"
  by (induction toks arbitrary: k) auto

lemma controls_bound: "i \<in> set (controls k toks) \<Longrightarrow> k \<le> i \<and> i < k + length toks"
  by (induction toks arbitrary: k) (fastforce split: if_splits)+

lemma controls_sorted: "sorted_wrt (<) (controls k toks)"
proof (induction toks arbitrary: k)
  case (Cons tok toks)
  then show ?case using controls_bound[of _ "Suc k" toks] by fastforce
qed simp

lemma del_at_desc:
  "sorted_wrt (>) is \<Longrightarrow> \<forall>i \<in> set is. i < length vs \<Longrightarrow> foldE del_at vs is = Inr (nths vs (- set is))"
proof (induction "is" arbitrary: vs)
  case (Cons i "is")
  let ?vs = "take i vs @ drop (Suc i) vs"
  have i: "i < length vs" "\<forall>j \<in> set is. j < i" using Cons.prems by auto
  have "foldE del_at vs (i # is) = foldE del_at ?vs is" using i by (simp add: del_at_def)
  also have "\<dots> = Inr (nths ?vs (- set is))"
    using Cons.prems i by (intro Cons.IH) auto
  also have "nths ?vs (- set is) = nths (take i vs) (- set is) @ drop (Suc i) vs"
  proof -
    have "nths (drop (Suc i) vs) {j. j + i \<notin> set is} = drop (Suc i) vs" using i(2) by (intro nths_all) auto
    then show ?thesis using i(1) by (simp add: nths_append min_def)
  qed
  also have "\<dots> = nths (take i vs @ vs ! i # drop (Suc i) vs) (- set (i # is))"
  proof -
    have "nths (take i vs) (- set is) = nths (take i vs) (- set (i # is))"
      unfolding nths_def using i(1) by (intro arg_cong[where f = "map fst"] filter_cong) (auto simp: set_zip)
    moreover have "nths (drop (Suc i) vs) {j. Suc (j + i) \<notin> insert i (set is)} = drop (Suc i) vs"
      using i(2) by (intro nths_all) auto
    ultimately show ?thesis using i(1) by (simp add: nths_append nths_Cons min_def)
  qed
  finally show ?case using i(1) by (simp add: id_take_nth_drop[symmetric])
qed (simp add: nths_all)

lemma control_event_nth: "k = length pre \<Longrightarrow> control_event em (pre @ v # vs) k = control_event em [v] 0"
  by (simp add: control_event_def)

lemma decode_fold:
  assumes "length pre = k" "length toks = length vs"
  shows "bindE (foldE (decode_event em (pre @ vs)) st (zip [k..<k + length toks] toks))
      (\<lambda>st'. Inr (ds_rm_idx st', ds_schema_mod st')) =
    bindE (pair_events em (ds_n st) toks vs)
      (\<lambda>ps. Inr (ds_rm_idx st @ controls k toks, ds_schema_mod st @ map fst ps))"
  using assms
proof (induction toks arbitrary: pre k vs st)
  case (Cons tok toks)
  then obtain v vs' where vs: "vs = v # vs'" by (cases vs) auto
  have up: "[k..<k + length (tok # toks)] = k # [Suc k..<Suc k + length toks]"
    by (simp add: upt_conv_Cons del: upt_Suc)
  have IH: "bindE (foldE (decode_event em (pre @ v # vs')) st' (zip [Suc k..<Suc k + length toks] toks))
      (\<lambda>st'. Inr (ds_rm_idx st', ds_schema_mod st')) =
    bindE (pair_events em (ds_n st') toks vs')
      (\<lambda>ps. Inr (ds_rm_idx st' @ controls (Suc k) toks, ds_schema_mod st' @ map fst ps))" for st'
    using Cons.IH[of "pre @ [v]" "Suc k" vs' st'] Cons.prems vs by simp
  show ?case
    unfolding up vs zip_Cons_Cons foldE.simps bindE_assoc
    using IH Cons.prems(1)
    by (cases "dget em (EName (hd (split_on (CHR '','') tok)))";
        cases "dget (ds_n st) (lstrip_chars ''CTR'' (hd (split_on (CHR '','') tok)))")
       (auto simp: decode_event_def is_control_def Let_def bindE_assoc control_event_nth)
qed simp

lemma pair_events_vals:
  "pair_events em n toks vs = Inr ps \<Longrightarrow> length toks = length vs \<Longrightarrow> map snd ps = nths vs (- set (controls 0 toks))"
proof (induction em n toks vs arbitrary: ps rule: pair_events.induct)
  case (1 em n tok toks v vs)
  have shift: "{j. Suc j \<in> - set (controls 0 (tok # toks))} = - set (controls 0 toks)"
    by (auto simp: controls_Suc)
  show ?case
  proof (cases "is_control tok")
    case True
    then show ?thesis using 1 shift by (auto simp: is_control_def Let_def nths_Cons)
  next
    case False
    then show ?thesis
      using 1(2)[OF refl] 1(3-) shift
      by (auto simp: is_control_def Let_def nths_Cons bindE_Inr_iff controls_Suc split: if_splits)
  qed
qed auto

text \<open>C28. Decoding a legacy counter line pairs every counter and plain event with its own value:
  deleting the control registers by position gives the same dictionary as reading the line
  once and naming each counter from the control seen before it, errors included.\<close>

theorem legacy_decode_pairs:
  assumes "length schema_events = length vals"
  shows "map_hardware_counter_vals schema_events vals em =
    bindE (pair_events em [] schema_events vals) (\<lambda>ps. Inr (dict_zip (map fst ps) (map snd ps)))"
proof -
  let ?st0 = "\<lparr>ds_n = [], ds_rm_idx = [], ds_schema_mod = []\<rparr>"
  let ?fold = "foldE (decode_event em vals) ?st0 (zip [0..<length schema_events] schema_events)"
  let ?rm = "controls 0 schema_events"
  have sorted: "sort ?rm = ?rm" "sorted_wrt (>) (rev ?rm)"
    using controls_sorted[of 0 schema_events] by (simp_all add: sorted_sort_id strict_sorted_imp_sorted sorted_wrt_rev)
  have del: "foldE del_at vals (rev (sort ?rm)) = Inr (nths vals (- set ?rm))"
    using del_at_desc[OF sorted(2), of vals] controls_bound[of _ 0 schema_events] assms by (auto simp: sorted(1))
  have fold: "bindE ?fold (\<lambda>st'. Inr (ds_rm_idx st', ds_schema_mod st')) =
      bindE (pair_events em [] schema_events vals) (\<lambda>ps. Inr (?rm, map fst ps))"
    using decode_fold[of "[]" 0 schema_events vals em ?st0] assms by simp
  have "map_hardware_counter_vals schema_events vals em =
      bindE (bindE ?fold (\<lambda>st'. Inr (ds_rm_idx st', ds_schema_mod st')))
        (\<lambda>(rm, names). bindE (foldE del_at vals (rev (sort rm))) (\<lambda>vals'. Inr (dict_zip names vals')))"
    by (simp add: map_hardware_counter_vals_def bindE_assoc)
  also have "\<dots> = bindE (pair_events em [] schema_events vals) (\<lambda>ps. Inr (dict_zip (map fst ps) (map snd ps)))"
    unfolding fold
    using pair_events_vals[of em "[]" schema_events vals] assms
    by (cases "pair_events em [] schema_events vals") (auto simp: del)
  finally show ?thesis .
qed

theorem legacy_decode_pairs_witness:
  "map_hardware_counter_vals [''CTL0'', ''CTL1'', ''CTR0'', ''CTR1''] [''4456195'', ''7'', ''10'', ''11'']
     amd64_pmc_eventmap = Inr [(''FLOPS,W=48'', ''10''), (''OTHER'', ''11'')]"
  by (subst legacy_decode_pairs) (simp, code_simp)

end
