(* ===== verification/Timestamp_Scan.thy ===== *)
theory Timestamp_Scan
  imports Float64
begin

text \<open>
  Scans over a stats file in \<^verbatim>\<open>dbload/lib/sync_timedb_parsing.py\<close>: the identity of a sample
  header, batched line reading, the first and the last header (in memory, and reading the
  file backwards in chunks with a carry), the resume index of the duplicate scan and the
  tail window test. A file is its text, \<open>None\<close> when it cannot be opened; read locks, page-cache
  advice and progress telemetry are not part of the model. The line scans decode a line as ASCII
  and replace other bytes, the backward reader of the last header decodes it as UTF-8: that
  decoder is the parameter \<open>decode\<close> of the model, and the two readers are compared on ASCII
  files, which is what the monitor writes. The other scans model ASCII text.
  The reference for both backward readers is the plain split of the text at newlines
  (\<open>tail_lines_split\<close>).
\<close>

abbreviation newline :: char where "newline \<equiv> CHR 0x0A"

type_synonym header = "string \<times> string \<times> string"

subsection \<open>Paths and headers\<close>

definition parse_stats_file_path :: "string \<Rightarrow> (string \<times> string) option" where
  "parse_stats_file_path stats_file =
     (let parts = split_on (CHR ''/'') stats_file in
      if length parts \<ge> 2 then Some (last (butlast parts), last parts) else None)"

definition stats_file_size_bytes :: "string option \<Rightarrow> nat" where
  "stats_file_size_bytes file = (case file of None \<Rightarrow> 0 | Some text \<Rightarrow> length text)"

definition digit_line_identity :: "string \<Rightarrow> header option" where
  "digit_line_identity s = (case split_ws s of t # jid # host # _ \<Rightarrow> Some (t, jid, host) | _ \<Rightarrow> None)"

definition digit_line_unix_second :: "string \<Rightarrow> int option res" where
  \<comment> \<open>Only \<^verbatim>\<open>TypeError\<close> and \<^verbatim>\<open>ValueError\<close> are caught: an infinite time raises.\<close>
  "digit_line_unix_second s =
     (case digit_line_identity s of None \<Rightarrow> Inr None
      | Some (t, jid, host) \<Rightarrow>
          (case py_float t of None \<Rightarrow> Inr None
           | Some v \<Rightarrow> (case trunc_f64 v of Inr n \<Rightarrow> Inr (Some n)
                       | Inl OverflowError \<Rightarrow> Inl OverflowError
                       | Inl _ \<Rightarrow> Inr None)))"

definition starts_with_digit :: "string \<Rightarrow> bool" where
  "starts_with_digit s = (case s of [] \<Rightarrow> False | c # _ \<Rightarrow> py_isdigit c)"

definition header_of :: "string \<Rightarrow> header option" where
  \<comment> \<open>The loop body shared by the first and last timestamp scans.\<close>
  "header_of line = (let s = lstrip line in if starts_with_digit s then digit_line_identity s else None)"

fun first_some :: "('a \<Rightarrow> 'b option) \<Rightarrow> 'a list \<Rightarrow> 'b option" where
  "first_some f [] = None"
| "first_some f (x # xs) = (case f x of None \<Rightarrow> first_some f xs | Some y \<Rightarrow> Some y)"

definition parse_first_timestamp_line :: "string list \<Rightarrow> header option" where
  "parse_first_timestamp_line lines = first_some header_of lines"

definition parse_last_timestamp_line :: "string list \<Rightarrow> header option" where
  "parse_last_timestamp_line lines = first_some header_of (rev lines)"

subsection \<open>Reading lines\<close>

fun read_line :: "string \<Rightarrow> string \<times> string" where
  \<comment> \<open>\<^verbatim>\<open>fd.readline()\<close>: up to and including the next newline, and the rest of the file.\<close>
  "read_line [] = ([], [])"
| "read_line (c # s) = (if c = newline then ([c], s) else (let (l, r) = read_line s in (c # l, r)))"

fun read_stats_line_batch :: "nat \<Rightarrow> string \<Rightarrow> string list \<times> string" where
  "read_stats_line_batch 0 s = ([], s)"
| "read_stats_line_batch (Suc n) s =
     (let (raw, r) = read_line s in
      if raw = [] then ([], s)
      else (let (batch, r') = read_stats_line_batch n r in (raw # batch, r')))"

lemma read_line_append: "read_line s = (l, r) \<Longrightarrow> s = l @ r"
  by (induction s arbitrary: l r) (auto split: if_splits prod.splits)

lemma read_line_nonempty: "s \<noteq> [] \<Longrightarrow> fst (read_line s) \<noteq> []"
  by (cases s) (auto split: prod.splits)

lemma read_batch_append: "read_stats_line_batch n s = (b, r) \<Longrightarrow> s = concat b @ r \<and> [] \<notin> set b"
proof (induction n arbitrary: s b r)
  case (Suc n)
  then show ?case by (auto split: prod.splits if_splits dest!: read_line_append)
qed auto

function iter_file_lines :: "nat \<Rightarrow> string \<Rightarrow> string list" where
  "iter_file_lines n s =
     (let (batch, r) = read_stats_line_batch n s in if batch = [] then [] else batch @ iter_file_lines n r)"
  by pat_completeness auto
termination
proof (relation "measure (length \<circ> snd)", goal_cases)
  case (2 n s z batch r)
  then have "s = concat batch @ r" "[] \<notin> set batch" using read_batch_append[of n s batch r] by simp_all
  with 2 show ?case by (cases batch) auto
qed simp

declare iter_file_lines.simps [simp del]

definition STREAM_PARSE_LINE_BATCH :: nat where "STREAM_PARSE_LINE_BATCH = 50000"

definition iter_stats_file_lines :: "string option \<Rightarrow> string list" where
  "iter_stats_file_lines file =
     (case file of None \<Rightarrow> [] | Some text \<Rightarrow> iter_file_lines STREAM_PARSE_LINE_BATCH text)"

fun universal_newlines :: "bool \<Rightarrow> string \<Rightarrow> string" where
  \<comment> \<open>Text mode: a carriage return, alone or before a line feed, reads as a newline.\<close>
  "universal_newlines cr [] = []"
| "universal_newlines cr (c # s) =
     (if c = CHR 0x0D then newline # universal_newlines True s
      else if cr \<and> c = newline then universal_newlines False s
      else c # universal_newlines False s)"

definition load_stats_file_lines :: "string option \<Rightarrow> string list option \<Rightarrow> string list option" where
  \<comment> \<open>\<open>None\<close> is the \<^verbatim>\<open>Stats file disappeared\<close> answer.\<close>
  "load_stats_file_lines file stats_file_contents =
     (case stats_file_contents of Some ls \<Rightarrow> Some ls
      | None \<Rightarrow> map_option (\<lambda>text. iter_file_lines STREAM_PARSE_LINE_BATCH (universal_newlines False text)) file)"

definition parse_first_timestamp_line_streaming :: "string option \<Rightarrow> header option" where
  "parse_first_timestamp_line_streaming file = first_some header_of (iter_stats_file_lines file)"

subsection \<open>Reading the file backwards\<close>

function tail_pieces :: "nat \<Rightarrow> string \<Rightarrow> nat \<Rightarrow> (nat \<times> string) list" where
  "tail_pieces chunk_size text offset =
     (if offset = 0 \<or> chunk_size = 0 then []
      else (let read_size = min chunk_size offset; off = offset - read_size
            in (off, take read_size (drop off text)) # tail_pieces chunk_size text off))"
  by pat_completeness auto
termination by (relation "measure (\<lambda>(c, t, o'). o')") auto

declare tail_pieces.simps [simp del]

definition cut_block :: "nat \<Rightarrow> string \<Rightarrow> string \<times> string list" where
  \<comment> \<open>The carry for the next block and the complete lines of this one.\<close>
  "cut_block offset block =
     (let parts = split_on newline block in if offset > 0 then (hd parts, tl parts) else ([], parts))"

definition raw_header :: "(string \<Rightarrow> string) \<Rightarrow> string \<Rightarrow> header option" where
  \<comment> \<open>One raw line of the backward scan: empty bytes are skipped, others are decoded by
      \<^verbatim>\<open>raw.decode("utf-8", errors="replace")\<close>, here \<open>decode\<close>, before the header test.\<close>
  "raw_header decode raw = (if raw = [] then None else header_of (decode raw))"

fun scan_last :: "(string \<Rightarrow> string) \<Rightarrow> string \<Rightarrow> (nat \<times> string) list \<Rightarrow> header option" where
  "scan_last decode carry [] = None"
| "scan_last decode carry ((offset, raw_block) # pieces) =
     (let (carry', parts) = cut_block offset (raw_block @ carry) in
      case first_some (raw_header decode) (rev parts) of Some h \<Rightarrow> Some h
      | None \<Rightarrow> scan_last decode carry' pieces)"

definition parse_last_timestamp_line_streaming :: "(string \<Rightarrow> string) \<Rightarrow> string option \<Rightarrow> nat \<Rightarrow> header option" where
  "parse_last_timestamp_line_streaming decode file tail_read_bytes =
     (case file of None \<Rightarrow> None
      | Some text \<Rightarrow> if length text = 0 then None
          else scan_last decode [] (tail_pieces (max 4096 tail_read_bytes) text (length text)))"

fun collect_parts :: "int \<Rightarrow> string list \<Rightarrow> string list \<Rightarrow> string list" where
  "collect_parts max_lines collected [] = collected"
| "collect_parts max_lines collected (raw # rest) =
     (if int (length collected) \<ge> max_lines then collected
      else collect_parts max_lines
             (if starts_with_digit (lstrip raw) then collected @ [raw] else collected) rest)"

fun collect_pieces :: "int \<Rightarrow> string \<Rightarrow> string list \<Rightarrow> (nat \<times> string) list \<Rightarrow> string list" where
  "collect_pieces max_lines carry collected [] = collected"
| "collect_pieces max_lines carry collected ((offset, raw_block) # pieces) =
     (if int (length collected) \<ge> max_lines then collected
      else (let (carry', parts) = cut_block offset (raw_block @ carry)
            in collect_pieces max_lines carry' (collect_parts max_lines collected (rev parts)) pieces))"

definition collect_tail_timestamp_lines :: "string option \<Rightarrow> int \<Rightarrow> nat \<Rightarrow> string list" where
  "collect_tail_timestamp_lines file max_lines tail_read_bytes =
     (case file of None \<Rightarrow> []
      | Some text \<Rightarrow> if length text = 0 \<or> max_lines \<le> 0 then []
          else collect_pieces max_lines [] [] (tail_pieces (max 4096 tail_read_bytes) text (length text)))"

subsection \<open>Duplicate scans\<close>

definition timestamp_present_for_duplicate :: "int list \<Rightarrow> (int \<Rightarrow> bool) option \<Rightarrow> int \<Rightarrow> bool" where
  "timestamp_present_for_duplicate itimes_set timestamp_present unix_second =
     (case timestamp_present of Some p \<Rightarrow> p unix_second | None \<Rightarrow> unix_second \<in> set itimes_set)"

fun scan_start :: "(int \<Rightarrow> bool) \<Rightarrow> int \<Rightarrow> int \<Rightarrow> string list \<Rightarrow> int res" where
  "scan_start present i last_idx [] = Inr (- 1)"
| "scan_start present i last_idx (line # rest) =
     (let s = lstrip line in
      if \<not> starts_with_digit s then scan_start present (i + 1) last_idx rest
      else bindE (digit_line_unix_second s) (\<lambda>sec. case sec of None \<Rightarrow> scan_start present (i + 1) last_idx rest
         | Some u \<Rightarrow> if present u then scan_start present (i + 1) i rest else Inr last_idx))"

definition find_processing_start_index :: "string list \<Rightarrow> int list \<Rightarrow> (int \<Rightarrow> bool) option \<Rightarrow> (int \<times> bool) res" where
  "find_processing_start_index lines itimes_set timestamp_present =
     bindE (scan_start (timestamp_present_for_duplicate itimes_set timestamp_present) 0 0 lines)
       (\<lambda>start_idx. Inr (start_idx, True))"

definition find_processing_start_index_streaming ::
  "string option \<Rightarrow> int list \<Rightarrow> (int \<Rightarrow> bool) option \<Rightarrow> (int \<times> bool) res" where
  "find_processing_start_index_streaming file itimes_set timestamp_present =
     bindE (scan_start (timestamp_present_for_duplicate itimes_set timestamp_present) 0 0 (iter_stats_file_lines file))
       (\<lambda>start_idx. Inr (start_idx, True))"

fun tail_all_present :: "(int \<Rightarrow> bool) \<Rightarrow> string list \<Rightarrow> bool res" where
  "tail_all_present present [] = Inr True"
| "tail_all_present present (line # rest) =
     (let s = lstrip line in
      if \<not> starts_with_digit s then tail_all_present present rest
      else bindE (digit_line_unix_second s) (\<lambda>sec. case sec of None \<Rightarrow> tail_all_present present rest
         | Some u \<Rightarrow> if present u then tail_all_present present rest else Inr False))"

definition tail_window_timestamps_all_present_streaming ::
  "string option \<Rightarrow> int list \<Rightarrow> (int \<Rightarrow> bool) option \<Rightarrow> int \<Rightarrow> int option \<Rightarrow> bool res" where
  \<comment> \<open>\<open>cfg_lines\<close> is the configured window, used when no window is given.\<close>
  "tail_window_timestamps_all_present_streaming file itimes_set timestamp_present cfg_lines max_lines =
     (let n = (case max_lines of None \<Rightarrow> cfg_lines | Some n \<Rightarrow> n);
          lines = collect_tail_timestamp_lines file n 65536
      in if lines = [] then Inr False
         else tail_all_present (timestamp_present_for_duplicate itimes_set timestamp_present) lines)"

subsection \<open>Batched reading is reading\<close>

lemma iter_file_lines_Nil [simp]: "iter_file_lines n [] = []"
  by (cases n) (simp_all add: iter_file_lines.simps)

fun file_lines :: "string \<Rightarrow> string list" where
  "file_lines [] = []"
| "file_lines (c # s) =
     (if c = newline then [c] # file_lines s
      else (case file_lines s of [] \<Rightarrow> [[c]] | l # ls \<Rightarrow> (c # l) # ls))"

lemma file_lines_empty [simp]: "file_lines s = [] \<longleftrightarrow> s = []"
  by (cases s) (auto split: list.splits)

lemma file_lines_read_line: "s \<noteq> [] \<Longrightarrow> file_lines s = fst (read_line s) # file_lines (snd (read_line s))"
proof (induction s)
  case (Cons c s)
  then show ?case by (cases "s = []") (auto split: prod.splits list.splits)
qed simp

lemma file_lines_batch: "read_stats_line_batch n s = (b, r) \<Longrightarrow> file_lines s = b @ file_lines r"
proof (induction n arbitrary: s b r)
  case (Suc n)
  show ?case
  proof (cases "s = []")
    case False
    then show ?thesis
      using Suc file_lines_read_line[OF False] read_line_nonempty[OF False]
      by (auto simp: Let_def split: prod.splits if_splits)
  qed (use Suc.prems in auto)
qed simp

lemma iter_file_lines_eq: "0 < n \<Longrightarrow> iter_file_lines n s = file_lines s"
proof (induction n s rule: iter_file_lines.induct)
  case (1 n s)
  obtain b r where br: "read_stats_line_batch n s = (b, r)" by (cases "read_stats_line_batch n s")
  have "b = [] \<Longrightarrow> s = []"
    using br 1(2) read_line_nonempty[of s] by (cases n) (auto split: prod.splits if_splits)
  then show ?case
    using 1 br file_lines_batch[OF br] by (auto simp: iter_file_lines.simps[of n s])
qed

lemma concat_file_lines: "concat (file_lines s) = s"
  by (induction s) (auto split: list.splits)

lemma file_lines_shape: "l \<in> set (file_lines s) \<Longrightarrow> l \<noteq> [] \<and> newline \<notin> set (butlast l)"
  by (induction s arbitrary: l) (auto split: list.splits if_splits)

lemma file_lines_split:
  "file_lines s = map (\<lambda>l. l @ [newline]) (butlast (split_on newline s)) @
     (if last (split_on newline s) = [] then [] else [last (split_on newline s)])"
proof (induction s)
  case (Cons c s)
  then show ?case
    by (cases "split_on newline s") (auto split: list.splits if_splits)
qed simp

text \<open>Reading a stats file in batches of any positive size yields the file's lines: their
  concatenation is the text, no line is empty, and a newline only ends a line.\<close>

theorem batched_lines_roundtrip:
  assumes "0 < n"
  shows "concat (iter_file_lines n s) = s \<and>
    (\<forall>l \<in> set (iter_file_lines n s). l \<noteq> [] \<and> newline \<notin> set (butlast l)) \<and>
    (\<forall>l \<in> set (butlast (iter_file_lines n s)). last l = newline)"
proof -
  have "\<forall>l \<in> set (butlast (file_lines s)). last l = newline"
    by (subst file_lines_split) (auto simp: butlast_append dest!: in_set_butlastD split: if_splits)
  then show ?thesis using assms concat_file_lines file_lines_shape by (simp add: iter_file_lines_eq)
qed

theorem batched_lines_roundtrip_witness:
  "concat (iter_file_lines 2 (''a'' @ [newline] @ ''b'')) = ''a'' @ [newline] @ ''b'' \<and>
   list_all (\<lambda>l. l \<noteq> [] \<and> newline \<notin> set (butlast l)) (iter_file_lines 2 (''a'' @ [newline] @ ''b''))"
  using batched_lines_roundtrip[of 2 "''a'' @ [newline] @ ''b''"] by (auto simp: list_all_iff)

subsection \<open>Backward reading is splitting\<close>

lemma split_on_append:
  "split_on c (a @ b) = butlast (split_on c a) @ (last (split_on c a) @ hd (split_on c b)) # tl (split_on c b)"
proof (induction a)
  case Nil
  then show ?case by (cases "split_on c b") auto
next
  case (Cons x a)
  then show ?case by (cases "split_on c a") (auto split: list.splits)
qed

fun tail_lines :: "string \<Rightarrow> (nat \<times> string) list \<Rightarrow> string list" where
  "tail_lines carry [] = []"
| "tail_lines carry ((offset, raw_block) # pieces) =
     (let (carry', parts) = cut_block offset (raw_block @ carry) in rev parts @ tail_lines carry' pieces)"

lemma tail_lines_split:
  "0 < chunk_size \<Longrightarrow> 0 < offset \<Longrightarrow> offset \<le> length content \<Longrightarrow>
   tail_lines carry (tail_pieces chunk_size content offset) = rev (split_on newline (take offset content @ carry))"
proof (induction chunk_size content offset arbitrary: carry rule: tail_pieces.induct)
  case (1 chunk_size content offset)
  define off where "off = offset - min chunk_size offset"
  define block where "block = take (min chunk_size offset) (drop off content) @ carry"
  have pieces: "tail_pieces chunk_size content offset =
      (off, take (min chunk_size offset) (drop off content)) # tail_pieces chunk_size content off"
    using 1(2-3) by (simp add: tail_pieces.simps[of chunk_size content offset] off_def Let_def)
  have "take offset content = take off content @ take (min chunk_size offset) (drop off content)"
    using take_add[of off "min chunk_size offset" content] 1(2-4) by (simp add: off_def)
  then have block: "take offset content @ carry = take off content @ block" by (simp add: block_def)
  show ?case
  proof (cases "off = 0")
    case True
    have "tail_pieces chunk_size content 0 = []" by (simp add: tail_pieces.simps)
    then show ?thesis using True block pieces by (simp add: cut_block_def block_def)
  next
    case False
    let ?parts = "split_on newline block"
    have nl: "newline \<notin> set (hd ?parts)" using split_on_pieces[of "hd ?parts" newline block] by simp
    have "tail_lines carry (tail_pieces chunk_size content offset) =
        rev (tl ?parts) @ tail_lines (hd ?parts) (tail_pieces chunk_size content off)"
      using False by (simp add: pieces cut_block_def block_def[symmetric] Let_def)
    also have "\<dots> = rev (tl ?parts) @ rev (split_on newline (take off content @ hd ?parts))"
      using 1 False by (simp add: off_def)
    also have "\<dots> = rev (split_on newline (take off content @ block))"
      by (simp add: split_on_append[of _ _ block] split_on_append[of _ _ "hd ?parts"] split_on_no_sep[OF nl])
    finally show ?thesis by (simp only: block)
  qed
qed

lemma first_some_append: "first_some f (xs @ ys) = (case first_some f xs of None \<Rightarrow> first_some f ys | Some y \<Rightarrow> Some y)"
  by (induction xs) (auto split: option.splits)

lemma first_some_cong [fundef_cong]:
  "xs = ys \<Longrightarrow> (\<And>x. x \<in> set ys \<Longrightarrow> f x = g x) \<Longrightarrow> first_some f xs = first_some g ys"
  by (induction xs arbitrary: ys) (auto split: option.splits)

lemma scan_last_tail: "scan_last decode carry pieces = first_some (raw_header decode) (tail_lines carry pieces)"
  by (induction decode carry pieces rule: scan_last.induct) (auto simp: first_some_append split: prod.splits option.splits)

lemma lstrip_append_space: "py_isspace c \<Longrightarrow> lstrip (l @ [c]) = (if lstrip l = [] then [] else lstrip l @ [c])"
  by (induction l) (auto simp: lstrip_def)

lemma split_ws_append_space: "py_isspace c \<Longrightarrow> split_ws (l @ [c]) = split_ws l"
proof (induction l rule: split_ws.induct)
  case (1 s)
  show ?case
  proof (cases "dropWhile py_isspace s")
    case Nil
    then have "dropWhile py_isspace (s @ [c]) = []" using 1(2) by (simp add: dropWhile_append)
    then show ?thesis using Nil by (simp only: split_ws.simps[of s] split_ws.simps[of "s @ [c]"])
  next
    case (Cons d r)
    then have d: "dropWhile py_isspace (s @ [c]) = d # (r @ [c])"
      using 1 by (metis append_Cons dropWhile_append2 dropWhile_append1 dropWhile_eq_Nil_conv list.discI)
    have "split_ws (dropWhile (\<lambda>x. \<not> py_isspace x) (r @ [c])) = split_ws (dropWhile (\<lambda>x. \<not> py_isspace x) r)"
    proof (cases "\<forall>x \<in> set r. \<not> py_isspace x")
      case True
      then have "dropWhile (\<lambda>x. \<not> py_isspace x) (r @ [c]) = [c]" "dropWhile (\<lambda>x. \<not> py_isspace x) r = []"
        using 1(2) by (simp_all add: dropWhile_append)
      moreover have "split_ws [c] = []" "split_ws [] = []" using 1(2) by (simp_all add: split_ws.simps)
      ultimately show ?thesis by (simp only:)
    next
      case False
      then have "dropWhile (\<lambda>x. \<not> py_isspace x) (r @ [c]) = dropWhile (\<lambda>x. \<not> py_isspace x) r @ [c]"
        by (auto simp: dropWhile_append)
      then show ?thesis using 1 Cons by simp
    qed
    moreover have "takeWhile (\<lambda>x. \<not> py_isspace x) (r @ [c]) = takeWhile (\<lambda>x. \<not> py_isspace x) r"
      using 1(2) by (auto simp: takeWhile_append takeWhile_eq_all_conv[THEN iffD2])
    ultimately show ?thesis using d Cons by (simp add: split_ws.simps[of s] split_ws.simps[of "s @ [c]"])
  qed
qed

lemma newline_space [simp]: "py_isspace newline"
  by (simp add: py_isspace_def)

lemma starts_with_digit_append: "starts_with_digit (l @ [newline]) = starts_with_digit l"
  by (cases l) (auto simp: starts_with_digit_def py_isdigit_def)

lemma header_of_newline [simp]: "header_of (l @ [newline]) = header_of l"
  by (simp add: header_of_def Let_def lstrip_append_space starts_with_digit_append digit_line_identity_def
       split_ws_append_space)

lemma header_of_Nil [simp]: "header_of [] = None"
  by (simp add: header_of_def lstrip_def starts_with_digit_def)

lemma last_header_split: "first_some header_of (rev (file_lines s)) = first_some header_of (rev (split_on newline s))"
proof -
  have "first_some header_of (map (\<lambda>l. l @ [newline]) xs) = first_some header_of xs" for xs
    by (induction xs) (auto split: option.splits)
  moreover obtain xs l where "split_on newline s = xs @ [l]" by (metis rev_exhaust split_on_ne)
  ultimately show ?thesis by (auto simp: file_lines_split rev_map split: option.splits)
qed

definition ascii_text :: "string \<Rightarrow> bool" where
  "ascii_text s = list_all (\<lambda>c. (of_char c :: nat) < 128) s"

definition decodes_ascii :: "(string \<Rightarrow> string) \<Rightarrow> bool" where
  \<comment> \<open>UTF-8 extends ASCII: a line of ASCII bytes decodes to itself.\<close>
  "decodes_ascii decode \<longleftrightarrow> (\<forall>s. ascii_text s \<longrightarrow> decode s = s)"

lemma split_on_chars: "l \<in> set (split_on c s) \<Longrightarrow> set l \<subseteq> set s"
proof (induction s arbitrary: l)
  case (Cons x s)
  then show ?case by (cases "split_on c s") (fastforce split: if_splits)+
qed simp

lemma raw_header_ascii:
  "decodes_ascii decode \<Longrightarrow> ascii_text s \<Longrightarrow> l \<in> set (split_on newline s) \<Longrightarrow> raw_header decode l = header_of l"
  using split_on_chars[of l newline s]
  by (simp add: raw_header_def decodes_ascii_def ascii_text_def list_all_iff subset_iff)

text \<open>C12. In an ASCII file, reading backwards in chunks of bytes and decoding each line as UTF-8
  finds the same last sample header as loading every line, whatever the chunk size: a header cut
  by a chunk boundary is never lost or torn. (On other bytes the two readers decode differently.)\<close>

theorem last_timestamp_streaming_eq:
  assumes "decodes_ascii decode" "ascii_text content"
  shows "parse_last_timestamp_line_streaming decode (Some content) tail_read_bytes =
    parse_last_timestamp_line (iter_stats_file_lines (Some content))"
proof -
  have "first_some (raw_header decode) (rev (split_on newline content)) =
      first_some header_of (rev (split_on newline content))"
    using raw_header_ascii[OF assms] by (intro first_some_cong) auto
  then show ?thesis
    using tail_lines_split[of "max 4096 tail_read_bytes" "length content" content "[]"] last_header_split[of content]
    by (auto simp: parse_last_timestamp_line_streaming_def parse_last_timestamp_line_def iter_stats_file_lines_def
        iter_file_lines_eq STREAM_PARSE_LINE_BATCH_def scan_last_tail)
qed

definition replace_bytes :: "string \<Rightarrow> string" where
  \<comment> \<open>A decoder for the witness: every byte that is not ASCII is replaced.\<close>
  "replace_bytes = map (\<lambda>c. if (of_char c :: nat) < 128 then c else CHR ''?'')"

theorem last_timestamp_streaming_eq_witness:
  "parse_last_timestamp_line_streaming replace_bytes
     (Some (''17 9 hosta'' @ [newline] @ ''cpu 0 1'' @ [newline] @ ''18 9 hosta'' @ [newline] @ ''cpu 0 2'' @ [newline])) 65536 =
   Some (''18'', ''9'', ''hosta'')"
proof -
  let ?c = "''17 9 hosta'' @ [newline] @ ''cpu 0 1'' @ [newline] @ ''18 9 hosta'' @ [newline] @ ''cpu 0 2'' @ [newline]"
  have "decodes_ascii replace_bytes"
    unfolding decodes_ascii_def replace_bytes_def ascii_text_def by (auto simp: list_all_iff intro: map_idI)
  moreover have "ascii_text ?c" by code_simp
  moreover have "parse_last_timestamp_line (file_lines ?c) = Some (''18'', ''9'', ''hosta'')" by code_simp
  ultimately show ?thesis
    by (simp only: last_timestamp_streaming_eq iter_stats_file_lines_def iter_file_lines_eq STREAM_PARSE_LINE_BATCH_def
        option.case)
qed

subsection \<open>The tail window\<close>

lemma collect_parts_take:
  "int (length collected) \<le> max_lines \<Longrightarrow>
   collect_parts max_lines collected xs =
     take (nat max_lines) (collected @ filter (\<lambda>raw. starts_with_digit (lstrip raw)) xs)"
  by (induction max_lines collected xs rule: collect_parts.induct) (auto simp: not_le take_Cons' nat_eq_iff)

lemma collect_pieces_take:
  "int (length collected) \<le> max_lines \<Longrightarrow>
   collect_pieces max_lines carry collected pieces =
     take (nat max_lines) (collected @ filter (\<lambda>raw. starts_with_digit (lstrip raw)) (tail_lines carry pieces))"
proof (induction max_lines carry collected pieces rule: collect_pieces.induct)
  case (2 max_lines carry collected offset raw_block pieces)
  obtain carry' parts where cut: "cut_block offset (raw_block @ carry) = (carry', parts)"
    by (cases "cut_block offset (raw_block @ carry)")
  show ?case
  proof (cases "int (length collected) \<ge> max_lines")
    case False
    have IH: "int (length c) \<le> max_lines \<Longrightarrow> c = collect_parts max_lines collected (rev parts) \<Longrightarrow>
        collect_pieces max_lines carry' c pieces =
        take (nat max_lines) (c @ filter (\<lambda>raw. starts_with_digit (lstrip raw)) (tail_lines carry' pieces))" for c
      using 2(1)[OF False cut[symmetric] refl] by simp
    have c: "collect_parts max_lines collected (rev parts) =
        take (nat max_lines) (collected @ filter (\<lambda>raw. starts_with_digit (lstrip raw)) (rev parts))"
      using 2(2) by (rule collect_parts_take)
    then have "int (length (collect_parts max_lines collected (rev parts))) \<le> max_lines"
      using 2(2) by simp
    from IH[OF this refl] show ?thesis
      using False cut c by (simp add: min_def)
  qed (use 2(2) in simp)
qed simp

lemma collect_tail_exact:
  "collect_tail_timestamp_lines (Some content) max_lines tail_read_bytes =
   take (nat max_lines) (filter (\<lambda>raw. starts_with_digit (lstrip raw)) (rev (split_on newline content)))"
  using tail_lines_split[of "max 4096 tail_read_bytes" "length content" content "[]"]
    collect_pieces_take[of "[]" max_lines "[]"]
  by (auto simp: collect_tail_timestamp_lines_def lstrip_def starts_with_digit_def)

lemma digit_line_unix_second_newline: "digit_line_unix_second (s @ [newline]) = digit_line_unix_second s"
  by (simp add: digit_line_unix_second_def digit_line_identity_def split_ws_append_space)

definition time_known :: "(int \<Rightarrow> bool) \<Rightarrow> string \<Rightarrow> bool" where
  "time_known present line =
     (case digit_line_unix_second (lstrip line) of Inr (Some u) \<Rightarrow> present u | _ \<Rightarrow> True)"

lemma tail_all_present_eq:
  "\<forall>l \<in> set lines. starts_with_digit (lstrip l) \<and> \<not> isl (digit_line_unix_second (lstrip l)) \<Longrightarrow>
   tail_all_present present lines = Inr (list_all (time_known present) lines)"
proof (induction lines)
  case (Cons l lines)
  then show ?case
    by (cases "digit_line_unix_second (lstrip l)") (auto simp: Let_def time_known_def split: option.splits)
qed simp

text \<open>The tail window test answers yes exactly when the file has a sample header and the
  times of its last \<open>n\<close> header lines are all known, read from the plain line split, whatever
  the chunking of the backward read.\<close>

theorem tail_window_exact:
  assumes finite: "\<forall>l \<in> set (split_on newline content). \<not> isl (digit_line_unix_second (lstrip l))"
  shows "tail_window_timestamps_all_present_streaming (Some content) itimes present cfg max_lines =
    Inr (let window = take (nat (case max_lines of None \<Rightarrow> cfg | Some n \<Rightarrow> n))
               (filter (\<lambda>l. starts_with_digit (lstrip l)) (rev (split_on newline content)))
         in window \<noteq> [] \<and> list_all (time_known (timestamp_present_for_duplicate itimes present)) window)"
proof -
  define window where "window = take (nat (case max_lines of None \<Rightarrow> cfg | Some n \<Rightarrow> n))
    (filter (\<lambda>l. starts_with_digit (lstrip l)) (rev (split_on newline content)))"
  have "set window \<subseteq> set (filter (\<lambda>l. starts_with_digit (lstrip l)) (split_on newline content))"
    unfolding window_def by (metis rev_filter set_rev set_take_subset)
  then have "\<forall>l \<in> set window. starts_with_digit (lstrip l) \<and> \<not> isl (digit_line_unix_second (lstrip l))"
    using finite by auto
  note all = tail_all_present_eq[OF this]
  have "collect_tail_timestamp_lines (Some content) (case max_lines of None \<Rightarrow> cfg | Some n \<Rightarrow> n) 65536 = window"
    by (simp only: collect_tail_exact window_def)
  then show ?thesis
    unfolding tail_window_timestamps_all_present_streaming_def Let_def window_def[symmetric]
    by (auto simp: all)
qed

theorem tail_window_exact_witness:
  "tail_window_timestamps_all_present_streaming (Some ''17 9 hosta'') [17] None 10 None = Inr True"
proof -
  have "\<forall>l \<in> set (split_on newline ''17 9 hosta''). \<not> isl (digit_line_unix_second (lstrip l))" by code_simp
  show ?thesis unfolding tail_window_exact[OF \<open>\<forall>l \<in> set (split_on newline ''17 9 hosta''). _\<close>] by code_simp
qed

subsection \<open>The resume index\<close>

definition sample_second :: "string \<Rightarrow> int option" where
  \<comment> \<open>The second of a sample header line, if the line is one.\<close>
  "sample_second line =
     (if starts_with_digit (lstrip line)
      then (case digit_line_unix_second (lstrip line) of Inr u \<Rightarrow> u | Inl _ \<Rightarrow> None) else None)"

definition headers_before :: "string list \<Rightarrow> nat \<Rightarrow> nat list" where
  "headers_before lines m = filter (\<lambda>j. sample_second (lines ! j) \<noteq> None) [0..<m]"

definition known_prefix :: "(int \<Rightarrow> bool) \<Rightarrow> string list \<Rightarrow> nat" where
  \<comment> \<open>The index of the first sample that is not present, the number of lines if there is none.\<close>
  "known_prefix present lines =
     length (takeWhile (\<lambda>l. case sample_second l of None \<Rightarrow> True | Some u \<Rightarrow> present u) lines)"

definition resume_index :: "(int \<Rightarrow> bool) \<Rightarrow> string list \<Rightarrow> int" where
  "resume_index present lines =
     (let m = known_prefix present lines in
      if m = length lines then - 1
      else (if headers_before lines m = [] then 0 else int (last (headers_before lines m))))"

lemma headers_before_Cons:
  "headers_before (l # lines) (Suc m) = (if sample_second l = None then [] else [0]) @ map Suc (headers_before lines m)"
proof -
  have "[0..<Suc m] = 0 # map Suc [0..<m]" by (simp add: map_Suc_upt upt_conv_Cons del: upt_Suc)
  then show ?thesis unfolding headers_before_def by (simp add: filter_map comp_def del: upt_Suc)
qed

lemma scan_start_resume:
  "\<forall>l \<in> set lines. \<not> isl (digit_line_unix_second (lstrip l)) \<Longrightarrow>
   scan_start present i last_idx lines = Inr
     (if known_prefix present lines = length lines then - 1
      else if headers_before lines (known_prefix present lines) = [] then last_idx
      else i + int (last (headers_before lines (known_prefix present lines))))"
proof (induction lines arbitrary: i last_idx)
  case (Cons l lines)
  have IH: "scan_start present i last_idx lines = Inr
     (if known_prefix present lines = length lines then - 1
      else if headers_before lines (known_prefix present lines) = [] then last_idx
      else i + int (last (headers_before lines (known_prefix present lines))))" for i last_idx
    using Cons by simp
  consider "sample_second l = None" | u where "sample_second l = Some u" by (cases "sample_second l") auto
  then show ?case
  proof cases
    case 1
    then have "scan_start present i last_idx (l # lines) = scan_start present (i + 1) last_idx lines"
      using Cons.prems by (auto simp: sample_second_def Let_def split: if_splits sum.splits)
    moreover have "known_prefix present (l # lines) = Suc (known_prefix present lines)"
      using 1 by (simp add: known_prefix_def)
    ultimately show ?thesis using 1 by (auto simp: IH headers_before_Cons last_map)
  next
    case 2
    then have step: "scan_start present i last_idx (l # lines) =
        (if present u then scan_start present (i + 1) i lines else Inr last_idx)"
      using Cons.prems by (auto simp: sample_second_def Let_def split: if_splits sum.splits)
    show ?thesis
    proof (cases "present u")
      case True
      then have "known_prefix present (l # lines) = Suc (known_prefix present lines)"
        using 2 by (simp add: known_prefix_def)
      then show ?thesis using 2 True step by (auto simp: IH headers_before_Cons last_map)
    next
      case False
      then have "known_prefix present (l # lines) = 0" using 2 by (simp add: known_prefix_def)
      then show ?thesis using step False by (simp add: headers_before_def)
    qed
  qed
qed (simp add: known_prefix_def)

text \<open>C11. The duplicate scan answers -1 exactly when every sample time is already present, and
  otherwise the index of the last sample before the first missing one (0 when the missing
  sample is the first); the streaming scan of the file gives the same answer.\<close>

theorem find_start_exact:
  assumes "\<forall>l \<in> set (iter_stats_file_lines file). \<not> isl (digit_line_unix_second (lstrip l))"
  shows "find_processing_start_index (iter_stats_file_lines file) itimes tp =
      Inr (resume_index (timestamp_present_for_duplicate itimes tp) (iter_stats_file_lines file), True) \<and>
    find_processing_start_index_streaming file itimes tp =
      Inr (resume_index (timestamp_present_for_duplicate itimes tp) (iter_stats_file_lines file), True)"
  by (auto simp: find_processing_start_index_def find_processing_start_index_streaming_def
      scan_start_resume[OF assms] resume_index_def Let_def)

theorem find_start_exact_witness:
  "find_processing_start_index (iter_stats_file_lines (Some ''17 9 hosta'')) [17] None =
      Inr (resume_index (timestamp_present_for_duplicate [17] None) (iter_stats_file_lines (Some ''17 9 hosta'')), True) \<and>
    find_processing_start_index_streaming (Some ''17 9 hosta'') [17] None =
      Inr (resume_index (timestamp_present_for_duplicate [17] None) (iter_stats_file_lines (Some ''17 9 hosta'')), True)"
proof (rule find_start_exact)
  have "iter_stats_file_lines (Some ''17 9 hosta'') = [''17 9 hosta'']"
    by (simp add: iter_stats_file_lines_def iter_file_lines_eq STREAM_PARSE_LINE_BATCH_def)
  moreover have "\<not> isl (digit_line_unix_second (lstrip ''17 9 hosta''))" by code_simp
  ultimately show "\<forall>l \<in> set (iter_stats_file_lines (Some ''17 9 hosta'')). \<not> isl (digit_line_unix_second (lstrip l))"
    by simp
qed

lemma resume_index_covers:
  \<comment> \<open>Every missing sample is at or after the resume index.\<close>
  assumes "i < length lines" "sample_second (lines ! i) = Some u" "\<not> present u"
  shows "0 \<le> resume_index present lines \<and> resume_index present lines \<le> int i"
proof -
  let ?P = "\<lambda>l. case sample_second l of None \<Rightarrow> True | Some u \<Rightarrow> present u"
  let ?m = "known_prefix present lines"
  have "?m \<le> i"
  proof (rule ccontr)
    assume "\<not> ?m \<le> i"
    then have "lines ! i \<in> set (takeWhile ?P lines)"
      by (metis known_prefix_def nth_mem not_le takeWhile_nth)
    then show False using assms(2,3) by (auto dest!: set_takeWhileD)
  qed
  moreover have "?m \<noteq> length lines" using \<open>?m \<le> i\<close> assms(1) by simp
  moreover have "headers_before lines ?m \<noteq> [] \<Longrightarrow> last (headers_before lines ?m) < ?m"
    using last_in_set[of "headers_before lines ?m"] by (auto simp: headers_before_def)
  ultimately show ?thesis by (auto simp: resume_index_def Let_def)
qed

end
