(* ===== verification/Stats_Parser.thy ===== *)
theory Stats_Parser
  imports Proc_Merge Monitor_Marks Legacy_Decode Timestamp_Scan
begin

text \<open>
  The incremental stats-file parser (\<^verbatim>\<open>IncrementalStatsParser\<close> of
  \<^verbatim>\<open>dbload/lib/sync_timedb_parsing.py\<close>) ; the drivers are in the next
  theory. The state record has the attributes
  of the class; the mark objects that \<^verbatim>\<open>marks\<close> and \<^verbatim>\<open>_pending_marks\<close> share live in a store
  (\<open>ps_store\<close>) and the two lists hold positions in it. \<open>feed_line\<close> is one transition; an exception
  is an error value. Parse-stage telemetry is not part of the model.
  Locale \<open>windowed\<close> is the contract of a line consumer whose buffers can be taken at any line:
  what is taken in windows recombines to what one uninterrupted run buffers. It is
  interpreted for the hardware columns and for the merged process rows.
\<close>

record tags =
  t_time :: f64
  t_host :: string
  t_jid :: string

record parser =
  ps_start_idx :: int
  ps_exclude_types_list :: "string list"
  ps_line_index :: int
  ps_schema :: "(string \<times> string list) list"
  ps_schema_fast :: "(string \<times> string list) list"
  ps_schema_compiled :: "(string \<times> compiled_schema) list"
  ps_schema_fast_compiled :: "(string \<times> compiled_schema) list"
  ps_schema_bare :: "(string \<times> string list) list"
  ps_schema_fast_bare :: "(string \<times> string list) list"
  ps_stats_cols :: stats_cols
  ps_proc_by_key :: "(proc_key \<times> proc_row) list"
  ps_insert :: bool
  ps_tags :: "tags option"
  ps_tags2 :: "tags option"
  ps_arm_shared :: bool
  ps_sample_shared :: bool
  ps_store :: "mark list"
  ps_marks :: "nat list"
  ps_pending_marks :: "nat list"

definition new_parser :: "int \<Rightarrow> string list option \<Rightarrow> parser" where
  "new_parser start_idx exclude_types_list =
     \<lparr>ps_start_idx = start_idx,
      ps_exclude_types_list = (case exclude_types_list of None \<Rightarrow> exclude_types | Some l \<Rightarrow> l),
      ps_line_index = 0, ps_schema = [], ps_schema_fast = [], ps_schema_compiled = [],
      ps_schema_fast_compiled = [], ps_schema_bare = [], ps_schema_fast_bare = [],
      ps_stats_cols = empty_stats_columns, ps_proc_by_key = [], ps_insert = False, ps_tags = None,
      ps_tags2 = None, ps_arm_shared = False, ps_sample_shared = False, ps_store = [], ps_marks = [],
      ps_pending_marks = []\<rparr>"

subsection \<open>Buffers\<close>

definition proc_stats :: "parser \<Rightarrow> proc_row list" where
  "proc_stats ps = map snd (ps_proc_by_key ps)"

definition set_proc_stats :: "parser \<Rightarrow> proc_row list \<Rightarrow> parser" where
  "set_proc_stats ps value = ps\<lparr>ps_proc_by_key := foldl merge_proc_row_online [] value\<rparr>"

definition take_proc_stats :: "parser \<Rightarrow> proc_row list \<times> parser" where
  "take_proc_stats ps = (map snd (ps_proc_by_key ps), ps\<lparr>ps_proc_by_key := []\<rparr>)"

definition take_proc_stats_columns :: "parser \<Rightarrow> (string \<times> cell list) list \<times> parser" where
  "take_proc_stats_columns ps = (proc_rows_to_columns (map snd (ps_proc_by_key ps)), ps\<lparr>ps_proc_by_key := []\<rparr>)"

definition stats_len :: "parser \<Rightarrow> nat" where
  "stats_len ps = length (c_time (ps_stats_cols ps))"

definition take_stats_columns :: "parser \<Rightarrow> stats_cols \<times> parser" where
  "take_stats_columns ps = (ps_stats_cols ps, ps\<lparr>ps_stats_cols := empty_stats_columns\<rparr>)"

definition mark_ready :: "mark list \<Rightarrow> nat \<Rightarrow> bool" where
  "mark_ready store i = (m_time (store ! i) \<noteq> None \<and> (case m_host (store ! i) of None \<Rightarrow> False | Some h \<Rightarrow> h \<noteq> []))"

definition take_ready_marks :: "parser \<Rightarrow> mark list \<times> parser" where
  "take_ready_marks ps =
     (map (\<lambda>i. ps_store ps ! i) (filter (mark_ready (ps_store ps)) (ps_marks ps)),
      ps\<lparr>ps_marks := filter (\<lambda>i. \<not> mark_ready (ps_store ps) i) (ps_marks ps)\<rparr>)"

subsection \<open>Schema caches\<close>

definition compile_all :: "(string \<times> string list) list \<Rightarrow> (string \<times> compiled_schema) list \<Rightarrow> (string \<times> string list) list
    \<Rightarrow> ((string \<times> compiled_schema) list \<times> (string \<times> string list) list) res" where
  "compile_all schema compiled bare =
     foldE (\<lambda>(c, b) (typ, toks). bindE (compile_schema_tokens toks)
              (\<lambda>cs. Inr (dset typ cs c, dset typ (compile_schema_bare_names toks) b)))
       (compiled, bare) schema"

definition compile_injected_schema :: "parser \<Rightarrow> parser res" where
  "compile_injected_schema ps =
     bindE (compile_all (ps_schema ps) (ps_schema_compiled ps) (ps_schema_bare ps)) (\<lambda>(c, b).
     bindE (compile_all (ps_schema_fast ps) (ps_schema_fast_compiled ps) (ps_schema_fast_bare ps)) (\<lambda>(fc, fb).
       Inr (ps\<lparr>ps_schema_compiled := c, ps_schema_bare := b,
              ps_schema_fast_compiled := fc, ps_schema_fast_bare := fb\<rparr>)))"

definition put_compiled :: "bool \<Rightarrow> string \<Rightarrow> compiled_schema \<Rightarrow> string list \<Rightarrow> parser \<Rightarrow> parser" where
  "put_compiled fast typ cs bare ps =
     (if fast then ps\<lparr>ps_schema_fast_compiled := dset typ cs (ps_schema_fast_compiled ps),
                     ps_schema_fast_bare := dset typ bare (ps_schema_fast_bare ps)\<rparr>
      else ps\<lparr>ps_schema_compiled := dset typ cs (ps_schema_compiled ps),
             ps_schema_bare := dset typ bare (ps_schema_bare ps)\<rparr>)"

definition compiled_schema_for :: "parser \<Rightarrow> string \<Rightarrow> bool \<Rightarrow> (compiled_schema \<times> parser) res" where
  "compiled_schema_for ps typ fast =
     (case dget (if fast then ps_schema_fast_compiled ps else ps_schema_compiled ps) typ of
        Some compiled \<Rightarrow> Inr (compiled, ps)
      | None \<Rightarrow>
          (let toks = get_or [] (if fast then ps_schema_fast ps else ps_schema ps) typ in
           if toks = [] then Inr (empty_compiled_schema, ps)
           else bindE (compile_schema_tokens toks)
                  (\<lambda>cs. Inr (cs, put_compiled fast typ cs (compile_schema_bare_names toks) ps))))"

definition proc_bare_keys_for :: "parser \<Rightarrow> string \<Rightarrow> string list \<Rightarrow> bool \<Rightarrow> string list \<times> parser" where
  "proc_bare_keys_for ps typ schema_keys fast =
     (case dget (if fast then ps_schema_fast_bare ps else ps_schema_bare ps) typ of
        Some bare \<Rightarrow> (bare, ps)
      | None \<Rightarrow>
          (let bare = compile_schema_bare_names schema_keys in
           (bare, if fast then ps\<lparr>ps_schema_fast_bare := dset typ bare (ps_schema_fast_bare ps)\<rparr>
                  else ps\<lparr>ps_schema_bare := dset typ bare (ps_schema_bare ps)\<rparr>)))"

subsection \<open>Marks\<close>

definition live_jid :: "string \<Rightarrow> bool" where
  "live_jid jid = (jid \<noteq> [] \<and> jid \<noteq> ''-'' \<and> jid \<noteq> ''0'')"

definition queue_mark :: "parser \<Rightarrow> mark_body \<Rightarrow> parser" where
  "queue_mark ps body =
     (let ref = length (ps_store ps) in
      case ps_tags ps of
        Some t \<Rightarrow>
          ps\<lparr>ps_store := ps_store ps @ [\<lparr>m_body = body, m_time = Some (t_time t), m_host = Some (t_host t)\<rparr>],
             ps_sample_shared := (case body of JobsMark _ \<Rightarrow> live_jid (t_jid t) | _ \<Rightarrow> ps_sample_shared ps),
             ps_marks := ps_marks ps @ [ref]\<rparr>
      | None \<Rightarrow>
          ps\<lparr>ps_store := ps_store ps @ [new_mark body],
             ps_pending_marks := ps_pending_marks ps @ [ref],
             ps_marks := ps_marks ps @ [ref]\<rparr>)"

definition note_percent_mark :: "parser \<Rightarrow> string \<Rightarrow> parser" where
  "note_percent_mark ps line =
     (if startswith line ''%jobs'' then
        (let jids = parse_jobs_jids line in
         if jids = [] then ps else queue_mark (ps\<lparr>ps_arm_shared := True\<rparr>) (JobsMark jids))
      else if startswith line ''%affinity'' then
        (case parse_affinity_mark line of None \<Rightarrow> ps | Some body \<Rightarrow> queue_mark ps body)
      else ps)"

definition bind_pending_marks :: "parser \<Rightarrow> f64 \<Rightarrow> string \<Rightarrow> string \<Rightarrow> parser" where
  "bind_pending_marks ps when host jid =
     ps\<lparr>ps_sample_shared := (ps_arm_shared ps \<and> live_jid jid), ps_arm_shared := False,
        ps_store := foldl (bind_mark when host) (ps_store ps) (ps_pending_marks ps),
        ps_pending_marks := []\<rparr>"

subsection \<open>Lines\<close>

definition split_tier :: "string list \<Rightarrow> string option \<times> string list" where
  "split_tier vals = (case vals of v # vs \<Rightarrow> if v \<in> set TIER_MARKERS then (Some v, vs) else (None, vals) | [] \<Rightarrow> (None, []))"

definition proc_value :: "string \<Rightarrow> int option res" where
  \<comment> \<open>\<^verbatim>\<open>int(raw)\<close>, else \<^verbatim>\<open>int(float(raw))\<close>, else \<^verbatim>\<open>None\<close>; an infinite float is not caught.\<close>
  "proc_value raw =
     (case py_int raw of Some n \<Rightarrow> Inr (Some n)
      | None \<Rightarrow> (case py_float raw of None \<Rightarrow> Inr None
          | Some v \<Rightarrow> (case trunc_f64 v of Inr n \<Rightarrow> Inr (Some n)
                      | Inl OverflowError \<Rightarrow> Inl OverflowError
                      | Inl _ \<Rightarrow> Inr None)))"

definition proc_fields :: "string list \<Rightarrow> string list \<Rightarrow> (string \<times> int option) list res" where
  "proc_fields bare_keys vals =
     foldE (\<lambda>row (bare, raw). if bare \<notin> set HOST_PROC_KEYS then Inr row
              else bindE (proc_value raw) (\<lambda>v. Inr (dset bare v row)))
       [] (zip bare_keys vals)"

definition or_list :: "'a list \<Rightarrow> 'a list \<Rightarrow> 'a list" where
  \<comment> \<open>\<^verbatim>\<open>a or b\<close> for lists.\<close>
  "or_list a b = (if a = [] then b else a)"

definition proc_schema_keys :: "parser \<Rightarrow> string \<Rightarrow> string list" where
  "proc_schema_keys ps typ =
     or_list (get_or [] (ps_schema ps) typ) (or_list (get_or [] (ps_schema ps) ''host_proc'')
       (or_list (get_or [] (ps_schema ps) ''proc'') HOST_PROC_KEYS))"

definition feed_proc_line :: "parser \<Rightarrow> string \<Rightarrow> string \<Rightarrow> string list \<Rightarrow> parser res" where
  "feed_proc_line ps typ dev vals0 =
     (let proc_name = fst (split_once (CHR ''/'') dev);
          full_schema_keys = proc_schema_keys ps typ;
          (tier_marker, vals) = split_tier vals0;
          use_fast = (tier_marker = Some ''@fast'');
          schema_keys = (if use_fast then or_list (get_or [] (ps_schema_fast ps) typ) (fast_schema_keys full_schema_keys)
                         else full_schema_keys);
          (bare_keys, ps') = proc_bare_keys_for ps typ schema_keys use_fast
      in case ps_tags2 ps of None \<Rightarrow> Inl TypeError
         | Some t \<Rightarrow> bindE (proc_fields bare_keys vals) (\<lambda>fields.
             Inr (ps'\<lparr>ps_proc_by_key := merge_proc_row_online (ps_proc_by_key ps')
                       \<lparr>p_time = t_time t, p_host = t_host t, p_jid = t_jid t, p_proc = proc_name,
                        p_device = dev, p_fields = fields\<rparr>\<rparr>)))"

definition feed_counter_line :: "parser \<Rightarrow> string \<Rightarrow> string \<Rightarrow> string list \<Rightarrow> string list \<Rightarrow> parser res" where
  "feed_counter_line ps typ dev0 vals0 toks =
     (let (tier_marker, vals) = split_tier vals0; fast = (tier_marker = Some ''@fast'');
          legacy = schema_needs_legacy_hardware_decode typ toks; use_legacy = (\<not> fast \<and> legacy)
      in if fast \<and> legacy then Inr ps
         else bindE (compiled_schema_for ps typ fast) (\<lambda>(compiled, ps').
           case ps_tags ps' of None \<Rightarrow> Inr ps'
           | Some t \<Rightarrow>
               (let out_typ = (if use_legacy then legacy_output_type typ else typ);
                    dev = shared_row_dev dev0 out_typ (t_jid t) (ps_sample_shared ps');
                    put = (\<lambda>cols. Inr (ps'\<lparr>ps_stats_cols := cols\<rparr>))
                in if use_legacy then
                     bindE (vals_dict_from_line typ (ps_schema ps') toks vals True) (\<lambda>vd.
                       case vd of None \<Rightarrow> Inr ps'
                       | Some vals_dict \<Rightarrow>
                           bindE (append_vals_dict_columns (ps_stats_cols ps') (t_time t) (t_host t) (t_jid t) out_typ dev vals_dict) put)
                   else
                     bindE (append_compiled_stats_columns (ps_stats_cols ps') (t_time t) (t_host t) (t_jid t) out_typ dev
                              compiled vals) put)))"

definition feed_stats_line :: "parser \<Rightarrow> string \<Rightarrow> parser res" where
  "feed_stats_line ps s =
     (case split_ws_max 2 s of
        [typ, dev, rest] \<Rightarrow>
          (let vals = split_ws rest in
           if typ \<in> set (ps_exclude_types_list ps) then Inr ps
           else if typ = ''proc'' \<or> typ = ''host_proc'' then feed_proc_line ps typ dev vals
           else (case dget (ps_schema ps) typ of None \<Rightarrow> Inr ps
                 | Some toks \<Rightarrow> feed_counter_line ps typ dev vals toks))
      | _ \<Rightarrow> Inl ValueError)"

definition feed_header :: "parser \<Rightarrow> string \<Rightarrow> parser res" where
  "feed_header ps s =
     (case digit_line_identity s of None \<Rightarrow> Inr ps
      | Some (t, jid, host) \<Rightarrow>
          bindE (raise_none ValueError (py_float t)) (\<lambda>when.
            Inr (bind_pending_marks
              (ps\<lparr>ps_insert := True,
                 ps_tags := Some \<lparr>t_time = when, t_host = host, t_jid = jid\<rparr>,
                 ps_tags2 := Some \<lparr>t_time = when, t_host = host, t_jid = jid\<rparr>\<rparr>) when host jid)))"

definition feed_schema :: "parser \<Rightarrow> string \<Rightarrow> parser res" where
  "feed_schema ps s =
     (case split_ws_max 1 s of
        [label, rest] \<Rightarrow>
          (let typ = tl label; evs = split_ws rest; fast = fast_schema_keys evs in
           bindE (compile_schema_tokens evs) (\<lambda>cs. bindE (compile_schema_tokens fast) (\<lambda>fcs.
             Inr (ps\<lparr>ps_schema := dset typ evs (ps_schema ps),
                    ps_schema_fast := dset typ fast (ps_schema_fast ps),
                    ps_schema_compiled := dset typ cs (ps_schema_compiled ps),
                    ps_schema_fast_compiled := dset typ fcs (ps_schema_fast_compiled ps),
                    ps_schema_bare := dset typ (compile_schema_bare_names evs) (ps_schema_bare ps),
                    ps_schema_fast_bare := dset typ (compile_schema_bare_names fast) (ps_schema_fast_bare ps)\<rparr>))))
      | _ \<Rightarrow> Inl ValueError)"

definition feed_line :: "parser \<Rightarrow> string \<Rightarrow> parser res" where
  "feed_line ps0 line =
     (let i = ps_line_index ps0; ps = ps0\<lparr>ps_line_index := i + 1\<rparr>; s = lstrip line
      in case s of [] \<Rightarrow> Inr ps
         | c # _ \<Rightarrow>
             if py_isalpha c \<and> ps_insert ps then feed_stats_line ps s
             else if i \<ge> ps_start_idx ps \<and> py_isdigit c then feed_header ps s
             else if c = CHR ''!'' then feed_schema ps s
             else if c = CHR ''%'' then Inr (note_percent_mark ps s)
             else Inr ps)"

definition feed_lines :: "parser \<Rightarrow> string list \<Rightarrow> parser res" where
  "feed_lines ps lines = foldE feed_line ps lines"

definition finish :: "parser \<Rightarrow> (stats_row list \<times> proc_row list) \<times> parser" where
  "finish ps = (let (rows, ps') = take_proc_stats ps in ((stats_payload_to_records (Some (ps_stats_cols ps)), rows), ps'))"

subsection \<open>Buffers do not steer the parser\<close>

definition cols_append :: "stats_cols \<Rightarrow> stats_cols \<Rightarrow> stats_cols" where
  "cols_append a b = \<lparr>c_time = c_time a @ c_time b, c_host = c_host a @ c_host b, c_jid = c_jid a @ c_jid b,
     c_type = c_type a @ c_type b, c_dev = c_dev a @ c_dev b, c_event = c_event a @ c_event b,
     c_value = c_value a @ c_value b, c_wid = c_wid a @ c_wid b, c_mult = c_mult a @ c_mult b,
     c_unit = c_unit a @ c_unit b\<rparr>"

lemma cols_append_empty [simp]: "cols_append c empty_stats_columns = c" "cols_append empty_stats_columns c = c"
  by (simp_all add: cols_append_def empty_stats_columns_def)

lemma cols_append_assoc: "cols_append (cols_append a b) c = cols_append a (cols_append b c)"
  by (simp add: cols_append_def)

lemma append_compiled_split:
  "append_compiled_stats_columns cols t h j ty d c vs =
   bindE (append_compiled_stats_columns empty_stats_columns t h j ty d c vs) (\<lambda>e. Inr (cols_append cols e))"
  by (cases cols) (simp add: append_compiled_stats_columns_def Let_def bindE_assoc cols_append_def empty_stats_columns_def)

lemma append_vals_dict_split:
  "append_vals_dict_columns cols t h j ty d vd =
   bindE (append_vals_dict_columns empty_stats_columns t h j ty d vd) (\<lambda>e. Inr (cols_append cols e))"
  unfolding append_vals_dict_columns_def
  by (simp add: bindE_assoc flip: append_compiled_split)

definition clear_bufs :: "parser \<Rightarrow> parser" where
  "clear_bufs ps = ps\<lparr>ps_stats_cols := empty_stats_columns, ps_proc_by_key := [], ps_marks := []\<rparr>"

definition absorb :: "parser \<Rightarrow> parser \<Rightarrow> parser" where
  "absorb s t = t\<lparr>ps_stats_cols := cols_append (ps_stats_cols s) (ps_stats_cols t),
     ps_proc_by_key := foldl merge_proc_row_online (ps_proc_by_key s) (map snd (ps_proc_by_key t)),
     ps_marks := ps_marks s @ ps_marks t\<rparr>"

lemma absorb_clear [simp]: "absorb s (clear_bufs s) = s"
  by (simp add: absorb_def clear_bufs_def)

lemma clear_absorb [simp]: "clear_bufs (absorb s t) = clear_bufs t"
  by (simp add: absorb_def clear_bufs_def)

lemma clear_bufs_sel [simp]:
  "ps_start_idx (clear_bufs s) = ps_start_idx s" "ps_exclude_types_list (clear_bufs s) = ps_exclude_types_list s"
  "ps_line_index (clear_bufs s) = ps_line_index s" "ps_schema (clear_bufs s) = ps_schema s"
  "ps_schema_fast (clear_bufs s) = ps_schema_fast s" "ps_schema_compiled (clear_bufs s) = ps_schema_compiled s"
  "ps_schema_fast_compiled (clear_bufs s) = ps_schema_fast_compiled s" "ps_schema_bare (clear_bufs s) = ps_schema_bare s"
  "ps_schema_fast_bare (clear_bufs s) = ps_schema_fast_bare s" "ps_insert (clear_bufs s) = ps_insert s"
  "ps_tags (clear_bufs s) = ps_tags s" "ps_tags2 (clear_bufs s) = ps_tags2 s" "ps_arm_shared (clear_bufs s) = ps_arm_shared s"
  "ps_sample_shared (clear_bufs s) = ps_sample_shared s" "ps_store (clear_bufs s) = ps_store s"
  "ps_pending_marks (clear_bufs s) = ps_pending_marks s" "ps_stats_cols (clear_bufs s) = empty_stats_columns"
  "ps_proc_by_key (clear_bufs s) = []" "ps_marks (clear_bufs s) = []"
  by (simp_all add: clear_bufs_def)

lemma merge_online_single: "map snd (merge_proc_row_online [] r) = [r]"
  by (simp add: merge_proc_row_online_def Let_def)

lemma compiled_schema_for_split:
  "compiled_schema_for s typ fast = bindE (compiled_schema_for (clear_bufs s) typ fast) (\<lambda>(c, t). Inr (c, absorb s t))"
  by (cases s) (simp add: compiled_schema_for_def Let_def bindE_assoc put_compiled_def absorb_def clear_bufs_def
      split: option.splits)

lemma proc_bare_keys_for_split:
  "proc_bare_keys_for s typ ks fast =
   (fst (proc_bare_keys_for (clear_bufs s) typ ks fast), absorb s (snd (proc_bare_keys_for (clear_bufs s) typ ks fast)))"
  by (cases s) (simp add: proc_bare_keys_for_def Let_def absorb_def clear_bufs_def split: option.splits)

lemma feed_header_split: "feed_header s l = bindE (feed_header (clear_bufs s) l) (\<lambda>t. Inr (absorb s t))"
  by (cases s) (simp add: feed_header_def bindE_assoc bind_pending_marks_def absorb_def clear_bufs_def
      split: option.splits)

lemma feed_schema_split: "feed_schema s l = bindE (feed_schema (clear_bufs s) l) (\<lambda>t. Inr (absorb s t))"
proof (cases "length (split_ws_max 1 l) = 2")
  case True
  then obtain a b where "split_ws_max 1 l = [a, b]" using two_items by blast
  then show ?thesis by (cases s) (simp add: feed_schema_def bindE_assoc Let_def absorb_def clear_bufs_def)
qed (simp add: feed_schema_def case_two)

lemma queue_mark_split: "queue_mark s b = absorb s (queue_mark (clear_bufs s) b)"
  by (cases s) (simp add: queue_mark_def Let_def absorb_def clear_bufs_def split: option.splits mark_body.splits)

lemma note_percent_mark_split: "note_percent_mark s l = absorb s (note_percent_mark (clear_bufs s) l)"
proof -
  have "queue_mark (s\<lparr>ps_arm_shared := True\<rparr>) b = absorb s (queue_mark (clear_bufs s\<lparr>ps_arm_shared := True\<rparr>) b)" for b
    using queue_mark_split[of "s\<lparr>ps_arm_shared := True\<rparr>" b] by (cases s) (simp add: absorb_def clear_bufs_def)
  then show ?thesis
    using queue_mark_split[of s] by (simp add: note_percent_mark_def Let_def split: option.splits)
qed

lemma feed_proc_line_split:
  "feed_proc_line s typ dev vals = bindE (feed_proc_line (clear_bufs s) typ dev vals) (\<lambda>t. Inr (absorb s t))"
proof -
  have put: "(absorb s t)\<lparr>ps_proc_by_key := merge_proc_row_online (ps_proc_by_key (absorb s t)) r\<rparr> =
      absorb s (t\<lparr>ps_proc_by_key := merge_proc_row_online (ps_proc_by_key t) r\<rparr>)"
    if "ps_proc_by_key t = []" for t r
    using that by (simp add: absorb_def merge_online_single)
  have empty: "ps_proc_by_key (snd (proc_bare_keys_for (clear_bufs s) typ ks fast)) = []" for ks fast
    by (simp add: proc_bare_keys_for_def Let_def split: option.splits)
  show ?thesis
    by (simp add: feed_proc_line_def Let_def bindE_assoc case_prod_unfold proc_schema_keys_def
        proc_bare_keys_for_split[of s] put[OF empty] split: option.splits)
qed

lemma feed_counter_line_split:
  "feed_counter_line s typ dev vals toks = bindE (feed_counter_line (clear_bufs s) typ dev vals toks) (\<lambda>t. Inr (absorb s t))"
proof -
  have empty: "compiled_schema_for (clear_bufs s) typ fast = Inr (c, t) \<Longrightarrow> ps_stats_cols t = empty_stats_columns" for fast c t
    by (auto simp: compiled_schema_for_def Let_def bindE_Inr_iff put_compiled_def split: option.splits if_splits)
  have sel: "ps_tags (absorb s t) = ps_tags t" "ps_schema (absorb s t) = ps_schema t"
    "ps_sample_shared (absorb s t) = ps_sample_shared t"
    "ps_stats_cols (absorb s t) = cols_append (ps_stats_cols s) (ps_stats_cols t)" for t
    by (simp_all add: absorb_def)
  have put: "(absorb s t)\<lparr>ps_stats_cols := cols_append (ps_stats_cols s) c\<rparr> = absorb s (t\<lparr>ps_stats_cols := c\<rparr>)" for t c
    by (simp add: absorb_def)
  show ?thesis
  proof (cases "compiled_schema_for (clear_bufs s) typ (fst (split_tier vals) = Some ''@fast'')")
    case (Inl e)
    then show ?thesis
      by (simp add: feed_counter_line_def Let_def case_prod_unfold compiled_schema_for_split[of s])
  next
    case (Inr ct)
    obtain c t where ct: "ct = (c, t)" by (cases ct)
    note e = empty[OF Inr[unfolded ct]]
    show ?thesis
      using Inr ct
        append_compiled_split[of "ps_stats_cols s"] append_vals_dict_split[of "ps_stats_cols s"]
      by (simp add: feed_counter_line_def Let_def case_prod_unfold compiled_schema_for_split[of s] sel e bindE_assoc put
          split: option.splits)
         (auto intro!: bindE_cong simp: bindE_assoc split: option.splits)
  qed
qed

lemma feed_line_split: "feed_line s l = bindE (feed_line (clear_bufs s) l) (\<lambda>t. Inr (absorb s t))"
proof (cases "lstrip l")
  case (Cons c r)
  let ?n = "\<lambda>s :: parser. s\<lparr>ps_line_index := ps_line_index s + 1\<rparr>"
  have n: "clear_bufs (?n s) = ?n (clear_bufs s)" "absorb (?n s) t = absorb s t" for t
    by (simp_all add: clear_bufs_def absorb_def)
  have stats: "feed_stats_line (?n s) (c # r) = bindE (feed_stats_line (?n (clear_bufs s)) (c # r)) (\<lambda>t. Inr (absorb s t))"
  proof (cases "length (split_ws_max 2 (c # r)) = 3")
    case True
    then obtain ty dev rest where "split_ws_max 2 (c # r) = [ty, dev, rest]" using three_items by blast
    then show ?thesis
      using feed_proc_line_split[of "?n s" ty dev] feed_counter_line_split[of "?n s" ty dev] absorb_clear[of "?n s"]
      by (simp add: feed_stats_line_def Let_def n split: option.splits)
  qed (simp add: feed_stats_line_def case_three)
  show ?thesis
    using Cons stats feed_header_split[of "?n s"] feed_schema_split[of "?n s"] note_percent_mark_split[of "?n s"]
      absorb_clear[of "?n s"]
    by (simp add: feed_line_def Let_def n if_distrib[of "\<lambda>m. bindE m _"] cong: if_cong split del: if_split)
qed (simp add: feed_line_def Let_def absorb_def clear_bufs_def)

subsection \<open>Case analysis of a line\<close>

lemma proc_fields_distinct: "proc_fields ks vs = Inr fs \<Longrightarrow> distinct (keys fs)"
  unfolding proc_fields_def
  by (rule foldE_invariant[where I = "\<lambda>fs. distinct (keys fs)"])
     (auto simp: bindE_Inr_iff split: if_splits prod.splits)

lemma keyed_Nil [simp]: "proc.keyed []"
  by (simp add: proc.keyed_def)

lemma keyed_online: "proc.keyed d \<Longrightarrow> proc_row_ok r \<Longrightarrow> proc.keyed (merge_proc_row_online d r)"
  by (simp add: merge_proc_row_online_step proc.step_keyed_good)

lemma proc_bare_keys_for_proc [simp]: "ps_proc_by_key (snd (proc_bare_keys_for ps ty ks fast)) = ps_proc_by_key ps"
  by (simp add: proc_bare_keys_for_def Let_def split: option.splits)

lemma feed_stats_cases:
  assumes "feed_stats_line ps s = Inr ps'"
  obtains (skip) "ps' = ps"
  | (procs) ty dev vals where "feed_proc_line ps ty dev vals = Inr ps'"
  | (counter) ty dev vals toks where "dget (ps_schema ps) ty = Some toks" "feed_counter_line ps ty dev vals toks = Inr ps'"
proof (cases "length (split_ws_max 2 s) = 3")
  case True
  then obtain ty dev rest where "split_ws_max 2 s = [ty, dev, rest]" using three_items by blast
  then have eq: "(if ty \<in> set (ps_exclude_types_list ps) then Inr ps
       else if ty = ''proc'' \<or> ty = ''host_proc'' then feed_proc_line ps ty dev (split_ws rest)
       else (case dget (ps_schema ps) ty of None \<Rightarrow> Inr ps
             | Some toks \<Rightarrow> feed_counter_line ps ty dev (split_ws rest) toks)) = Inr ps'"
    using assms by (simp only: feed_stats_line_def Let_def list.case)
  show ?thesis
  proof (cases "ty \<in> set (ps_exclude_types_list ps)")
    case True
    then show ?thesis using eq by (intro skip) simp
  next
    case nex: False
    show ?thesis
    proof (cases "ty = ''proc'' \<or> ty = ''host_proc''")
      case True
      then show ?thesis using eq nex by (intro procs[of ty dev "split_ws rest"]) simp
    next
      case False
      then show ?thesis
        using eq nex skip counter[of ty _ dev "split_ws rest"] by (cases "dget (ps_schema ps) ty") auto
    qed
  qed
next
  case False
  then show ?thesis using assms by (simp add: feed_stats_line_def case_three)
qed

lemma feed_line_cases:
  assumes "feed_line ps0 l = Inr ps'" and "ps = ps0\<lparr>ps_line_index := ps_line_index ps0 + 1\<rparr>"
  obtains (skip) "ps' = ps"
  | (procs) ty dev vals where "ps_insert ps" "feed_proc_line ps ty dev vals = Inr ps'"
  | (counter) ty dev vals toks where "ps_insert ps" "dget (ps_schema ps) ty = Some toks"
      "feed_counter_line ps ty dev vals toks = Inr ps'"
  | (header) s where "feed_header ps s = Inr ps'"
  | (schema) s where "feed_schema ps s = Inr ps'"
  | (mark) s where "ps' = note_percent_mark ps s"
proof (cases "lstrip l")
  case Nil
  then show ?thesis using assms skip by (simp add: feed_line_def Let_def)
next
  case (Cons c r)
  show ?thesis
  proof (cases "py_isalpha c \<and> ps_insert ps")
    case True
    then have "feed_stats_line ps (c # r) = Inr ps'" using assms Cons by (simp add: feed_line_def Let_def)
    then show ?thesis using True procs counter skip by (cases rule: feed_stats_cases) auto
  next
    case False
    then have eq: "(if ps_line_index ps0 \<ge> ps_start_idx ps \<and> py_isdigit c then feed_header ps (c # r)
        else if c = CHR ''!'' then feed_schema ps (c # r)
        else if c = CHR ''%'' then Inr (note_percent_mark ps (c # r)) else Inr ps) = Inr ps'"
      using assms Cons by (simp only: feed_line_def Let_def list.case if_False)
    show ?thesis
    proof (cases "ps_line_index ps0 \<ge> ps_start_idx ps \<and> py_isdigit c")
      case True
      then show ?thesis using eq by (intro header) simp
    next
      case nh: False
      show ?thesis
      proof (cases "c = CHR ''!''")
        case True
        then show ?thesis using eq schema[of "c # r"] unfolding if_not_P[OF nh] if_P[OF True] by blast
      next
        case False
        have "(if c = CHR ''%'' then Inr (note_percent_mark ps (c # r)) else Inr ps) = (Inr ps' :: parser res)"
          using eq[unfolded if_not_P[OF nh] if_not_P[OF False]] .
        then show ?thesis using skip mark[of "c # r"] by (cases "c = CHR ''%''") auto
      qed
    qed
  qed
qed

lemma feed_proc_cases:
  assumes "feed_proc_line ps ty dev vals = Inr ps'"
  obtains t ks fast row where "ps_tags2 ps = Some t" "proc_row_ok row"
    "p_time row = t_time t" "p_host row = t_host t" "p_jid row = t_jid t" "p_device row = dev"
    "ps' = (snd (proc_bare_keys_for ps ty ks fast))\<lparr>ps_proc_by_key := merge_proc_row_online (ps_proc_by_key ps) row\<rparr>"
proof -
  from assms show ?thesis
    unfolding feed_proc_line_def Let_def case_prod_unfold
    using proc_fields_distinct
    by (cases "ps_tags2 ps") (auto simp: bindE_Inr_iff proc_row_ok_def intro!: that)
qed

lemma feed_counter_cases:
  assumes "feed_counter_line ps ty dev vals toks = Inr ps'"
  obtains (skip) "ps' = ps"
  | (cache) fast c t where "compiled_schema_for ps ty fast = Inr (c, t)" "ps' = t"
  | (plain) fast c t g d vs cols where "compiled_schema_for ps ty fast = Inr (c, t)" "ps_tags t = Some g"
      "append_compiled_stats_columns (ps_stats_cols t) (t_time g) (t_host g) (t_jid g) ty d c vs = Inr cols"
      "ps' = t\<lparr>ps_stats_cols := cols\<rparr>"
  | (legacy) fast c t g oty d vd cols where "compiled_schema_for ps ty fast = Inr (c, t)" "ps_tags t = Some g"
      "append_vals_dict_columns (ps_stats_cols t) (t_time g) (t_host g) (t_jid g) oty d vd = Inr cols"
      "ps' = t\<lparr>ps_stats_cols := cols\<rparr>"
proof (cases "fst (split_tier vals) = Some ''@fast'' \<and> schema_needs_legacy_hardware_decode ty toks")
  case True
  then show ?thesis using assms skip by (simp add: feed_counter_line_def Let_def case_prod_unfold)
next
  case False
  let ?fast = "fst (split_tier vals) = Some ''@fast''"
  from False assms obtain c t where ct: "compiled_schema_for ps ty ?fast = Inr (c, t)"
    unfolding feed_counter_line_def Let_def case_prod_unfold
    by (cases "compiled_schema_for ps ty ?fast") auto
  show ?thesis
  proof (cases "ps_tags t")
    case None
    then have "ps' = t" using assms False ct by (simp add: feed_counter_line_def Let_def case_prod_unfold)
    then show ?thesis using cache[OF ct] by blast
  next
    case (Some g)
    define leg where "leg = (\<not> ?fast \<and> schema_needs_legacy_hardware_decode ty toks)"
    define oty where "oty = (if leg then legacy_output_type ty else ty)"
    define d where "d = shared_row_dev dev oty (t_jid g) (ps_sample_shared t)"
    have eq: "(if leg then
        bindE (vals_dict_from_line ty (ps_schema t) toks (snd (split_tier vals)) True) (\<lambda>vd. case vd of None \<Rightarrow> Inr t
          | Some vals_dict \<Rightarrow> bindE (append_vals_dict_columns (ps_stats_cols t) (t_time g) (t_host g) (t_jid g) oty d vals_dict)
              (\<lambda>cols. Inr (t\<lparr>ps_stats_cols := cols\<rparr>)))
        else bindE (append_compiled_stats_columns (ps_stats_cols t) (t_time g) (t_host g) (t_jid g) oty d c
            (snd (split_tier vals))) (\<lambda>cols. Inr (t\<lparr>ps_stats_cols := cols\<rparr>))) = Inr ps'"
      using assms False ct Some
      by (simp only: feed_counter_line_def Let_def case_prod_unfold if_False bindE_simps prod.case fst_conv snd_conv option.case
          leg_def oty_def d_def)
    show ?thesis
    proof (cases leg)
      case True
      then obtain vd where vd: "(case vd of None \<Rightarrow> Inr t
          | Some vals_dict \<Rightarrow> bindE (append_vals_dict_columns (ps_stats_cols t) (t_time g) (t_host g) (t_jid g) oty d vals_dict)
              (\<lambda>cols. Inr (t\<lparr>ps_stats_cols := cols\<rparr>))) = Inr ps'"
        using eq by (simp only: if_True bindE_Inr_iff) blast
      show ?thesis
      proof (cases vd)
        case None
        then show ?thesis using vd by (intro cache[OF ct]) simp
      next
        case (Some vals_dict)
        then obtain cols where "append_vals_dict_columns (ps_stats_cols t) (t_time g) (t_host g) (t_jid g) oty d vals_dict = Inr cols"
            "ps' = t\<lparr>ps_stats_cols := cols\<rparr>"
          using vd by (simp only: option.case bindE_Inr_iff) auto
        then show ?thesis using legacy[OF ct \<open>ps_tags t = Some g\<close>] by blast
      qed
    next
      case nl: False
      then obtain cols where "append_compiled_stats_columns (ps_stats_cols t) (t_time g) (t_host g) (t_jid g) oty d c
            (snd (split_tier vals)) = Inr cols" "ps' = t\<lparr>ps_stats_cols := cols\<rparr>"
        using eq by (simp only: if_False bindE_Inr_iff) auto
      then show ?thesis using plain[OF ct Some] nl by (simp add: oty_def)
    qed
  qed
qed

lemma feed_header_cases:
  assumes "feed_header ps s = Inr ps'"
  obtains "ps' = ps"
  | t where "ps' = bind_pending_marks (ps\<lparr>ps_insert := True, ps_tags := Some t, ps_tags2 := Some t\<rparr>) (t_time t) (t_host t) (t_jid t)"
proof (cases "digit_line_identity s")
  case None
  then show ?thesis using assms that(1) by (simp add: feed_header_def)
next
  case (Some h)
  obtain t jid host where h: "h = (t, jid, host)" by (cases h)
  with Some assms obtain v where "ps' = bind_pending_marks (ps\<lparr>ps_insert := True,
      ps_tags := Some \<lparr>t_time = v, t_host = host, t_jid = jid\<rparr>,
      ps_tags2 := Some \<lparr>t_time = v, t_host = host, t_jid = jid\<rparr>\<rparr>) v host jid"
    by (auto simp: feed_header_def bindE_Inr_iff)
  then show ?thesis using that(2)[of "\<lparr>t_time = v, t_host = host, t_jid = jid\<rparr>"] by simp
qed

lemma feed_schema_cases:
  assumes "feed_schema ps s = Inr ps'"
  obtains ty evs cs fcs where "compile_schema_tokens evs = Inr cs" "compile_schema_tokens (fast_schema_keys evs) = Inr fcs"
    "ps' = ps\<lparr>ps_schema := dset ty evs (ps_schema ps),
                    ps_schema_fast := dset ty (fast_schema_keys evs) (ps_schema_fast ps),
                    ps_schema_compiled := dset ty cs (ps_schema_compiled ps),
                    ps_schema_fast_compiled := dset ty fcs (ps_schema_fast_compiled ps),
                    ps_schema_bare := dset ty (compile_schema_bare_names evs) (ps_schema_bare ps),
                    ps_schema_fast_bare := dset ty (compile_schema_bare_names (fast_schema_keys evs)) (ps_schema_fast_bare ps)\<rparr>"
proof (cases "length (split_ws_max 1 s) = 2")
  case True
  then obtain a b where "split_ws_max 1 s = [a, b]" using two_items by blast
  then show ?thesis using assms that by (auto simp: feed_schema_def Let_def bindE_Inr_iff)
next
  case False
  then show ?thesis using assms by (simp add: feed_schema_def case_two)
qed

lemma compiled_schema_for_cases:
  assumes "compiled_schema_for ps ty fast = Inr (c, t)"
  obtains (hit) "t = ps" "dget (if fast then ps_schema_fast_compiled ps else ps_schema_compiled ps) ty = Some c"
  | (empty) "t = ps" "c = empty_compiled_schema"
  | (miss) toks where "dget (if fast then ps_schema_fast ps else ps_schema ps) ty = Some toks"
      "compile_schema_tokens toks = Inr c" "t = put_compiled fast ty c (compile_schema_bare_names toks) ps"
proof (cases "dget (if fast then ps_schema_fast_compiled ps else ps_schema_compiled ps) ty")
  case (Some c')
  then show ?thesis using assms by (intro hit) (simp_all add: compiled_schema_for_def)
next
  case None
  let ?s = "if fast then ps_schema_fast ps else ps_schema ps"
  show ?thesis
  proof (cases "get_or [] ?s ty = []")
    case True
    then show ?thesis using assms None by (intro empty) (simp_all add: compiled_schema_for_def Let_def)
  next
    case False
    then have "dget ?s ty = Some (get_or [] ?s ty)"
      unfolding get_or_def by (cases "dget ?s ty") (simp_all only: option.case not_True_eq_False)
    moreover obtain cs where "compile_schema_tokens (get_or [] ?s ty) = Inr cs"
        "(c, t) = (cs, put_compiled fast ty cs (compile_schema_bare_names (get_or [] ?s ty)) ps)"
      using assms None False unfolding compiled_schema_for_def Let_def option.case if_False by (auto simp: bindE_Inr_iff)
    ultimately show ?thesis by (intro miss[of "get_or [] ?s ty"]) simp_all
  qed
qed

lemma feed_line_keyed:
  assumes "feed_line ps0 l = Inr ps'" "proc.keyed (ps_proc_by_key ps0)"
  shows "proc.keyed (ps_proc_by_key ps')"
proof -
  define ps where "ps = ps0\<lparr>ps_line_index := ps_line_index ps0 + 1\<rparr>"
  have k: "proc.keyed (ps_proc_by_key ps)" using assms(2) by (simp add: ps_def)
  from assms(1) ps_def show ?thesis
  proof (cases rule: feed_line_cases)
    case (procs ty dev vals)
    from procs(2) show ?thesis using keyed_online[OF k] by (cases rule: feed_proc_cases) simp
  next
    case (counter ty dev vals toks)
    have "compiled_schema_for ps ty fast = Inr (c, t) \<Longrightarrow> ps_proc_by_key t = ps_proc_by_key ps" for fast c t
      by (cases rule: compiled_schema_for_cases) (auto simp: put_compiled_def)
    with counter(3) show ?thesis using k by (cases rule: feed_counter_cases) auto
  next
    case (header s)
    then show ?thesis using k by (cases rule: feed_header_cases) (auto simp: bind_pending_marks_def)
  next
    case (schema s)
    then show ?thesis using k by (cases rule: feed_schema_cases) auto
  next
    case (mark s)
    then show ?thesis
      using k by (simp add: note_percent_mark_def queue_mark_def Let_def split: option.splits)
  qed (use k in simp)
qed

subsection \<open>Consumers with drainable buffers\<close>

locale buffered =
  fixes step :: "'s \<Rightarrow> 'l \<Rightarrow> 'e + 's" and core :: "'s \<Rightarrow> 'c" and out :: "'s \<Rightarrow> 'o"
    and emits :: "'c \<Rightarrow> 'l \<Rightarrow> 'e + 'c \<times> 'o" and comb :: "'o \<Rightarrow> 'o \<Rightarrow> 'o" and good :: "'o \<Rightarrow> bool"
  assumes step_error: "emits (core s) l = Inl e \<Longrightarrow> step s l = Inl e"
    and step_emits: "emits (core s) l = Inr (c, x) \<Longrightarrow>
      \<exists>s'. step s l = Inr s' \<and> core s' = c \<and> out s' = comb (out s) x \<and> good x"
    and good_comb: "good p \<Longrightarrow> good q \<Longrightarrow> good (comb p q)"
    and comb_assoc: "good q \<Longrightarrow> good r \<Longrightarrow> comb p (comb q r) = comb (comb p q) r"
begin

definition behind :: "'o \<Rightarrow> 's \<Rightarrow> 's \<Rightarrow> bool" where
  \<comment> \<open>\<open>s\<close> is \<open>w\<close> after its buffers lost \<open>a\<close> to earlier drains.\<close>
  "behind a s w \<longleftrightarrow> core s = core w \<and> out w = comb a (out s) \<and> good (out s)"

lemma behind_step:
  assumes "behind a s w"
  shows "case step s l of Inl e \<Rightarrow> step w l = Inl e | Inr s' \<Rightarrow> (\<exists>w'. step w l = Inr w' \<and> behind a s' w')"
proof (cases "emits (core s) l")
  case (Inl e)
  then show ?thesis using assms step_error[of s l e] step_error[of w l e] by (simp add: behind_def)
next
  case (Inr cx)
  obtain c x where cx: "cx = (c, x)" by (cases cx)
  obtain s' where s': "step s l = Inr s'" "core s' = c" "out s' = comb (out s) x" "good x"
    using step_emits Inr cx by blast
  obtain w' where w': "step w l = Inr w'" "core w' = c" "out w' = comb (out w) x"
    using step_emits[of w l c x] Inr cx assms by (auto simp: behind_def)
  show ?thesis using s' w' assms by (auto simp: behind_def good_comb comb_assoc)
qed

lemma behind_drain:
  assumes "behind a s w" "core s' = core s" "comb (comb a (out s)) (out s') = comb a (out s)" "good (out s')"
  shows "behind (comb a (out s)) s' w"
  using assms by (simp add: behind_def)

end

definition buffers :: "parser \<Rightarrow> stats_cols \<times> (proc_key \<times> proc_row) list" where
  "buffers ps = (ps_stats_cols ps, ps_proc_by_key ps)"

definition join_buffers :: "stats_cols \<times> (proc_key \<times> proc_row) list \<Rightarrow> stats_cols \<times> (proc_key \<times> proc_row) list
    \<Rightarrow> stats_cols \<times> (proc_key \<times> proc_row) list" where
  "join_buffers a b = (cols_append (fst a) (fst b), foldl merge_proc_row_online (snd a) (map snd (snd b)))"

definition line_emits :: "parser \<Rightarrow> string \<Rightarrow> (parser \<times> stats_cols \<times> (proc_key \<times> proc_row) list) res" where
  "line_emits c l = bindE (feed_line c l) (\<lambda>t. Inr (clear_bufs t, buffers t))"

interpretation buf: buffered feed_line clear_bufs buffers line_emits join_buffers "\<lambda>b. proc.keyed (snd b)"
proof (unfold_locales, goal_cases)
  case (1 s l e)
  then show ?case by (subst feed_line_split) (auto simp: line_emits_def bindE_Inl_iff)
next
  case (2 s l c x)
  then obtain t where t: "feed_line (clear_bufs s) l = Inr t" "c = clear_bufs t" "x = buffers t"
    by (auto simp: line_emits_def bindE_Inr_iff)
  moreover from t(1) have "feed_line s l = Inr (absorb s t)" by (subst feed_line_split) simp
  moreover have "buffers (absorb s t) = join_buffers (buffers s) (buffers t)"
    by (simp add: buffers_def join_buffers_def absorb_def)
  moreover have "proc.keyed (ps_proc_by_key t)" using feed_line_keyed[OF t(1)] by simp
  ultimately show ?case by (auto simp: buffers_def)
next
  case (3 p q)
  have "proc.keyed d \<Longrightarrow> \<forall>r \<in> set rs. proc_row_ok r \<Longrightarrow> proc.keyed (foldl merge_proc_row_online d rs)" for d rs
    by (induction rs arbitrary: d) (auto intro: keyed_online)
  moreover have "\<forall>r \<in> set (map snd (snd q)). proc_row_ok r" using 3 by (auto simp: proc.keyed_def)
  ultimately show ?case using 3 by (simp add: join_buffers_def)
next
  case (4 q r p)
  have "\<forall>x \<in> set (map snd (snd r)). proc_row_ok x" using 4 by (auto simp: proc.keyed_def)
  then show ?case
    using 4 proc.fold_assoc[of "snd q" "map snd (snd r)" "snd p"]
    by (simp add: join_buffers_def cols_append_assoc merge_proc_row_online_step)
qed

subsection \<open>Parser invariant\<close>

definition cache_ok :: "(string \<times> string list) list \<Rightarrow> (string \<times> compiled_schema) list \<Rightarrow> bool" where
  "cache_ok schema compiled \<longleftrightarrow> (\<forall>ty c. dget compiled ty = Some c \<longrightarrow>
     (\<exists>toks. dget schema ty = Some toks \<and> compile_schema_tokens toks = Inr c))"

definition marks_ok :: "parser \<Rightarrow> bool" where
  "marks_ok ps \<longleftrightarrow> distinct (ps_marks ps) \<and> set (ps_marks ps) \<subseteq> {..<length (ps_store ps)} \<and>
     distinct (ps_pending_marks ps) \<and> set (ps_pending_marks ps) \<subseteq> set (ps_marks ps) \<and>
     (\<forall>i < length (ps_store ps). m_time (ps_store ps ! i) = None \<longleftrightarrow> i \<in> set (ps_pending_marks ps)) \<and>
     (ps_tags ps \<noteq> None \<longrightarrow> ps_pending_marks ps = [])"

definition parser_ok :: "parser \<Rightarrow> bool" where
  "parser_ok ps \<longleftrightarrow> (ps_insert ps \<longrightarrow> ps_tags ps \<noteq> None) \<and> ps_tags2 ps = ps_tags ps \<and>
     cols_aligned (ps_stats_cols ps) \<and> proc.keyed (ps_proc_by_key ps) \<and>
     cache_ok (ps_schema ps) (ps_schema_compiled ps) \<and> cache_ok (ps_schema_fast ps) (ps_schema_fast_compiled ps) \<and>
     (\<forall>ty. dget (ps_schema_fast ps) ty = map_option fast_schema_keys (dget (ps_schema ps) ty)) \<and> marks_ok ps"

lemma cache_ok_put: "cache_ok schema compiled \<Longrightarrow> compile_schema_tokens toks = Inr c \<Longrightarrow>
   cache_ok (dset ty toks schema) (dset ty c compiled)"
  by (auto simp: cache_ok_def)

lemma cache_ok_fill: "cache_ok schema compiled \<Longrightarrow> dget schema ty = Some toks \<Longrightarrow> compile_schema_tokens toks = Inr c \<Longrightarrow>
   cache_ok schema (dset ty c compiled)"
  by (auto simp: cache_ok_def)

lemma compiled_schema_for_ok:
  assumes "compiled_schema_for ps ty fast = Inr (c, t)" "parser_ok ps"
  shows "parser_ok t \<and> compiled_aligned c \<and> ps_tags t = ps_tags ps \<and> ps_insert t = ps_insert ps"
  using assms(1)
proof (cases rule: compiled_schema_for_cases)
  case hit
  then obtain toks where "compile_schema_tokens toks = Inr c"
    using assms(2) by (fastforce simp: parser_ok_def cache_ok_def split: if_splits)
  then show ?thesis using hit assms(2) compile_schema_tokens_aligned by blast
next
  case empty
  then show ?thesis using assms(2) by simp
next
  case (miss toks)
  then show ?thesis
    using assms(2) compile_schema_tokens_aligned[OF miss(2)] cache_ok_fill[OF _ _ miss(2)]
    by (cases fast) (auto simp: put_compiled_def parser_ok_def marks_ok_def)
qed

lemma queue_mark_ok: "parser_ok ps \<Longrightarrow> parser_ok (queue_mark ps b)"
  by (cases "ps_tags ps")
     (auto simp: queue_mark_def Let_def parser_ok_def marks_ok_def new_mark_def nth_append less_Suc_eq split: mark_body.splits)

lemma note_percent_mark_ok: "parser_ok ps \<Longrightarrow> parser_ok (note_percent_mark ps s)"
proof -
  assume ok: "parser_ok ps"
  then have "parser_ok (ps\<lparr>ps_arm_shared := True\<rparr>)" by (simp add: parser_ok_def marks_ok_def)
  then show ?thesis
    using ok by (auto simp: note_percent_mark_def Let_def intro: queue_mark_ok split: option.splits)
qed

lemma bind_pending_ok:
  assumes "parser_ok ps"
  shows "parser_ok (bind_pending_marks (ps\<lparr>ps_insert := True, ps_tags := Some t, ps_tags2 := Some t\<rparr>) when host jid)"
proof -
  have m: "marks_ok ps" using assms by (simp add: parser_ok_def)
  then have "unbound (ps_store ps) (ps_pending_marks ps)" by (auto simp: marks_ok_def unbound_def)
  then have "foldl (bind_mark when host) (ps_store ps) (ps_pending_marks ps) =
      resolve (Some (when, host)) (ps_store ps) (ps_pending_marks ps)" by (rule foldl_bind_mark)
  moreover have "i < length (ps_store ps) \<Longrightarrow> m_time (resolve (Some (when, host)) (ps_store ps) (ps_pending_marks ps) ! i) \<noteq> None" for i
    using m by (auto simp: resolve_def set_header_def marks_ok_def)
  ultimately show ?thesis
    using assms m by (auto simp: parser_ok_def marks_ok_def bind_pending_marks_def resolve_def)
qed

lemma append_vals_dict_aligned:
  "cols_aligned cols \<Longrightarrow> append_vals_dict_columns cols t h j ty d vd = Inr cols' \<Longrightarrow> cols_aligned cols'"
  by (auto simp: append_vals_dict_columns_def bindE_Inr_iff split: if_splits
      intro: append_compiled_aligned compile_schema_tokens_aligned)

lemma parser_ok_cols: "parser_ok ps \<Longrightarrow> cols_aligned cols \<Longrightarrow> parser_ok (ps\<lparr>ps_stats_cols := cols\<rparr>)"
  by (simp add: parser_ok_def marks_ok_def)

lemma feed_line_ok:
  assumes "feed_line ps0 l = Inr ps'" "parser_ok ps0"
  shows "parser_ok ps'"
proof -
  define ps where "ps = ps0\<lparr>ps_line_index := ps_line_index ps0 + 1\<rparr>"
  have ok: "parser_ok ps" using assms(2) by (simp add: ps_def parser_ok_def marks_ok_def)
  then have al: "cols_aligned (ps_stats_cols ps)" by (simp add: parser_ok_def)
  from assms(1) ps_def show ?thesis
  proof (cases rule: feed_line_cases)
    case (procs ty dev vals)
    from procs(2) show ?thesis
    proof (cases rule: feed_proc_cases)
      case (1 t ks fast row)
      have "parser_ok (snd (proc_bare_keys_for ps ty ks fast))"
        using ok by (simp add: proc_bare_keys_for_def Let_def parser_ok_def marks_ok_def split: option.splits)
      then show ?thesis using 1 ok keyed_online by (simp add: parser_ok_def marks_ok_def)
    qed
  next
    case (counter ty dev vals toks)
    from counter(3) show ?thesis
    proof (cases rule: feed_counter_cases)
      case (cache fast c t)
      then show ?thesis using compiled_schema_for_ok ok by blast
    next
      case (plain fast c t g d vs cols)
      then have "parser_ok t" "compiled_aligned c" using compiled_schema_for_ok ok by blast+
      then show ?thesis
        using plain append_compiled_aligned[of "ps_stats_cols t" c] parser_ok_cols by (simp add: parser_ok_def)
    next
      case (legacy fast c t g oty d vd cols)
      then have "parser_ok t" using compiled_schema_for_ok ok by blast
      then show ?thesis
        using legacy append_vals_dict_aligned[of "ps_stats_cols t"] parser_ok_cols by (simp add: parser_ok_def)
    qed (use ok in simp)
  next
    case (header s)
    then show ?thesis using ok bind_pending_ok by (cases rule: feed_header_cases) auto
  next
    case (schema s)
    then show ?thesis
    proof (cases rule: feed_schema_cases)
      case (1 ty evs cs fcs)
      then show ?thesis using ok cache_ok_put by (auto simp: parser_ok_def marks_ok_def)
    qed
  next
    case (mark s)
    then show ?thesis using ok note_percent_mark_ok by simp
  qed (use ok in simp)
qed

lemma new_parser_ok: "parser_ok (new_parser k ex)"
  by (simp add: parser_ok_def new_parser_def marks_ok_def cache_ok_def)

inductive parser_reach :: "parser \<Rightarrow> bool" where
  new: "parser_reach (new_parser k ex)"
| feed: "parser_reach ps \<Longrightarrow> feed_line ps l = Inr ps' \<Longrightarrow> parser_reach ps'"
| take_stats: "parser_reach ps \<Longrightarrow> parser_reach (snd (take_stats_columns ps))"
| take_proc: "parser_reach ps \<Longrightarrow> parser_reach (snd (take_proc_stats ps))"
| take_proc_columns: "parser_reach ps \<Longrightarrow> parser_reach (snd (take_proc_stats_columns ps))"
| take_marks: "parser_reach ps \<Longrightarrow> parser_reach (snd (take_ready_marks ps))"

lemma take_ready_marks_ok: "parser_ok ps \<Longrightarrow> parser_ok (snd (take_ready_marks ps))"
proof -
  assume ok: "parser_ok ps"
  then have m: "marks_ok ps" by (simp add: parser_ok_def)
  have "\<not> mark_ready (ps_store ps) i" if "i \<in> set (ps_pending_marks ps)" for i
  proof -
    have "i < length (ps_store ps)" using m that unfolding marks_ok_def by blast
    then have "m_time (ps_store ps ! i) = None" using m that unfolding marks_ok_def by blast
    then show ?thesis by (simp add: mark_ready_def)
  qed
  then show ?thesis using ok by (auto simp: take_ready_marks_def parser_ok_def marks_ok_def)
qed

text \<open>C9. In every state the parser can reach by feeding lines and draining its buffers, in any
  order: a stats line is only accepted under an open sample header, all columns have the
  same length, the process dictionary is keyed by its own rows, both compiled-schema caches
  hold exactly the compilation of the current schema, the fast schema is derived from the
  full one, and a queued mark is unbound exactly when it still waits for a header.\<close>

theorem parser_reach_ok: "parser_reach ps \<Longrightarrow> parser_ok ps"
proof (induction rule: parser_reach.induct)
  case (new k ex)
  then show ?case by (rule new_parser_ok)
next
  case (feed ps l ps')
  then show ?case using feed_line_ok by blast
next
  case (take_marks ps)
  then show ?case using take_ready_marks_ok by blast
qed (simp_all add: take_stats_columns_def take_proc_stats_def take_proc_stats_columns_def
     parser_ok_def marks_ok_def)

definition sample_fed :: parser where
  "sample_fed = projr (feed_lines (new_parser 0 None)
     [''!cpu user,E,W=48 nice,E,R=S'', ''%jobs jids=42'', ''1710000001 42 hosta'', ''cpu 0 7 9'', ''cpu 1 @fast 8''])"

lemma sample_fed_reach: "parser_reach sample_fed"
proof -
  have reach: "foldE feed_line ps ls = Inr ps' \<Longrightarrow> parser_reach ps \<Longrightarrow> parser_reach ps'" for ps ps' ls
    by (rule foldE_invariant[where I = parser_reach]) (auto intro: parser_reach.feed)
  have "\<not> isl (feed_lines (new_parser 0 None)
     [''!cpu user,E,W=48 nice,E,R=S'', ''%jobs jids=42'', ''1710000001 42 hosta'', ''cpu 0 7 9'', ''cpu 1 @fast 8''])"
    by code_simp
  then show ?thesis
    unfolding sample_fed_def feed_lines_def using reach parser_reach.new by (metis sum.collapse(2))
qed

theorem parser_reach_ok_witness: "parser_ok sample_fed \<and> length (c_time (ps_stats_cols sample_fed)) = 3"
proof
  show "parser_ok sample_fed" using sample_fed_reach by (rule parser_reach_ok)
  show "length (c_time (ps_stats_cols sample_fed)) = 3" by code_simp
qed

end
