(* ===== verification/Stats_Streaming.thy ===== *)
theory Stats_Streaming
  imports Stats_Parser
begin

text \<open>
  The drivers of the stats parser (\<^verbatim>\<open>parse_stats_lines\<close>, \<^verbatim>\<open>parse_stats_file_streaming\<close>,
  \<^verbatim>\<open>parse_stats_file_streaming_incremental\<close> of \<^verbatim>\<open>dbload/lib/sync_timedb_parsing.py\<close>): a file is
  read in line batches, complete samples are flushed in windows bounded by rows or bytes, and
  a run may resume at a line index. The lemmas show that windows recombine to the
  uninterrupted parse (through the interpretation \<open>buf\<close> of the parser's buffers), and that
  resuming keeps every schema line of the skipped part.
\<close>

subsection \<open>Drivers\<close>

function file_batches :: "nat \<Rightarrow> string \<Rightarrow> string list list" where
  \<comment> \<open>The successive results of \<^verbatim>\<open>_read_stats_line_batch_decode_after_lock\<close> until an empty one.\<close>
  "file_batches n s =
     (let (batch, r) = read_stats_line_batch n s in if batch = [] then [] else batch # file_batches n r)"
  by pat_completeness auto
termination
proof (relation "measure (length \<circ> snd)", goal_cases)
  case (2 n s z batch r)
  then have "s = concat batch @ r" "[] \<notin> set batch" using read_batch_append[of n s batch r] by simp_all
  with 2 show ?case by (cases batch) auto
qed simp

declare file_batches.simps [simp del]

definition parse_stats_lines ::
  "string list \<Rightarrow> int \<Rightarrow> string list option \<Rightarrow> ((stats_row list \<times> proc_row list) \<times> mark list) res" where
  \<comment> \<open>The parse by \<^verbatim>\<open>IncrementalStatsParser\<close>, with the marks handed to the side-table flush; the
     optional compiled extension is not consulted.\<close>
  "parse_stats_lines lines start_idx exclude_types_list =
     bindE (feed_lines (new_parser start_idx exclude_types_list) lines) (\<lambda>ps.
       let (finished, ps') = finish ps in Inr (finished, fst (take_ready_marks ps')))"

definition parse_stats_file_streaming ::
  "string option \<Rightarrow> int \<Rightarrow> int \<Rightarrow> nat \<Rightarrow> string list option \<Rightarrow> ((stats_row list \<times> proc_row list) \<times> mark list) res" where
  "parse_stats_file_streaming file start_line_idx parse_start_idx batch_size exclude_types_list =
     (let emission_start = max start_line_idx parse_start_idx in
      case file of None \<Rightarrow> Inr (([], []), [])
      | Some content \<Rightarrow>
          bindE (foldE feed_lines (new_parser emission_start exclude_types_list) (file_batches batch_size content))
            (\<lambda>ps. let (finished, ps') = finish ps in Inr (finished, fst (take_ready_marks ps'))))"

definition line_starts_time_sample :: "string \<Rightarrow> int \<Rightarrow> int \<Rightarrow> bool" where
  "line_starts_time_sample line line_index start_idx = (starts_with_digit (lstrip line) \<and> line_index \<ge> start_idx)"

type_synonym chunk = "stats_cols \<times> (string \<times> cell list) list"

record window =
  w_parser :: parser
  w_pending_flush :: bool
  w_window_start :: int
  w_chunks :: "chunk list"
  w_marks :: "mark list"

datatype flush_limit = FlushBytes int | FlushRows int

definition flush_limit_of :: "int option \<Rightarrow> int option \<Rightarrow> flush_limit" where
  "flush_limit_of flush_rows flush_max_bytes =
     (case flush_max_bytes of Some n \<Rightarrow> FlushBytes (max 1 (if n = 0 then 1 else n))
      | None \<Rightarrow> FlushRows (max 1 (case flush_rows of None \<Rightarrow> 1 | Some n \<Rightarrow> if n = 0 then 1 else n)))"

definition over_threshold :: "flush_limit \<Rightarrow> int \<Rightarrow> window \<Rightarrow> bool" where
  "over_threshold limit batch_end w =
     (case limit of FlushBytes n \<Rightarrow> batch_end - w_window_start w \<ge> n
      | FlushRows n \<Rightarrow> int (stats_len (w_parser w)) \<ge> n)"

definition has_rows :: "parser \<Rightarrow> bool" where
  "has_rows ps = (stats_len ps \<noteq> 0 \<or> ps_proc_by_key ps \<noteq> [])"

definition take_chunk :: "parser \<Rightarrow> chunk \<times> parser" where
  "take_chunk ps = (let (cols, ps1) = take_stats_columns ps; (pcols, ps2) = take_proc_stats_columns ps1 in ((cols, pcols), ps2))"

definition window_line :: "flush_limit \<Rightarrow> int \<Rightarrow> window \<Rightarrow> string \<Rightarrow> window res" where
  "window_line limit batch_end w line =
     (let ps = w_parser w;
          w1 = (if line_starts_time_sample line (ps_line_index ps) (ps_start_idx ps)
                   \<and> (w_pending_flush w \<or> over_threshold limit batch_end w) then
                  (if has_rows ps then
                     (let (chunk, ps') = take_chunk ps in
                      w\<lparr>w_parser := ps', w_chunks := w_chunks w @ [chunk], w_window_start := batch_end,
                        w_pending_flush := False\<rparr>)
                   else w\<lparr>w_pending_flush := False\<rparr>)
                else w)
      in bindE (feed_line (w_parser w1) line) (\<lambda>ps2.
           let w2 = w1\<lparr>w_parser := ps2\<rparr> in
           Inr (if over_threshold limit batch_end w2 then w2\<lparr>w_pending_flush := True\<rparr> else w2)))"

definition flush_incremental_side_marks :: "window \<Rightarrow> window" where
  "flush_incremental_side_marks w =
     (let (ready, ps) = take_ready_marks (w_parser w) in w\<lparr>w_parser := ps, w_marks := w_marks w @ ready\<rparr>)"

definition window_batch :: "flush_limit \<Rightarrow> window \<times> int \<Rightarrow> string list \<Rightarrow> (window \<times> int) res" where
  "window_batch limit wp batch =
     (let (w, pos) = wp; batch_end = pos + int (length (concat batch)) in
      bindE (foldE (window_line limit batch_end) w batch) (\<lambda>w'. Inr (flush_incremental_side_marks w', batch_end)))"

definition final_chunk :: "window \<Rightarrow> window" where
  "final_chunk w =
     (if has_rows (w_parser w) then
        (let (chunk, ps) = take_chunk (w_parser w) in
         flush_incremental_side_marks (w\<lparr>w_parser := ps, w_chunks := w_chunks w @ [chunk]\<rparr>))
      else w)"

definition parse_stats_file_streaming_incremental ::
  "string option \<Rightarrow> int \<Rightarrow> int \<Rightarrow> int option \<Rightarrow> int option \<Rightarrow> nat \<Rightarrow> string list option \<Rightarrow> (chunk list \<times> mark list) res" where
  \<comment> \<open>The arguments of the \<^verbatim>\<open>on_chunk\<close> calls in order and the marks flushed (the path without the
     compiled extension).\<close>
  "parse_stats_file_streaming_incremental file start_line_idx parse_start_idx flush_rows flush_max_bytes
     line_batch_size exclude_types_list =
     (case file of None \<Rightarrow> Inr ([], [])
      | Some content \<Rightarrow>
          (let emission_start = max start_line_idx parse_start_idx;
               w0 = \<lparr>w_parser = new_parser emission_start exclude_types_list, w_pending_flush = False,
                     w_window_start = 0, w_chunks = [], w_marks = []\<rparr>
           in bindE (foldE (window_batch (flush_limit_of flush_rows flush_max_bytes)) (w0, 0)
                       (file_batches line_batch_size content))
                (\<lambda>(w, _). let w' = final_chunk w in Inr (w_chunks w', w_marks w'))))"

subsection \<open>Windows recombine\<close>

lemma records_append:
  "cols_aligned a \<Longrightarrow> cols_aligned b \<Longrightarrow> stats_payload_to_records (Some (cols_append a b)) =
   stats_payload_to_records (Some a) @ stats_payload_to_records (Some b)"
  by (auto simp: stats_payload_to_records_def stats_payload_row_count_def cols_append_def cols_aligned_def
      upt_append_shift nth_append intro!: map_cong)

lemma cols_aligned_append: "cols_aligned a \<Longrightarrow> cols_aligned b \<Longrightarrow> cols_aligned (cols_append a b)"
  by (simp add: cols_aligned_def cols_append_def)

definition drained :: "chunk list \<Rightarrow> stats_cols \<times> (proc_key \<times> proc_row) list \<Rightarrow> bool" where
  \<comment> \<open>\<open>b\<close> is what the chunks took from the buffers.\<close>
  "drained chunks b \<longleftrightarrow> (\<forall>c \<in> set chunks. cols_aligned (fst c)) \<and> fst b = foldl cols_append empty_stats_columns (map fst chunks) \<and>
     (\<exists>rowss. map snd chunks = map proc_rows_to_columns rowss \<and> snd b = foldl merge_proc_row_online [] (concat rowss))"

definition window_sync :: "window \<Rightarrow> parser \<Rightarrow> bool" where
  "window_sync w ps \<longleftrightarrow> parser_ok (w_parser w) \<and> (\<exists>b. drained (w_chunks w) b \<and> buf.behind b (w_parser w) ps)"

lemma window_syncI: "parser_ok (w_parser w) \<Longrightarrow> drained (w_chunks w) b \<Longrightarrow> buf.behind b (w_parser w) ps \<Longrightarrow> window_sync w ps"
  unfolding window_sync_def by blast

lemma drained_push:
  assumes "drained chunks b" "cols_aligned cols"
  shows "drained (chunks @ [(cols, proc_rows_to_columns (map snd d))]) (join_buffers b (cols, d))"
proof -
  obtain rowss where "map snd chunks = map proc_rows_to_columns rowss" "snd b = foldl merge_proc_row_online [] (concat rowss)"
    using assms by (auto simp: drained_def)
  then have "\<exists>rs. map snd (chunks @ [(cols, proc_rows_to_columns (map snd d))]) = map proc_rows_to_columns rs \<and>
      snd (join_buffers b (cols, d)) = foldl merge_proc_row_online [] (concat rs)"
    by (intro exI[of _ "rowss @ [map snd d]"]) (simp add: join_buffers_def)
  moreover have "fst (join_buffers b (cols, d)) =
      foldl cols_append empty_stats_columns (map fst (chunks @ [(cols, proc_rows_to_columns (map snd d))]))"
    using assms(1) by (simp add: join_buffers_def drained_def)
  ultimately show ?thesis using assms unfolding drained_def by (auto simp del: map_append)
qed

lemma take_chunk_sync:
  assumes "window_sync w ps" "take_chunk (w_parser w) = (chunk, ps1)"
  shows "window_sync (w\<lparr>w_parser := ps1, w_chunks := w_chunks w @ [chunk], w_window_start := ws, w_pending_flush := pf\<rparr>) ps"
proof -
  obtain b where b: "drained (w_chunks w) b" "buf.behind b (w_parser w) ps" and ok: "parser_ok (w_parser w)"
    using assms(1) by (auto simp: window_sync_def)
  have c: "chunk = (ps_stats_cols (w_parser w), proc_rows_to_columns (map snd (ps_proc_by_key (w_parser w))))"
    "ps1 = (w_parser w)\<lparr>ps_stats_cols := empty_stats_columns, ps_proc_by_key := []\<rparr>"
    using assms(2) by (auto simp: take_chunk_def Let_def take_stats_columns_def take_proc_stats_columns_def)
  have ok1: "parser_ok ps1" using ok by (simp add: c parser_ok_def marks_ok_def)
  have "drained (w_chunks w @ [chunk]) (join_buffers b (buffers (w_parser w)))"
    using drained_push[OF b(1)] ok by (simp add: c buffers_def parser_ok_def)
  moreover have "buf.behind (join_buffers b (buffers (w_parser w))) ps1 ps"
    using b(2) by (rule buf.behind_drain) (simp_all add: c clear_bufs_def buffers_def join_buffers_def)
  ultimately show ?thesis using ok1 by (intro window_syncI) simp_all
qed

lemma flush_marks_sync: "window_sync w ps \<Longrightarrow> window_sync (flush_incremental_side_marks w) ps"
proof -
  assume s: "window_sync w ps"
  have "clear_bufs (snd (take_ready_marks p)) = clear_bufs p" "buffers (snd (take_ready_marks p)) = buffers p" for p
    by (simp_all add: take_ready_marks_def clear_bufs_def buffers_def)
  then show ?thesis
    using s take_ready_marks_ok[of "w_parser w"]
    by (auto simp: window_sync_def flush_incremental_side_marks_def Let_def case_prod_unfold buf.behind_def)
qed

lemma window_line_sync:
  assumes "window_sync w ps"
  shows "case window_line limit batch_end w line of Inl e \<Rightarrow> feed_line ps line = Inl e
    | Inr w' \<Rightarrow> \<exists>ps'. feed_line ps line = Inr ps' \<and> window_sync w' ps'"
proof -
  define w1 where "w1 = (if line_starts_time_sample line (ps_line_index (w_parser w)) (ps_start_idx (w_parser w))
       \<and> (w_pending_flush w \<or> over_threshold limit batch_end w) then
      (if has_rows (w_parser w) then
         (let (chunk, ps') = take_chunk (w_parser w) in
          w\<lparr>w_parser := ps', w_chunks := w_chunks w @ [chunk], w_window_start := batch_end, w_pending_flush := False\<rparr>)
       else w\<lparr>w_pending_flush := False\<rparr>) else w)"
  have s1: "window_sync w1 ps"
    using assms take_chunk_sync[OF assms] by (auto simp: w1_def window_sync_def split: prod.splits)
  then obtain b where b: "drained (w_chunks w1) b" "buf.behind b (w_parser w1) ps" "parser_ok (w_parser w1)"
    by (auto simp: window_sync_def)
  note step = buf.behind_step[OF b(2), of line]
  have eq: "window_line limit batch_end w line = bindE (feed_line (w_parser w1) line) (\<lambda>ps2.
       let w2 = w1\<lparr>w_parser := ps2\<rparr> in
       Inr (if over_threshold limit batch_end w2 then w2\<lparr>w_pending_flush := True\<rparr> else w2))"
    unfolding window_line_def w1_def Let_def ..
  show ?thesis
  proof (cases "feed_line (w_parser w1) line")
    case (Inl e)
    then show ?thesis using step by (simp add: eq)
  next
    case (Inr p2)
    then obtain ps' where "feed_line ps line = Inr ps'" "buf.behind b p2 ps'" using step by auto
    moreover have "parser_ok p2" using feed_line_ok[OF Inr b(3)] .
    ultimately show ?thesis using b(1) by (auto simp: eq Inr Let_def intro!: window_syncI)
  qed
qed

lemma window_batch_sync:
  assumes "window_sync (fst wp) ps"
  shows "case window_batch limit wp batch of Inl e \<Rightarrow> feed_lines ps batch = Inl e
    | Inr wp' \<Rightarrow> \<exists>ps'. feed_lines ps batch = Inr ps' \<and> window_sync (fst wp') ps'"
proof -
  obtain w pos where wp: "wp = (w, pos)" by (cases wp)
  let ?be = "pos + int (length (concat batch))"
  from foldE_sim[where R = window_sync and f = "window_line limit ?be" and g = feed_line and s = w and t = ps and xs = batch,
      OF window_line_sync] assms wp
  have "case foldE (window_line limit ?be) w batch of Inl e \<Rightarrow> foldE feed_line ps batch = Inl e
    | Inr w' \<Rightarrow> \<exists>ps'. foldE feed_line ps batch = Inr ps' \<and> window_sync w' ps'" by simp
  then show ?thesis
    by (cases "foldE (window_line limit ?be) w batch")
       (auto simp: window_batch_def wp feed_lines_def flush_marks_sync)
qed

lemma concat_file_batches: "0 < n \<Longrightarrow> concat (file_batches n s) = iter_file_lines n s"
proof (induction n s rule: file_batches.induct)
  case (1 n s)
  then show ?case by (simp add: file_batches.simps[of n s] iter_file_lines.simps[of n s] split: prod.splits)
qed

lemma feed_batches: "foldE feed_lines ps batches = feed_lines ps (concat batches)"
  by (induction batches arbitrary: ps) (simp_all add: feed_lines_def foldE_append)

lemma records_fold:
  "\<forall>c \<in> set cs. cols_aligned c \<Longrightarrow> cols_aligned a \<Longrightarrow>
   cols_aligned (foldl cols_append a cs) \<and>
   stats_payload_to_records (Some (foldl cols_append a cs)) =
     stats_payload_to_records (Some a) @ concat (map (\<lambda>c. stats_payload_to_records (Some c)) cs)"
  by (induction cs arbitrary: a) (auto simp: records_append cols_aligned_append)

lemma records_empty [simp]: "stats_payload_to_records (Some empty_stats_columns) = []"
  by (simp add: stats_payload_to_records_def stats_payload_row_count_def empty_stats_columns_def)

lemma drained_records:
  assumes "drained chunks b"
  shows "stats_payload_to_records (Some (fst b)) = concat (map (\<lambda>c. stats_payload_to_records (Some (fst c))) chunks)"
  using records_fold[of "map fst chunks" empty_stats_columns] assms by (auto simp: drained_def comp_def)

lemma final_chunk_drained:
  assumes "window_sync w ps"
  shows "drained (w_chunks (final_chunk w)) (buffers ps)"
proof (cases "has_rows (w_parser w)")
  case True
  obtain chunk p where t: "take_chunk (w_parser w) = (chunk, p)" by (cases "take_chunk (w_parser w)")
  let ?w = "w\<lparr>w_parser := p, w_chunks := w_chunks w @ [chunk], w_window_start := w_window_start w,
      w_pending_flush := w_pending_flush w\<rparr>"
  have p: "buffers p = (empty_stats_columns, [])"
    using t by (auto simp: take_chunk_def Let_def take_stats_columns_def take_proc_stats_columns_def buffers_def)
  have "window_sync ?w ps" using take_chunk_sync[OF assms t] .
  then obtain b where "drained (w_chunks w @ [chunk]) b" "buffers ps = join_buffers b (buffers p)"
    by (auto simp: window_sync_def buf.behind_def)
  then show ?thesis
    using True t p by (simp add: final_chunk_def join_buffers_def flush_incremental_side_marks_def Let_def case_prod_unfold)
next
  case False
  then obtain b where b: "drained (w_chunks w) b" "buffers ps = join_buffers b (buffers (w_parser w))" "parser_ok (w_parser w)"
    using assms by (auto simp: window_sync_def buf.behind_def)
  have "c_time (ps_stats_cols (w_parser w)) = []" "ps_proc_by_key (w_parser w) = []"
    using False by (simp_all add: has_rows_def stats_len_def)
  moreover from this b(3) have "ps_stats_cols (w_parser w) = empty_stats_columns"
    by (simp add: parser_ok_def cols_aligned_def empty_stats_columns_def)
  ultimately show ?thesis using False b by (simp add: final_chunk_def buffers_def join_buffers_def)
qed

text \<open>C1. Streaming a file in flush windows loses and duplicates nothing: whatever the row or byte
  threshold and the batch size, the chunks handed to the consumer, concatenated, are the
  hardware rows of the uninterrupted parse, and their process rows merged in order are its
  process rows; an exception of one is the exception of the other.\<close>

theorem streaming_chunks_recombine:
  assumes "0 < line_batch_size"
  shows "case parse_stats_file_streaming_incremental (Some content) start_line parse_start flush_rows flush_bytes line_batch_size ex of
      Inl e \<Rightarrow> parse_stats_lines (iter_file_lines line_batch_size content) (max start_line parse_start) ex = Inl e
    | Inr (chunks, marks) \<Rightarrow> \<exists>rowss marks'.
        map snd chunks = map proc_rows_to_columns rowss \<and>
        parse_stats_lines (iter_file_lines line_batch_size content) (max start_line parse_start) ex =
          Inr ((concat (map (\<lambda>c. stats_payload_to_records (Some (fst c))) chunks),
                dedupe_proc_stats_peak_merge (concat rowss)), marks')"
proof -
  let ?k = "max start_line parse_start" let ?limit = "flush_limit_of flush_rows flush_bytes"
  let ?p0 = "new_parser ?k ex"
  let ?w0 = "\<lparr>w_parser = ?p0, w_pending_flush = False, w_window_start = 0, w_chunks = [], w_marks = []\<rparr>"
  let ?run = "foldE (window_batch ?limit) (?w0, 0) (file_batches line_batch_size content)"
  have lines: "foldE feed_lines ?p0 (file_batches line_batch_size content) =
      feed_lines ?p0 (iter_file_lines line_batch_size content)"
    by (simp add: feed_batches concat_file_batches[OF assms])
  have "drained [] (empty_stats_columns, [])" by (simp add: drained_def)
  moreover have "buf.behind (empty_stats_columns, []) ?p0 ?p0"
    by (simp add: buf.behind_def buffers_def join_buffers_def new_parser_def)
  ultimately have "window_sync ?w0 ?p0" using new_parser_ok by (intro window_syncI) simp_all
  then have "case ?run of Inl e \<Rightarrow> foldE feed_lines ?p0 (file_batches line_batch_size content) = Inl e
    | Inr wp' \<Rightarrow> \<exists>ps'. foldE feed_lines ?p0 (file_batches line_batch_size content) = Inr ps' \<and> window_sync (fst wp') ps'"
    by (intro foldE_sim[where R = "\<lambda>wp ps. window_sync (fst wp) ps"] window_batch_sync) simp_all
  note sim = this[unfolded lines]
  show ?thesis
  proof (cases ?run)
    case (Inl e)
    then show ?thesis using sim by (simp add: parse_stats_file_streaming_incremental_def Let_def parse_stats_lines_def)
  next
    case (Inr wp)
    then obtain ps where ps: "feed_lines ?p0 (iter_file_lines line_batch_size content) = Inr ps" "window_sync (fst wp) ps"
      using sim by auto
    let ?w = "final_chunk (fst wp)"
    from final_chunk_drained[OF ps(2)] have d: "drained (w_chunks ?w) (buffers ps)" .
    then obtain rowss where rowss: "map snd (w_chunks ?w) = map proc_rows_to_columns rowss"
        "ps_proc_by_key ps = foldl merge_proc_row_online [] (concat rowss)"
      by (auto simp: drained_def buffers_def)
    have "parse_stats_lines (iter_file_lines line_batch_size content) ?k ex =
        Inr ((concat (map (\<lambda>c. stats_payload_to_records (Some (fst c))) (w_chunks ?w)),
          dedupe_proc_stats_peak_merge (concat rowss)), fst (take_ready_marks (snd (finish ps))))"
      using drained_records[OF d] rowss(2)
      by (simp add: parse_stats_lines_def ps(1) Let_def case_prod_unfold finish_def take_proc_stats_def buffers_def
          dedupe_proc_stats_peak_merge_def dedupe_step_fold merge_proc_row_online_step)
    then show ?thesis
      using Inr rowss(1) by (auto simp: parse_stats_file_streaming_incremental_def Let_def case_prod_unfold)
  qed
qed

theorem streaming_chunks_recombine_witness:
  "case parse_stats_file_streaming_incremental (Some (''!cpu user'' @ newline # ''17 9 h'' @ newline # ''cpu 0 5'')) 0 0 (Some 1) None 2 None of
      Inl e \<Rightarrow> parse_stats_lines (iter_file_lines 2 (''!cpu user'' @ newline # ''17 9 h'' @ newline # ''cpu 0 5'')) (max 0 0) None = Inl e
    | Inr (chunks, marks) \<Rightarrow> \<exists>rowss marks'.
        map snd chunks = map proc_rows_to_columns rowss \<and>
        parse_stats_lines (iter_file_lines 2 (''!cpu user'' @ newline # ''17 9 h'' @ newline # ''cpu 0 5'')) (max 0 0) None =
          Inr ((concat (map (\<lambda>c. stats_payload_to_records (Some (fst c))) chunks),
                dedupe_proc_stats_peak_merge (concat rowss)), marks')"
  by (rule streaming_chunks_recombine) simp

subsection \<open>Resuming at a line index\<close>

definition at_line :: "int \<Rightarrow> int \<Rightarrow> parser \<Rightarrow> parser" where
  "at_line i k ps = ps\<lparr>ps_line_index := i, ps_start_idx := k\<rparr>"

lemma at_line_sel [simp]:
  "ps_exclude_types_list (at_line i k s) = ps_exclude_types_list s" "ps_line_index (at_line i k s) = i"
  "ps_start_idx (at_line i k s) = k" "ps_schema (at_line i k s) = ps_schema s"
  "ps_schema_fast (at_line i k s) = ps_schema_fast s" "ps_schema_compiled (at_line i k s) = ps_schema_compiled s"
  "ps_schema_fast_compiled (at_line i k s) = ps_schema_fast_compiled s" "ps_schema_bare (at_line i k s) = ps_schema_bare s"
  "ps_schema_fast_bare (at_line i k s) = ps_schema_fast_bare s" "ps_insert (at_line i k s) = ps_insert s"
  "ps_tags (at_line i k s) = ps_tags s" "ps_tags2 (at_line i k s) = ps_tags2 s" "ps_arm_shared (at_line i k s) = ps_arm_shared s"
  "ps_sample_shared (at_line i k s) = ps_sample_shared s" "ps_store (at_line i k s) = ps_store s"
  "ps_pending_marks (at_line i k s) = ps_pending_marks s" "ps_stats_cols (at_line i k s) = ps_stats_cols s"
  "ps_proc_by_key (at_line i k s) = ps_proc_by_key s" "ps_marks (at_line i k s) = ps_marks s"
  by (simp_all add: at_line_def)

lemma at_line_at_line [simp]: "at_line i k (at_line i' k' s) = at_line i k s"
  by (simp add: at_line_def)

lemma compiled_schema_for_at:
  "compiled_schema_for (at_line i k s) ty fast = bindE (compiled_schema_for s ty fast) (\<lambda>(c, t). Inr (c, at_line i k t))"
  by (cases s) (simp add: compiled_schema_for_def Let_def bindE_assoc put_compiled_def at_line_def split: option.splits)

lemma proc_bare_keys_for_at:
  "proc_bare_keys_for (at_line i k s) ty ks fast =
   (fst (proc_bare_keys_for s ty ks fast), at_line i k (snd (proc_bare_keys_for s ty ks fast)))"
  by (cases s) (simp add: proc_bare_keys_for_def Let_def at_line_def split: option.splits)

lemma feed_header_at: "feed_header (at_line i k s) l = bindE (feed_header s l) (\<lambda>t. Inr (at_line i k t))"
  by (cases s) (simp add: feed_header_def bindE_assoc bind_pending_marks_def at_line_def split: option.splits)

lemma feed_schema_at: "feed_schema (at_line i k s) l = bindE (feed_schema s l) (\<lambda>t. Inr (at_line i k t))"
proof (cases "length (split_ws_max 1 l) = 2")
  case True
  then obtain a b where "split_ws_max 1 l = [a, b]" using two_items by blast
  then show ?thesis by (cases s) (simp add: feed_schema_def bindE_assoc Let_def at_line_def)
qed (simp add: feed_schema_def case_two)

lemma note_percent_mark_at: "note_percent_mark (at_line i k s) l = at_line i k (note_percent_mark s l)"
  by (cases s) (simp add: note_percent_mark_def queue_mark_def Let_def at_line_def split: option.splits mark_body.splits)

lemma feed_proc_line_at:
  "feed_proc_line (at_line i k s) ty dev vals = bindE (feed_proc_line s ty dev vals) (\<lambda>t. Inr (at_line i k t))"
proof -
  have put: "(at_line i k t)\<lparr>ps_proc_by_key := d\<rparr> = at_line i k (t\<lparr>ps_proc_by_key := d\<rparr>)" for t d
    by (simp add: at_line_def)
  show ?thesis
    by (simp add: feed_proc_line_def Let_def bindE_assoc case_prod_unfold proc_schema_keys_def
        proc_bare_keys_for_at put split: option.splits)
qed

lemma feed_counter_line_at:
  "feed_counter_line (at_line i k s) ty dev vals toks = bindE (feed_counter_line s ty dev vals toks) (\<lambda>t. Inr (at_line i k t))"
proof -
  have put: "(at_line i k t)\<lparr>ps_stats_cols := c\<rparr> = at_line i k (t\<lparr>ps_stats_cols := c\<rparr>)" for t c
    by (simp add: at_line_def)
  show ?thesis
  proof (cases "compiled_schema_for s ty (fst (split_tier vals) = Some ''@fast'')")
    case (Inl e)
    then show ?thesis
      by (simp add: feed_counter_line_def Let_def case_prod_unfold compiled_schema_for_at)
  next
    case (Inr ct)
    obtain c t where ct: "ct = (c, t)" by (cases ct)
    show ?thesis
      using Inr ct
      by (simp add: feed_counter_line_def Let_def case_prod_unfold compiled_schema_for_at bindE_assoc put
          split: option.splits)
         (auto intro!: bindE_cong simp: bindE_assoc split: option.splits)
  qed
qed

lemma feed_stats_line_at: "feed_stats_line (at_line i k s) l = bindE (feed_stats_line s l) (\<lambda>t. Inr (at_line i k t))"
proof (cases "length (split_ws_max 2 l) = 3")
  case True
  then obtain ty dev rest where "split_ws_max 2 l = [ty, dev, rest]" using three_items by blast
  then show ?thesis
    by (simp add: feed_stats_line_def Let_def feed_proc_line_at feed_counter_line_at split: option.splits)
qed (simp add: feed_stats_line_def case_three)

lemma feed_line_at:
  assumes "(k \<le> i) = (ps_start_idx s \<le> ps_line_index s)"
  shows "feed_line (at_line i k s) l = bindE (feed_line s l) (\<lambda>t. Inr (at_line (i + 1) k t))"
proof (cases "lstrip l")
  case Nil
  then show ?thesis by (simp add: feed_line_def Let_def at_line_def)
next
  case (Cons c r)
  let ?s = "s\<lparr>ps_line_index := ps_line_index s + 1\<rparr>"
  have eq: "(at_line i k s)\<lparr>ps_line_index := i + 1\<rparr> = at_line (i + 1) k ?s" by (simp add: at_line_def)
  show ?thesis
    using Cons assms
    by (simp add: feed_line_def Let_def eq feed_stats_line_at feed_header_at feed_schema_at note_percent_mark_at
        if_distrib[of "\<lambda>m. bindE m _"] cong: if_cong split del: if_split)
qed

definition prefix_line :: "string \<Rightarrow> bool" where
  "prefix_line l = (case lstrip l of [] \<Rightarrow> False | c # _ \<Rightarrow> c = CHR ''!'' \<or> c = CHR ''%'')"

lemma feed_line_idx:
  assumes "feed_line s l = Inr t"
  shows "ps_line_index t = ps_line_index s + 1 \<and> ps_start_idx t = ps_start_idx s"
proof -
  have self: "at_line (ps_line_index s) (ps_start_idx s) s = s" by (cases s) (simp add: at_line_def)
  then have "t = at_line (ps_line_index s + 1) (ps_start_idx s) t"
    using feed_line_at[OF refl, of s l, unfolded self assms] by simp
  then show ?thesis by (metis at_line_sel(2,3))
qed

lemma feed_lines_at:
  "k \<le> i \<Longrightarrow> ps_start_idx s \<le> ps_line_index s \<Longrightarrow>
   feed_lines (at_line i k s) ls = bindE (feed_lines s ls) (\<lambda>t. Inr (at_line (i + int (length ls)) k t))"
proof (induction ls arbitrary: i s)
  case (Cons l ls)
  show ?case
  proof (cases "feed_line s l")
    case (Inr t)
    then have "ps_start_idx t \<le> ps_line_index t" using feed_line_idx[OF Inr] Cons.prems by simp
    then show ?thesis
      using Cons Inr by (simp add: feed_lines_def feed_line_at algebra_simps)
  qed (use Cons.prems in \<open>simp add: feed_lines_def feed_line_at\<close>)
qed (simp add: feed_lines_def)

lemma feed_line_skipped:
  assumes "ps_line_index s < ps_start_idx s" "\<not> ps_insert s" "\<not> prefix_line l"
  shows "feed_line s l = Inr (at_line (ps_line_index s + 1) (ps_start_idx s) s)"
proof -
  have "s\<lparr>ps_line_index := ps_line_index s + 1\<rparr> = at_line (ps_line_index s + 1) (ps_start_idx s) s"
    by (cases s) (simp add: at_line_def)
  then show ?thesis using assms by (auto simp: feed_line_def Let_def prefix_line_def split: list.splits)
qed

lemma feed_prefix_at:
  assumes "prefix_line l"
  shows "feed_line (at_line i k s) l = bindE (feed_line s l) (\<lambda>t. Inr (at_line (i + 1) k t))"
proof -
  obtain c r where c: "lstrip l = c # r" "c = CHR ''!'' \<or> c = CHR ''%''"
    using assms by (auto simp: prefix_line_def split: list.splits)
  then have na: "\<not> py_isalpha c" "\<not> py_isdigit c" by (auto simp: py_isalpha_def py_isdigit_def)
  let ?s = "s\<lparr>ps_line_index := ps_line_index s + 1\<rparr>"
  have eq: "(at_line i k s)\<lparr>ps_line_index := i + 1\<rparr> = at_line (i + 1) k ?s" by (simp add: at_line_def)
  show ?thesis
    using c na by (auto simp: feed_line_def Let_def eq feed_schema_at note_percent_mark_at)
qed

lemma feed_prefix_line:
  assumes "prefix_line l" "\<not> ps_insert s" "feed_line s l = Inr t"
  shows "\<not> ps_insert t"
proof -
  have ins: "ps_insert (note_percent_mark p r) = ps_insert p" for p r
    by (simp add: note_percent_mark_def queue_mark_def Let_def split: option.splits)
  have sch: "feed_schema p r = Inr q \<Longrightarrow> ps_insert q = ps_insert p" for p q r
    by (erule feed_schema_cases) simp
  from assms show ?thesis
    by (auto simp: feed_line_def Let_def prefix_line_def ins py_isdigit_def split: list.splits if_splits dest!: sch)
qed

lemma feed_prefix:
  "ps_line_index s + int (length ls) \<le> ps_start_idx s \<Longrightarrow> \<not> ps_insert s \<Longrightarrow>
   feed_lines s ls = bindE (feed_lines (at_line i 0 s) (filter prefix_line ls))
     (\<lambda>t. Inr (at_line (ps_line_index s + int (length ls)) (ps_start_idx s) t))"
proof (induction ls arbitrary: s i)
  case Nil
  then show ?case by (cases s) (simp add: feed_lines_def at_line_def)
next
  case (Cons l ls)
  show ?case
  proof (cases "prefix_line l")
    case False
    let ?t = "at_line (ps_line_index s + 1) (ps_start_idx s) s"
    have "feed_lines s (l # ls) = feed_lines ?t ls"
      using feed_line_skipped[of s l] Cons.prems False by (simp add: feed_lines_def)
    then show ?thesis using Cons.IH[of ?t i] Cons.prems False by (simp add: algebra_simps)
  next
    case True
    then have same: "feed_line (at_line i 0 s) l = bindE (feed_line s l) (\<lambda>t. Inr (at_line (i + 1) 0 t))"
      by (rule feed_prefix_at)
    show ?thesis
    proof (cases "feed_line s l")
      case (Inr t)
      have t: "ps_line_index t = ps_line_index s + 1" "ps_start_idx t = ps_start_idx s" "\<not> ps_insert t"
        using feed_line_idx[OF Inr] feed_prefix_line[OF True _ Inr] Cons.prems by simp_all
      then show ?thesis
        using Cons.IH[of t "i + 1"] Cons.prems True Inr same by (simp add: feed_lines_def algebra_simps)
    qed (use True same in \<open>simp add: feed_lines_def\<close>)
  qed
qed

lemma feed_lines_idx:
  "feed_lines s ls = Inr t \<Longrightarrow> ps_line_index t = ps_line_index s + int (length ls) \<and> ps_start_idx t = ps_start_idx s"
proof (induction ls arbitrary: s)
  case (Cons l ls)
  then obtain s' where "feed_line s l = Inr s'" "feed_lines s' ls = Inr t" by (auto simp: feed_lines_def bindE_Inr_iff)
  then show ?case using Cons.IH[of s'] feed_line_idx[of s l s'] by simp
qed (simp add: feed_lines_def)

lemma feed_lines_append: "feed_lines s (xs @ ys) = bindE (feed_lines s xs) (\<lambda>t. feed_lines t ys)"
  by (simp add: feed_lines_def foldE_append)

lemma resume_split:
  "parse_stats_lines lines (int n) ex = parse_stats_lines (filter prefix_line (take n lines) @ drop n lines) 0 ex"
proof -
  let ?s = "new_parser (int n) ex" let ?q = "new_parser 0 ex"
  let ?done = "\<lambda>ps. let (finished, ps') = finish ps in Inr (finished, fst (take_ready_marks ps'))"
  have q: "at_line 0 0 ?s = ?q" by (simp add: at_line_def new_parser_def)
  have fin: "?done (at_line i k t) = ?done t" for i k t
    by (simp add: finish_def take_proc_stats_def take_ready_marks_def Let_def)
  have pre: "feed_lines ?s (take n lines) = bindE (feed_lines ?q (filter prefix_line (take n lines)))
      (\<lambda>t. Inr (at_line (int (length (take n lines))) (int n) t))"
  proof -
    have s: "ps_line_index ?s = 0" "ps_start_idx ?s = int n" "\<not> ps_insert ?s" by (simp_all add: new_parser_def)
    then show ?thesis using feed_prefix[of ?s "take n lines" 0] by (simp only: q s) simp
  qed
  show ?thesis
  proof (cases "feed_lines ?q (filter prefix_line (take n lines))")
    case (Inl e)
    have "feed_lines ?s lines = feed_lines ?s (take n lines @ drop n lines)" by simp
    also have "\<dots> = Inl e" unfolding feed_lines_append pre by (simp add: Inl)
    finally show ?thesis by (simp add: parse_stats_lines_def feed_lines_append Inl)
  next
    case (Inr t)
    have t: "ps_start_idx t \<le> ps_line_index t" using feed_lines_idx[OF Inr] by (simp add: new_parser_def)
    have "feed_lines ?s lines = feed_lines ?s (take n lines @ drop n lines)" by simp
    also have "\<dots> = feed_lines (at_line (int (length (take n lines))) (int n) t) (drop n lines)"
      unfolding feed_lines_append pre by (simp add: Inr)
    also have "\<dots> = bindE (feed_lines t (drop n lines)) (\<lambda>u. Inr (at_line (int (length lines)) (int n) u))"
    proof (cases "n \<le> length lines")
      case True
      then have "int (length (take n lines)) = int n" "int n + int (length (drop n lines)) = int (length lines)"
        by (simp_all add: of_nat_diff)
      then show ?thesis using feed_lines_at[of "int n" "int n" t "drop n lines"] t by (simp only: order_refl)
    qed (simp add: feed_lines_def)
    finally show ?thesis
      by (simp add: parse_stats_lines_def feed_lines_append Inr bindE_assoc fin[unfolded Let_def])
  qed
qed

text \<open>C10. Resuming at line \<open>n\<close> is parsing the rest of the file after the schema and mark lines of
  the part before it: no schema is lost, no row of the skipped part is emitted, and errors
  are the same.\<close>

theorem resume_keeps_schema:
  "parse_stats_lines lines (int n) ex = parse_stats_lines (filter prefix_line (take n lines) @ drop n lines) 0 ex"
  by (rule resume_split)

text \<open>Parsing a file in batches gives the result of parsing its lines at once.\<close>

theorem parse_streaming_eq:
  assumes "0 < batch_size"
  shows "parse_stats_file_streaming (Some content) start_line parse_start batch_size ex =
    parse_stats_lines (iter_file_lines batch_size content) (max start_line parse_start) ex"
  by (simp add: parse_stats_file_streaming_def parse_stats_lines_def Let_def feed_batches concat_file_batches[OF assms])

theorem parse_streaming_eq_witness:
  "parse_stats_file_streaming (Some (''!cpu user'' @ newline # ''17 9 h'')) 0 3 2 None =
    parse_stats_lines (iter_file_lines 2 (''!cpu user'' @ newline # ''17 9 h'')) (max 0 3) None"
  by (rule parse_streaming_eq) simp

end
