(* ===== verification/Job_Scores.thy ===== *)
theory Job_Scores
  imports Numerals
begin

text \<open>
  The scalar part of \<^verbatim>\<open>dbload/lib/sync_timedb_job_store.py\<close>: job kinds, ingest score bands
  and their encoding, lease owner tokens, limits and slot caps.
  A calendar day is its proleptic ordinal (\<^verbatim>\<open>date.toordinal\<close>). The SHA-1 digest behind
  the tie break, the random nonce of a lease token and the configuration getters are
  arguments; a getter that raises is \<open>None\<close>.
  Shown here: scores decode to their band and day, lease tokens parse back, the band slot
  caps partition the pool.
\<close>

definition JOB_KIND_DISCOVER :: string where "JOB_KIND_DISCOVER = ''discover''"
definition JOB_KIND_INGEST :: string where "JOB_KIND_INGEST = ''ingest''"
definition JOB_KIND_APPEND :: string where "JOB_KIND_APPEND = ''append''"
definition JOB_KIND_DAY_CLOSE :: string where "JOB_KIND_DAY_CLOSE = ''day_close''"

definition JOB_KINDS_LIST :: "string list" where
  "JOB_KINDS_LIST = [JOB_KIND_DISCOVER, JOB_KIND_APPEND, JOB_KIND_DAY_CLOSE]"

definition JOB_KINDS_ALL :: "string list" where
  "JOB_KINDS_ALL = JOB_KIND_INGEST # JOB_KINDS_LIST"

lemmas job_kind_defs = JOB_KIND_DISCOVER_def JOB_KIND_INGEST_def JOB_KIND_APPEND_def
  JOB_KIND_DAY_CLOSE_def JOB_KINDS_LIST_def JOB_KINDS_ALL_def

definition HOT_SCORE_BASE :: int where "HOT_SCORE_BASE = 0"
definition CATCHUP_SCORE_BASE :: int where "CATCHUP_SCORE_BASE = 10 ^ 15"
definition SCORE_STRIDE :: int where "SCORE_STRIDE = 10 ^ 6"
definition LEASE_CONFLICT_SCORE_PENALTY :: int where "LEASE_CONFLICT_SCORE_PENALTY = SCORE_STRIDE"
definition JOB_ATTEMPT_MAX_DEFAULT :: int where "JOB_ATTEMPT_MAX_DEFAULT = 5"
definition QUEUE_MAX_MEMBERS_FLOOR :: int where "QUEUE_MAX_MEMBERS_FLOOR = 1000"
definition JOB_LEASE_TTL_FLOOR_S :: int where "JOB_LEASE_TTL_FLOOR_S = 60"
definition INFLIGHT_REAP_GRACE_FLOOR_S :: int where "INFLIGHT_REAP_GRACE_FLOOR_S = 30"

lemmas score_consts = HOT_SCORE_BASE_def CATCHUP_SCORE_BASE_def SCORE_STRIDE_def
  LEASE_CONFLICT_SCORE_PENALTY_def

subsection \<open>Score bands\<close>

definition norm_band :: "string \<Rightarrow> string" where
  \<comment> \<open>\<^verbatim>\<open>str(band or "").strip().lower()\<close>\<close>
  "norm_band band = map py_tolower (strip band)"

definition ingest_score_range :: "string \<Rightarrow> (f64 \<times> f64) res" where
  "ingest_score_range band =
     (if norm_band band = ''hot'' then Inr (NInf, fsub (of_int_f64 CATCHUP_SCORE_BASE) (Fin 1))
      else if norm_band band = ''catchup'' then Inr (of_int_f64 CATCHUP_SCORE_BASE, PInf)
      else Inl ValueError)"

definition decode_ingest_band :: "f64 \<Rightarrow> string" where
  "decode_ingest_band score =
     (if flt score (of_int_f64 CATCHUP_SCORE_BASE) then ''hot'' else ''catchup'')"

definition from_bytes_big :: "int list \<Rightarrow> int" where
  "from_bytes_big bs = foldl (\<lambda>a b. a * 256 + b) 0 bs"

definition tie_break_from_identity :: "(string \<Rightarrow> int list) \<Rightarrow> string \<Rightarrow> int" where
  "tie_break_from_identity sha1 identity = from_bytes_big (take 4 (sha1 identity)) mod SCORE_STRIDE"

definition encode_ingest_score :: "(string \<Rightarrow> int list) \<Rightarrow> string \<Rightarrow> int \<Rightarrow> int \<Rightarrow> string \<Rightarrow> int res" where
  "encode_ingest_score sha1 band day today identity =
     (let tie = tie_break_from_identity sha1 identity in
      if norm_band band = ''hot'' then
        Inr (max HOT_SCORE_BASE (HOT_SCORE_BASE + (today - day) * SCORE_STRIDE + tie))
      else if norm_band band = ''catchup'' then
        Inr (CATCHUP_SCORE_BASE + day * SCORE_STRIDE + tie)
      else Inl ValueError)"

definition MAXORDINAL :: int where
  \<comment> \<open>The ordinal of \<^verbatim>\<open>date.max\<close>.\<close>
  "MAXORDINAL = 3652059"

definition ffloordiv :: "f64 \<Rightarrow> f64 \<Rightarrow> f64" where
  \<comment> \<open>\<^verbatim>\<open>a // b\<close> of floats for a non-negative dividend and a positive finite divisor: the
    exact remainder is taken off and the quotient rounded to the nearest integer.\<close>
  "ffloordiv a b = (case (a, b) of
       (Fin x, Fin y) \<Rightarrow>
         (let md = x - y * of_int \<lfloor>x / y\<rfloor> in
          case fdiv (round_f64 (x - md)) (Fin y) of
            Fin d \<Rightarrow> Fin (of_int (if 1 / 2 < d - of_int \<lfloor>d\<rfloor> then \<lfloor>d\<rfloor> + 1 else \<lfloor>d\<rfloor>))
          | v \<Rightarrow> v)
     | _ \<Rightarrow> NaN)"

definition decode_catchup_calendar_day :: "f64 \<Rightarrow> int option res" where
  "decode_catchup_calendar_day score =
     (if decode_ingest_band score \<noteq> ''catchup'' then Inr None
      else bindE (trunc_f64 (ffloordiv (fsub score (of_int_f64 CATCHUP_SCORE_BASE)) (of_int_f64 SCORE_STRIDE)))
        (\<lambda>day_ord. Inr (if 1 \<le> day_ord \<and> day_ord \<le> MAXORDINAL then Some day_ord else None)))"

subsection \<open>Limits\<close>

definition job_lease_ttl_seconds :: "int option \<Rightarrow> int" where
  "job_lease_ttl_seconds cfg_timeout =
     (let raw = (case cfg_timeout of None \<Rightarrow> 86400 | Some v \<Rightarrow> v)
      in if raw < JOB_LEASE_TTL_FLOOR_S then JOB_LEASE_TTL_FLOOR_S else raw)"

definition queue_capacity_limit :: "int option \<Rightarrow> int" where
  "queue_capacity_limit cfg_members =
     max QUEUE_MAX_MEMBERS_FLOOR (case cfg_members of None \<Rightarrow> 2000000 | Some v \<Rightarrow> v)"

definition discover_ingest_capacity_limit :: "int option \<Rightarrow> int option \<Rightarrow> int" where
  "discover_ingest_capacity_limit cfg_members cfg_ingest =
     min (queue_capacity_limit cfg_members) (max 1 (case cfg_ingest of None \<Rightarrow> 3000 | Some v \<Rightarrow> v))"

definition job_max_attempts :: "int option \<Rightarrow> int" where
  "job_max_attempts cfg_retry =
     max 1 (case cfg_retry of None \<Rightarrow> JOB_ATTEMPT_MAX_DEFAULT | Some v \<Rightarrow> v)"

definition ingest_band_slot_caps :: "int \<Rightarrow> (int \<times> int) res" where
  "ingest_band_slot_caps pool =
     (if pool < 1 then Inl ValueError
      else if pool = 1 then Inr (1, 0)
      else let hot_cap = max 1 ((2 * pool) div 3); catchup_cap = pool - hot_cap
           in Inr (if catchup_cap < 1 then (pool - 1, 1) else (hot_cap, catchup_cap)))"

definition ingest_claim_probe_depth :: "int \<Rightarrow> int \<Rightarrow> int" where
  "ingest_claim_probe_depth hot_q pool =
     (if hot_q \<le> (if pool = 0 then 1 else pool) then 8
      else min 64 (max 8 (hot_q div max 1 pool)))"

subsection \<open>Lease owner tokens\<close>

record LeaseOwner =
  nonce :: string
  hostname :: string
  boot_id :: string
  pid :: "int option"

definition token_safe :: "string \<Rightarrow> string" where
  \<comment> \<open>\<^verbatim>\<open>.replace(":", "_").replace("|", "_")\<close>\<close>
  "token_safe s = map (\<lambda>c. if c = CHR '':'' \<or> c = CHR ''|'' then CHR ''_'' else c) s"

definition or_unknown :: "string \<Rightarrow> string" where
  "or_unknown s = (if s = [] then ''unknown'' else s)"

definition make_lease_owner_token :: "string \<Rightarrow> int \<Rightarrow> string \<Rightarrow> string \<Rightarrow> string" where
  \<comment> \<open>The nonce is \<^verbatim>\<open>secrets.token_hex(16)\<close>; pid, host name and boot id are resolved by
    the caller when they are not given.\<close>
  "make_lease_owner_token tok owner_pid host boot =
     tok @ '':'' @ token_safe (or_unknown host) @ '':'' @ token_safe (or_unknown boot)
     @ '':'' @ str_int owner_pid"

definition parse_lease_owner :: "string \<Rightarrow> LeaseOwner" where
  "parse_lease_owner owner_token =
     (let parts = split_on (CHR '':'') owner_token; n = length parts;
          p = (if 2 \<le> n then py_int (last parts) else None)
      in if 4 \<le> n then \<lparr>nonce = hd parts, hostname = parts ! (n - 3), boot_id = parts ! (n - 2), pid = p\<rparr>
         else \<lparr>nonce = hd parts, hostname = [], boot_id = [], pid = p\<rparr>)"

definition parse_lease_owner_pid :: "string \<Rightarrow> int option" where
  "parse_lease_owner_pid owner_token = pid (parse_lease_owner owner_token)"

definition lease_owner_is_locally_evaluable :: "LeaseOwner \<Rightarrow> string \<Rightarrow> string \<Rightarrow> bool" where
  "lease_owner_is_locally_evaluable owner host boot =
     (if hostname owner = [] \<or> boot_id owner = [] then False
      else hostname owner = token_safe host \<and> boot_id owner = token_safe boot)"

subsection \<open>Identities and fingerprints\<close>

fun join_on :: "char \<Rightarrow> string list \<Rightarrow> string" where
  \<comment> \<open>\<^verbatim>\<open>c.join(parts)\<close> for a one-character separator.\<close>
  "join_on c [] = []"
| "join_on c [x] = x"
| "join_on c (x # y # ys) = x @ c # join_on c (y # ys)"

definition norm_comp :: "bool \<Rightarrow> string list \<Rightarrow> string \<Rightarrow> string list" where
  \<comment> \<open>One path component of \<^verbatim>\<open>posixpath.normpath\<close>; the flag is set for an absolute path.\<close>
  "norm_comp absolute new_comps part =
     (if part = [] \<or> part = ''.'' then new_comps
      else if part \<noteq> ''..'' \<or> (\<not> absolute \<and> new_comps = []) \<or> (new_comps \<noteq> [] \<and> last new_comps = ''..'')
      then new_comps @ [part]
      else butlast new_comps)"

definition leading_slashes :: "string \<Rightarrow> string" where
  \<comment> \<open>POSIX keeps exactly two leading slashes and collapses any other number to one.\<close>
  "leading_slashes path =
     (if startswith path ''//'' \<and> \<not> startswith path ''///'' then ''//''
      else if startswith path ''/'' then ''/'' else [])"

definition normpath :: "string \<Rightarrow> string" where
  "normpath path =
     (if path = [] then ''.''
      else let sl = leading_slashes path;
               res = sl @ join_on (CHR ''/'') (foldl (norm_comp (sl \<noteq> [])) [] (split_on (CHR ''/'') path))
           in if res = [] then ''.'' else res)"

definition ingest_identity :: "string \<Rightarrow> string res" where
  "ingest_identity path =
     (if strip path = [] then Inl ValueError else Inr (normpath (strip path)))"

definition ingest_fingerprint :: "int \<Rightarrow> int \<Rightarrow> string" where
  "ingest_fingerprint sz mtime_ns = str_int sz @ ''|'' @ str_int mtime_ns"

definition fingerprint_matches_path :: "(string \<Rightarrow> (int \<times> int) option) \<Rightarrow> string \<Rightarrow> string \<Rightarrow> bool" where
  \<comment> \<open>The first argument is \<^verbatim>\<open>os.stat\<close>: size and mtime in nanoseconds, \<open>None\<close> an \<^verbatim>\<open>OSError\<close>.\<close>
  "fingerprint_matches_path stat path fp =
     (if CHR ''|'' \<notin> set fp \<or> path = [] then False
      else (case stat path of None \<Rightarrow> False
            | Some (sz, mtime_ns) \<Rightarrow> fp = ingest_fingerprint sz mtime_ns))"


subsection \<open>Bands and days of scores\<close>

lemma of_int_score_consts [simp]:
  "of_int_f64 CATCHUP_SCORE_BASE = Fin (10 ^ 15)" "of_int_f64 SCORE_STRIDE = Fin (10 ^ 6)"
  using of_int_f64_exact[of CATCHUP_SCORE_BASE] of_int_f64_exact[of SCORE_STRIDE]
  by (simp_all add: score_consts)

lemma hot_high [simp]: "fsub (Fin (10 ^ 15)) (Fin 1) = Fin (10 ^ 15 - 1)"
  using fsub_int[of "10 ^ 15" 1] by simp

lemma decode_band_cases: "decode_ingest_band s = ''hot'' \<or> decode_ingest_band s = ''catchup''"
  by (simp add: decode_ingest_band_def)

lemma tie_bounds: "0 \<le> tie_break_from_identity sha1 i" "tie_break_from_identity sha1 i < SCORE_STRIDE"
  by (simp_all add: tie_break_from_identity_def score_consts)

lemma ffloordiv_int:
  assumes "0 \<le> a" "0 < b" "a < 2 ^ 53"
  shows "ffloordiv (Fin (of_int a)) (Fin (of_int b)) = Fin (of_int (a div b))"
proof -
  have fl: "\<lfloor>of_int a / of_int b :: rat\<rfloor> = a div b" by (rule floor_divide_of_int_eq)
  have le: "b * (a div b) \<le> a" using assms pos_mod_sign[of b a] mult_div_mod_eq[of b a] by linarith
  have pos: "0 \<le> b * (a div b)" "0 \<le> a div b" using assms by (simp_all add: pos_imp_zdiv_nonneg_iff)
  have "a div b \<le> a" using assms by (simp add: zdiv_mono2[of a 1 b, simplified])
  then have r: "round_f64 (of_int (b * (a div b))) = Fin (of_int (b * (a div b)))"
    "round_f64 (of_int (a div b)) = Fin (of_int (a div b))"
    using assms le pos by (intro round_f64_int; linarith)+
  have q: "of_int (b * (a div b)) / of_int b = (of_int (a div b) :: rat)"
    using assms(2) by simp
  have "ffloordiv (Fin (of_int a)) (Fin (of_int b)) =
    (case fdiv (round_f64 (of_int (b * (a div b)))) (Fin (of_int b)) of
       Fin d \<Rightarrow> Fin (of_int (if 1 / 2 < d - of_int \<lfloor>d\<rfloor> then \<lfloor>d\<rfloor> + 1 else \<lfloor>d\<rfloor>)) | v \<Rightarrow> v)"
    unfolding ffloordiv_def using fl by (simp add: Let_def)
  also have "\<dots> = Fin (of_int (a div b))"
    using assms(2) by (simp only: r fdiv.simps q) simp
  finally show ?thesis .
qed

lemma encode_score_bounds:
  assumes "encode_ingest_score sha1 band day today identity = Inr s"
    and "1 \<le> day" "day \<le> MAXORDINAL" "today \<le> MAXORDINAL"
  shows "norm_band band = ''hot'' \<Longrightarrow> 0 \<le> s \<and> s < CATCHUP_SCORE_BASE"
    and "norm_band band = ''catchup'' \<Longrightarrow> s = CATCHUP_SCORE_BASE + day * SCORE_STRIDE + tie_break_from_identity sha1 identity"
    and "norm_band band = ''hot'' \<or> norm_band band = ''catchup''"
  using assms tie_bounds[of sha1 identity]
  by (auto simp: encode_ingest_score_def score_consts MAXORDINAL_def Let_def max_def split: if_splits)

lemma score_exact:
  assumes "encode_ingest_score sha1 band day today identity = Inr s"
    and "1 \<le> day" "day \<le> MAXORDINAL" "today \<le> MAXORDINAL"
  shows "of_int_f64 s = Fin (of_int s)"
proof (rule of_int_f64_exact)
  show "\<bar>s\<bar> < 2 ^ 53"
    using encode_score_bounds[OF assms] tie_bounds[of sha1 identity] assms
    by (auto simp: score_consts MAXORDINAL_def)
qed

lemma decode_day_int:
  assumes "1 \<le> day" "day \<le> MAXORDINAL" "0 \<le> tie" "tie < SCORE_STRIDE"
  shows "decode_catchup_calendar_day (Fin (of_int (CATCHUP_SCORE_BASE + day * SCORE_STRIDE + tie))) = Inr (Some day)"
proof -
  define a where "a = day * 1000000 + tie"
  define n where "n = CATCHUP_SCORE_BASE + day * SCORE_STRIDE + tie"
  have a: "0 \<le> a" "a < 2 ^ 53" "a div 1000000 = day" "n = 10 ^ 15 + a"
    using assms by (auto simp: a_def n_def score_consts MAXORDINAL_def)
  have sub: "fsub (Fin (of_int n)) (Fin (10 ^ 15)) = Fin (of_int a)"
    using fsub_int[of n "10 ^ 15"] a by simp
  have dv: "ffloordiv (Fin (of_int a)) (Fin (10 ^ 6)) = Fin (of_int day)"
    using ffloordiv_int[of a "10 ^ 6"] a by simp
  have "decode_ingest_band (Fin (of_int n)) = ''catchup''"
    using a by (simp add: decode_ingest_band_def)
  then show ?thesis
    unfolding n_def[symmetric] decode_catchup_calendar_day_def of_int_score_consts sub dv
    using assms by simp
qed

text \<open>
  An ingest score decodes to the band it was encoded for and, in the catch-up band, to
  the calendar day it was encoded with: \<^verbatim>\<open>decode_ingest_band\<close> and
  \<^verbatim>\<open>decode_catchup_calendar_day\<close> invert \<^verbatim>\<open>encode_ingest_score\<close> through the float the
  store keeps, for every valid day and every tie break.
\<close>
theorem ingest_score_roundtrip:
  assumes "encode_ingest_score sha1 band day today identity = Inr s"
    and "1 \<le> day" "day \<le> MAXORDINAL" "today \<le> MAXORDINAL"
  shows "decode_ingest_band (of_int_f64 s) = norm_band band \<and>
    (norm_band band = ''catchup'' \<longrightarrow> decode_catchup_calendar_day (of_int_f64 s) = Inr (Some day))"
proof (cases "norm_band band = ''hot''")
  case True
  then have "rat_of_int s < 10 ^ 15"
    using encode_score_bounds(1)[OF assms] by (simp add: score_consts)
  then show ?thesis using True by (simp add: score_exact[OF assms] decode_ingest_band_def)
next
  case False
  then have c: "norm_band band = ''catchup''" using encode_score_bounds(3)[OF assms] by simp
  have s: "s = CATCHUP_SCORE_BASE + day * SCORE_STRIDE + tie_break_from_identity sha1 identity"
    by (rule encode_score_bounds(2)[OF assms c])
  have "0 \<le> day * SCORE_STRIDE + tie_break_from_identity sha1 identity"
    using assms(2) tie_bounds(1)[of sha1 identity] by (simp add: score_consts)
  then have "10 ^ 15 \<le> rat_of_int s" using s by (simp add: score_consts)
  then have "decode_ingest_band (of_int_f64 s) = ''catchup''"
    by (simp add: score_exact[OF assms] decode_ingest_band_def)
  moreover have "decode_catchup_calendar_day (of_int_f64 s) = Inr (Some day)"
    using decode_day_int[OF assms(2,3) tie_bounds] by (simp add: score_exact[OF assms]) (simp add: s)
  ultimately show ?thesis using c by simp
qed

theorem ingest_score_roundtrip_witness:
  "encode_ingest_score (\<lambda>_. [0, 0, 1, 2]) ''Catchup'' 738000 739000 ''/a/b'' = Inr 1000738000000258 \<and>
   decode_catchup_calendar_day (of_int_f64 1000738000000258) = Inr (Some 738000)"
proof -
  have n: "norm_band ''Catchup'' = ''catchup''" by code_simp
  have e: "encode_ingest_score (\<lambda>_. [0, 0, 1, 2]) ''Catchup'' 738000 739000 ''/a/b'' = Inr 1000738000000258"
    by (simp add: encode_ingest_score_def n tie_break_from_identity_def from_bytes_big_def score_consts)
  show ?thesis
    using e ingest_score_roundtrip[OF e] n by (simp add: MAXORDINAL_def)
qed

text \<open>
  Claims work through the hot band newest day first and through the catch-up band
  oldest day first: scores of two days of one band are strictly ordered whatever the tie
  breaks, and every hot score is below every catch-up score.
\<close>
theorem ingest_score_order:
  assumes "encode_ingest_score sha1 band day today i = Inr s" "encode_ingest_score sha1 band' day' today i' = Inr s'"
    and "1 \<le> day" "day < day'" "day' \<le> today" "today \<le> MAXORDINAL"
  shows "(norm_band band = ''hot'' \<and> norm_band band' = ''hot'' \<longrightarrow> s' < s) \<and>
    (norm_band band = ''catchup'' \<and> norm_band band' = ''catchup'' \<longrightarrow> s < s') \<and>
    (norm_band band = ''catchup'' \<and> norm_band band' = ''hot'' \<longrightarrow> s' < s) \<and>
    (norm_band band = ''hot'' \<and> norm_band band' = ''catchup'' \<longrightarrow> s < s')"
  using assms tie_bounds[of sha1 i] tie_bounds[of sha1 i']
  by (auto simp: encode_ingest_score_def score_consts MAXORDINAL_def Let_def split: if_splits)

theorem ingest_score_order_witness:
  "encode_ingest_score (\<lambda>_. [0, 0, 0, 9]) ''hot'' 99 100 ''a'' = Inr 1000009 \<and>
   encode_ingest_score (\<lambda>_. [0, 0, 0, 9]) ''hot'' 100 100 ''b'' = Inr 9 \<and> (9 :: int) < 1000009"
proof -
  have n: "norm_band ''hot'' = ''hot''" by code_simp
  have e: "encode_ingest_score (\<lambda>_. [0, 0, 0, 9]) ''hot'' 99 100 ''a'' = Inr 1000009"
    "encode_ingest_score (\<lambda>_. [0, 0, 0, 9]) ''hot'' 100 100 ''b'' = Inr 9"
    by (simp_all add: encode_ingest_score_def n tie_break_from_identity_def from_bytes_big_def score_consts)
  show ?thesis using ingest_score_order[OF e] e n by (simp add: MAXORDINAL_def)
qed

subsection \<open>Slot caps\<close>

text \<open>
  The band slot caps partition the worker pool: for every pool of at least one worker
  both caps are non-negative, they add up to the pool, hot work always has a slot, catch-up
  work has one whenever there are two workers, and hot work never has fewer slots than
  catch-up work; a smaller pool is the \<^verbatim>\<open>ValueError\<close> of the code.
\<close>
theorem slot_caps_partition:
  "case ingest_band_slot_caps pool of
     Inl e \<Rightarrow> e = ValueError \<and> pool < 1
   | Inr (hot_cap, catchup_cap) \<Rightarrow> 1 \<le> pool \<and> hot_cap + catchup_cap = pool \<and> 1 \<le> hot_cap \<and>
       (if pool = 1 then catchup_cap = 0 else 1 \<le> catchup_cap) \<and> catchup_cap \<le> hot_cap"
proof -
  consider "pool < 1" | "pool = 1" | "2 \<le> pool" by linarith
  then show ?thesis
  proof cases
    case 3
    then have "1 \<le> (2 * pool) div 3" "(2 * pool) div 3 < pool" "pool \<le> 2 * ((2 * pool) div 3)"
      by presburger+
    with 3 show ?thesis by (simp add: ingest_band_slot_caps_def Let_def max_def)
  qed (simp_all add: ingest_band_slot_caps_def)
qed

subsection \<open>Lease tokens\<close>

lemma token_safe_no_sep: "CHR '':'' \<notin> set (token_safe s)" "CHR ''|'' \<notin> set (token_safe s)"
  by (auto simp: token_safe_def split: if_splits)

lemma token_safe_empty [simp]: "token_safe s = [] \<longleftrightarrow> s = []"
  by (simp add: token_safe_def)

lemma str_int_chars:
  assumes "c \<in> set (str_int n)"
  shows "c = CHR ''-'' \<or> py_isdigit c"
  using assms nat_digits_isdigit[of n c] nat_digits_isdigit[of "- n" c]
  by (auto simp: str_int_def split: if_splits)

lemma str_int_no_sep: "CHR '':'' \<notin> set (str_int n)" "CHR ''|'' \<notin> set (str_int n)"
  using str_int_chars[of "CHR '':''" n] str_int_chars[of "CHR ''|''" n] by (auto simp: py_isdigit_def)

lemma split_token:
  assumes "CHR '':'' \<notin> set tok"
  shows "split_on (CHR '':'') (make_lease_owner_token tok p host boot) =
    [tok, token_safe (or_unknown host), token_safe (or_unknown boot), str_int p]"
  using assms token_safe_no_sep(1) str_int_no_sep(1)
  by (simp add: make_lease_owner_token_def split_on_append_sep split_on_no_sep)

text \<open>
  A lease owner token parses back into the nonce, host, boot id and pid it was made
  of, whatever separators the host name and the boot id contain, and the host that made
  it recognises it as its own: \<^verbatim>\<open>parse_lease_owner\<close> and
  \<^verbatim>\<open>lease_owner_is_locally_evaluable\<close> agree with \<^verbatim>\<open>make_lease_owner_token\<close>.
  The nonce is hexadecimal, so it contains no separator.
\<close>
theorem lease_token_roundtrip:
  assumes "CHR '':'' \<notin> set tok"
  shows "parse_lease_owner (make_lease_owner_token tok p host boot) =
      \<lparr>nonce = tok, hostname = token_safe (or_unknown host), boot_id = token_safe (or_unknown boot), pid = Some p\<rparr> \<and>
    (lease_owner_is_locally_evaluable (parse_lease_owner (make_lease_owner_token tok p host boot)) host' boot'
      \<longleftrightarrow> token_safe host' = token_safe (or_unknown host) \<and> token_safe boot' = token_safe (or_unknown boot))"
  by (auto simp: parse_lease_owner_def split_token[OF assms] py_int_str_int
      lease_owner_is_locally_evaluable_def or_unknown_def token_safe_def)

theorem lease_token_roundtrip_witness:
  "parse_lease_owner_pid (make_lease_owner_token ''0f'' 42 ''node:1'' []) = Some 42"
  using lease_token_roundtrip[of "''0f''" 42 "''node:1''" "[]"] by (simp add: parse_lease_owner_pid_def)

subsection \<open>Fingerprints\<close>

lemma fingerprint_iff:
  "fingerprint_matches_path stat path (ingest_fingerprint sz mtime_ns) \<longleftrightarrow> path \<noteq> [] \<and> stat path = Some (sz, mtime_ns)"
proof -
  have inj: "ingest_fingerprint a b = ingest_fingerprint a' b' \<longleftrightarrow> a = a' \<and> b = b'" for a b a' b'
  proof
    assume "ingest_fingerprint a b = ingest_fingerprint a' b'"
    then have "split_on (CHR ''|'') (ingest_fingerprint a b) = split_on (CHR ''|'') (ingest_fingerprint a' b')" by simp
    then have "str_int a = str_int a'" "str_int b = str_int b'"
      using str_int_no_sep(2) by (simp_all add: ingest_fingerprint_def split_on_append_sep split_on_no_sep)
    then show "a = a' \<and> b = b'" by (metis py_int_str_int option.inject)
  qed simp
  have "CHR ''|'' \<in> set (ingest_fingerprint sz mtime_ns)" by (simp add: ingest_fingerprint_def)
  then show ?thesis by (auto simp: fingerprint_matches_path_def inj split: option.splits)
qed

text \<open>
  A fingerprint identifies size and modification time: the one recorded for a file
  matches the path exactly while \<^verbatim>\<open>os.stat\<close> still reports the same size and the same
  mtime, and never matches a missing file or an empty path.
\<close>
theorem fingerprint_matches_iff:
  "fingerprint_matches_path stat path (ingest_fingerprint sz mtime_ns) \<longleftrightarrow> path \<noteq> [] \<and> stat path = Some (sz, mtime_ns)"
  by (rule fingerprint_iff)


subsection \<open>Canonical identities\<close>

definition canonical_comps :: "bool \<Rightarrow> string list \<Rightarrow> bool" where
  \<comment> \<open>No empty or dot component; parent components only in front, and only in a relative path.\<close>
  "canonical_comps absolute cs \<longleftrightarrow> [] \<notin> set cs \<and> ''.'' \<notin> set cs \<and> (\<forall>c \<in> set cs. CHR ''/'' \<notin> set c) \<and>
     ''..'' \<notin> set (dropWhile (\<lambda>c. c = ''..'') cs) \<and> (absolute \<longrightarrow> ''..'' \<notin> set cs)"

lemma split_join:
  "cs \<noteq> [] \<Longrightarrow> (\<forall>c \<in> set cs. x \<notin> set c) \<Longrightarrow> split_on x (join_on x cs) = cs"
  by (induction x cs rule: join_on.induct) (simp_all add: split_on_append_sep split_on_no_sep)

lemma dropWhile_snoc:
  "dropWhile P (xs @ [x]) = (if \<forall>y \<in> set xs. P y then if P x then [] else [x] else dropWhile P xs @ [x])"
  by (induction xs) auto

lemma dots_last:
  assumes "''..'' \<notin> set (dropWhile (\<lambda>c. c = ''..'') cs)" "cs \<noteq> []"
  shows "last cs = ''..'' \<longleftrightarrow> (\<forall>c \<in> set cs. c = ''..'')"
  using assms by (cases cs rule: rev_cases) (auto simp: dropWhile_snoc split: if_splits)

lemma canonical_snoc:
  "canonical_comps a (cs @ [c]) \<longleftrightarrow> canonical_comps a cs \<and> c \<noteq> [] \<and> c \<noteq> ''.'' \<and> CHR ''/'' \<notin> set c \<and>
     (c = ''..'' \<longrightarrow> \<not> a \<and> (cs = [] \<or> last cs = ''..''))"
proof (cases "\<forall>y \<in> set cs. y = ''..''")
  case True
  then have d: "dropWhile (\<lambda>c. c = ''..'') cs = []" "cs = [] \<or> last cs = ''..''"
    "dropWhile (\<lambda>c. c = ''..'') (cs @ [c]) = (if c = ''..'' then [] else [c])"
    using True by (cases cs rule: rev_cases; simp add: dropWhile_snoc)+
  show ?thesis unfolding canonical_comps_def d using d(2) by (cases "c = ''..''") auto
next
  case False
  then have d: "dropWhile (\<lambda>c. c = ''..'') (cs @ [c]) = dropWhile (\<lambda>c. c = ''..'') cs @ [c]" "cs \<noteq> []"
    by (auto simp: dropWhile_snoc)
  show ?thesis unfolding canonical_comps_def d using d(2) dots_last[of cs] False by (cases "c = ''..''") auto
qed

lemma canonical_Nil [simp]: "canonical_comps a []"
  by (simp add: canonical_comps_def)

lemma norm_comp_canonical:
  assumes "canonical_comps a cs" "CHR ''/'' \<notin> set c"
  shows "canonical_comps a (norm_comp a cs c)"
proof (cases cs rule: rev_cases)
  case Nil
  then show ?thesis using assms canonical_snoc[of a "[]" c] by (simp add: norm_comp_def)
next
  case (snoc ds d)
  then have d: "\<not> (a \<and> last cs = ''..'')" "canonical_comps a (butlast cs)" "cs \<noteq> []"
    using assms(1) by (auto simp: canonical_snoc)
  have "canonical_comps a (cs @ [c])" if "c \<noteq> [] \<and> c \<noteq> ''.''" "c \<noteq> ''..'' \<or> last cs = ''..''"
    using that assms d by (auto simp: canonical_snoc)
  then show ?thesis using assms d by (simp add: norm_comp_def)
qed

lemma norm_comps_canonical:
  "canonical_comps a acc \<Longrightarrow> (\<forall>c \<in> set cs. CHR ''/'' \<notin> set c) \<Longrightarrow> canonical_comps a (foldl (norm_comp a) acc cs)"
  by (induction cs arbitrary: acc) (simp_all add: norm_comp_canonical)

lemma norm_comps_id: "canonical_comps a cs \<Longrightarrow> foldl (norm_comp a) [] cs = cs"
  by (induction cs rule: rev_induct) (auto simp: canonical_snoc norm_comp_def)

lemma join_hd: "canonical_comps a cs \<Longrightarrow> cs \<noteq> [] \<Longrightarrow> \<exists>c r. join_on x cs = c # r \<and> c \<noteq> CHR ''/''"
  by (cases cs; cases "hd cs"; cases "tl cs") (auto simp: canonical_comps_def)

lemma leading_slashes_cases: "leading_slashes p = [] \<or> leading_slashes p = ''/'' \<or> leading_slashes p = ''//''"
  by (simp add: leading_slashes_def)

lemma leading_slashes_prefix:
  assumes "sl = [] \<or> sl = ''/'' \<or> sl = ''//''" "r = [] \<or> hd r \<noteq> CHR ''/''"
  shows "leading_slashes (sl @ r) = sl"
  using assms by (cases r) (auto simp: leading_slashes_def startswith_def)

lemma split_rebuilt:
  assumes "canonical_comps a cs" "sl = [] \<or> sl = ''/'' \<or> sl = ''//''"
  shows "foldl (norm_comp a) [] (split_on (CHR ''/'') (sl @ join_on (CHR ''/'') cs)) = cs"
proof -
  have j: "foldl (norm_comp a) [] (split_on (CHR ''/'') (join_on (CHR ''/'') cs)) = cs"
  proof (cases "cs = []")
    case False
    then show ?thesis
      using assms(1) split_join[of cs "CHR ''/''"] norm_comps_id[OF assms(1)] by (simp add: canonical_comps_def)
  qed (simp add: norm_comp_def)
  have "norm_comp a [] [] = []" by (simp add: norm_comp_def)
  then show ?thesis using assms(2) j by auto
qed

lemma normpath_idem: "normpath (normpath path) = normpath path"
proof (cases "path = []")
  case True
  show ?thesis unfolding True by code_simp
next
  case False
  define sl where "sl = leading_slashes path"
  define cs where "cs = foldl (norm_comp (sl \<noteq> [])) [] (split_on (CHR ''/'') path)"
  have c: "canonical_comps (sl \<noteq> []) cs"
    unfolding cs_def by (rule norm_comps_canonical) (auto dest: split_on_pieces)
  define res where "res = sl @ join_on (CHR ''/'') cs"
  have n: "normpath path = (if res = [] then ''.'' else res)"
    using False by (simp only: normpath_def Let_def sl_def cs_def res_def if_False)
  show ?thesis
  proof (cases "res = []")
    case True
    then show ?thesis unfolding n by simp code_simp
  next
    case False
    have sl: "sl = [] \<or> sl = ''/'' \<or> sl = ''//''" unfolding sl_def by (rule leading_slashes_cases)
    have "join_on (CHR ''/'') cs = [] \<or> hd (join_on (CHR ''/'') cs) \<noteq> CHR ''/''"
      using join_hd[OF c, of "CHR ''/''"] by (cases "cs = []") auto
    then have "leading_slashes res = sl" unfolding res_def by (rule leading_slashes_prefix[OF sl])
    moreover have "foldl (norm_comp (sl \<noteq> [])) [] (split_on (CHR ''/'') res) = cs"
      unfolding res_def by (rule split_rebuilt[OF c sl])
    ultimately have "normpath res = res" using False by (simp add: normpath_def Let_def res_def)
    then show ?thesis using n False by simp
  qed
qed

lemma normpath_chars: "c \<in> set (normpath path) \<Longrightarrow> c \<in> set path \<or> c = CHR ''/'' \<or> c = CHR ''.''"
proof -
  have j: "set (join_on x cs) \<subseteq> insert x (\<Union>(set ` set cs))" for x cs
    by (induction x cs rule: join_on.induct) auto
  have f1: "set (norm_comp a acc y) \<subseteq> insert y (set acc)" for a acc y
    by (auto simp: norm_comp_def dest: in_set_butlastD)
  have f: "set (foldl (norm_comp a) acc cs) \<subseteq> set acc \<union> set cs" for a acc cs
  proof (induction cs arbitrary: acc)
    case (Cons y cs)
    show ?case using Cons[of "norm_comp a acc y"] f1[of a acc y] by auto
  qed simp
  have p: "p \<in> set (split_on x s) \<Longrightarrow> set p \<subseteq> set s" for p x s
  proof (induction s arbitrary: p)
    case (Cons y s)
    show ?case
    proof (cases "split_on x s")
      case (Cons q qs)
      then have "set q \<subseteq> set s" "\<forall>r \<in> set qs. set r \<subseteq> set s" using Cons.IH by simp_all
      then show ?thesis using Cons.prems \<open>split_on x s = q # qs\<close> by (auto split: if_splits)
    qed simp
  qed simp
  define cs where "cs = foldl (norm_comp (leading_slashes path \<noteq> [])) [] (split_on (CHR ''/'') path)"
  have "set cs \<subseteq> set (split_on (CHR ''/'') path)" using f[of _ "[]"] by (simp add: cs_def)
  then have "\<Union>(set ` set cs) \<subseteq> set path" using p[of _ "CHR ''/''" path] by blast
  then have "set (join_on (CHR ''/'') cs) \<subseteq> insert (CHR ''/'') (set path)"
    using j[of "CHR ''/''" cs] by blast
  moreover have "set (leading_slashes path) \<subseteq> {CHR ''/''}"
    using leading_slashes_cases[of path] by auto
  moreover have "normpath path = ''.'' \<or> normpath path = leading_slashes path @ join_on (CHR ''/'') cs"
    by (simp only: normpath_def Let_def cs_def split: if_split) simp
  moreover assume "c \<in> set (normpath path)"
  ultimately show ?thesis by auto
qed

text \<open>
  The identity of an ingest job is canonical: for a path without blanks, taking the
  identity of an identity changes nothing, so every spelling that \<^verbatim>\<open>normpath\<close> identifies
  names one job; a blank path is the \<^verbatim>\<open>ValueError\<close> of the code.
\<close>
theorem ingest_identity_canonical:
  assumes "\<forall>c \<in> set path. \<not> py_isspace c"
  shows "case ingest_identity path of Inl e \<Rightarrow> e = ValueError \<and> path = [] | Inr ident \<Rightarrow> ingest_identity ident = Inr ident"
proof -
  have s: "strip path = path" using assms by (intro strip_no_space) blast
  have "\<not> py_isspace (CHR ''/'')" "\<not> py_isspace (CHR ''.'')" by code_simp+
  then have n: "strip (normpath path) = normpath path"
    using assms normpath_chars by (intro strip_no_space) blast
  have "normpath path \<noteq> []" by (simp add: normpath_def Let_def)
  then show ?thesis using s n normpath_idem[of path] by (simp add: ingest_identity_def)
qed

theorem ingest_identity_canonical_witness:
  "ingest_identity ''/d//h/../n/./f'' = Inr ''/d/n/f'' \<and> ingest_identity ''/d/n/f'' = Inr ''/d/n/f''"
proof -
  have e: "ingest_identity ''/d//h/../n/./f'' = Inr ''/d/n/f''" by code_simp
  have "\<forall>c \<in> set ''/d//h/../n/./f''. \<not> py_isspace c" by code_simp
  from ingest_identity_canonical[OF this] e show ?thesis by simp
qed

end
