(* ===== verification/Job_Store.thy ===== *)
theory Job_Store
  imports Job_Scores "HOL-Library.List_Lexorder" "HOL-Library.Product_Lexorder" "HOL-Library.Char_ord"
begin

text \<open>
  \<^verbatim>\<open>class SyncTimedbJobStore\<close> of \<^verbatim>\<open>dbload/lib/sync_timedb_job_store.py\<close>: the in-memory
  job queues, leases and payloads, and the shadow copies the snapshot writer reads.
  Record \<open>job_store\<close> has the fields of the object, in their order and with their names
  (without the leading underscore); a field that is a dict over the fixed job kinds is a
  function of the kind. A Python heap of \<^verbatim>\<open>(score, identity)\<close> tuples is the sorted list of
  its entries: \<^verbatim>\<open>heappush\<close> inserts, \<^verbatim>\<open>heappop\<close> takes the least entry.
  Every method runs under the store's lock and is one function here; \<open>claim_ingest\<close> takes
  fuel, because the claim loop of the code re-arms heap entries and need not end.
\<close>

type_synonym inflight_entry = "f64 \<times> string \<times> f64 option"
type_synonym job_key = "string \<times> string"
type_synonym fields = "(string \<times> string) list"
type_synonym score_heap = "(f64 \<times> string) list"

record job_store =
  ingest :: "(string \<times> f64) list"
  ingest_heap_hot :: score_heap
  ingest_heap_catchup :: score_heap
  ingest_hot_n :: int
  ingest_catchup_n :: int
  lists :: "string \<Rightarrow> string list"
  pending :: "string \<Rightarrow> string set"
  inflight :: "string \<Rightarrow> (string \<times> inflight_entry) list"
  leases :: "(job_key \<times> string) list"
  payloads :: "(job_key \<times> fields) list"
  shadow_ingest :: "(string \<times> f64) list"
  shadow_lists :: "string \<Rightarrow> string list"
  shadow_pending :: "string \<Rightarrow> string set"
  shadow_payloads :: "(job_key \<times> fields) list"
  dirty :: bool
  last_persist :: f64
  persist_gen :: int

definition new_store :: job_store where
  "new_store = \<lparr>ingest = [], ingest_heap_hot = [], ingest_heap_catchup = [], ingest_hot_n = 0,
     ingest_catchup_n = 0, lists = (\<lambda>_. []), pending = (\<lambda>_. {}), inflight = (\<lambda>_. []), leases = [],
     payloads = [], shadow_ingest = [], shadow_lists = (\<lambda>_. []), shadow_pending = (\<lambda>_. {}),
     shadow_payloads = [], dirty = False, last_persist = Fin 0, persist_gen = 0\<rparr>"

record ClaimedJob =
  kind :: string
  identity :: string
  owner_token :: string
  deadline :: f64
  score :: "f64 option"
  fingerprint :: string

record job_cfg =
  cfg_members :: "int option"
  cfg_ingest_max :: "int option"
  cfg_timeout :: "int option"

subsection \<open>Heaps, bands and shadows\<close>

definition heap_push :: "f64 \<times> string \<Rightarrow> score_heap \<Rightarrow> score_heap" where
  "heap_push e h = insort e h"

definition ingest_heap_for_band :: "job_store \<Rightarrow> string \<Rightarrow> score_heap" where
  "ingest_heap_for_band s band = (if band = ''hot'' then ingest_heap_hot s else ingest_heap_catchup s)"

definition set_heap_for_band :: "string \<Rightarrow> score_heap \<Rightarrow> job_store \<Rightarrow> job_store" where
  \<comment> \<open>The heap object of the band, mutated in place.\<close>
  "set_heap_for_band band h s =
     (if band = ''hot'' then s\<lparr>ingest_heap_hot := h\<rparr> else s\<lparr>ingest_heap_catchup := h\<rparr>)"

definition ingest_heap_push :: "string \<Rightarrow> f64 \<Rightarrow> job_store \<Rightarrow> job_store" where
  "ingest_heap_push ident sc s =
     (let band = decode_ingest_band sc
      in set_heap_for_band band (heap_push (sc, ident) (ingest_heap_for_band s band)) s)"

definition ingest_band_inc :: "f64 \<Rightarrow> job_store \<Rightarrow> job_store" where
  "ingest_band_inc sc s =
     (if decode_ingest_band sc = ''hot'' then s\<lparr>ingest_hot_n := ingest_hot_n s + 1\<rparr>
      else s\<lparr>ingest_catchup_n := ingest_catchup_n s + 1\<rparr>)"

definition ingest_band_dec :: "f64 \<Rightarrow> job_store \<Rightarrow> job_store" where
  "ingest_band_dec sc s =
     (if decode_ingest_band sc = ''hot'' then s\<lparr>ingest_hot_n := max 0 (ingest_hot_n s - 1)\<rparr>
      else s\<lparr>ingest_catchup_n := max 0 (ingest_catchup_n s - 1)\<rparr>)"

definition identity_is_queued :: "job_store \<Rightarrow> string \<Rightarrow> string \<Rightarrow> bool" where
  "identity_is_queued s kd ident =
     (if kd = JOB_KIND_INGEST then dget (ingest s) ident \<noteq> None
      else kd \<in> set JOB_KINDS_LIST \<and> ident \<in> pending s kd)"

definition shadow_sync_payload :: "string \<Rightarrow> string \<Rightarrow> job_store \<Rightarrow> job_store" where
  "shadow_sync_payload kd ident s =
     (case dget (payloads s) (kd, ident) of
        Some fs \<Rightarrow> if identity_is_queued s kd ident
          then s\<lparr>shadow_payloads := dset (kd, ident) fs (shadow_payloads s)\<rparr>
          else s\<lparr>shadow_payloads := ddel (kd, ident) (shadow_payloads s)\<rparr>
      | None \<Rightarrow> s\<lparr>shadow_payloads := ddel (kd, ident) (shadow_payloads s)\<rparr>)"

definition ingest_set :: "string \<Rightarrow> f64 \<Rightarrow> job_store \<Rightarrow> job_store" where
  "ingest_set ident sc s =
     (let s1 = (case dget (ingest s) ident of None \<Rightarrow> s | Some old \<Rightarrow> ingest_band_dec old s);
          s2 = s1\<lparr>ingest := dset ident sc (ingest s1)\<rparr>;
          s3 = ingest_heap_push ident sc (ingest_band_inc sc s2);
          s4 = s3\<lparr>shadow_ingest := dset ident sc (shadow_ingest s3)\<rparr>
      in shadow_sync_payload JOB_KIND_INGEST ident s4)"

definition ingest_pop :: "string \<Rightarrow> job_store \<Rightarrow> f64 option \<times> job_store" where
  "ingest_pop ident s =
     (case dget (ingest s) ident of None \<Rightarrow> (None, s)
      | Some old \<Rightarrow>
          (let s1 = ingest_band_dec old (s\<lparr>ingest := ddel ident (ingest s)\<rparr>)
           in (Some old, s1\<lparr>shadow_ingest := ddel ident (shadow_ingest s1),
                shadow_payloads := ddel (JOB_KIND_INGEST, ident) (shadow_payloads s1)\<rparr>)))"

definition rebuild_ingest_band_counts :: "job_store \<Rightarrow> job_store" where
  "rebuild_ingest_band_counts s =
     (let hot = filter (\<lambda>(_, sc). decode_ingest_band sc = ''hot'') (ingest s);
          rest = filter (\<lambda>(_, sc). decode_ingest_band sc \<noteq> ''hot'') (ingest s)
      in s\<lparr>ingest_hot_n := int (length hot), ingest_catchup_n := int (length rest)\<rparr>)"

definition ingest_rebuild_heaps :: "job_store \<Rightarrow> job_store" where
  "ingest_rebuild_heaps s =
     fold (\<lambda>(ident, sc). ingest_heap_push ident sc) (ingest s)
       (s\<lparr>ingest_heap_hot := [], ingest_heap_catchup := []\<rparr>)"

definition queued_identities :: "job_store \<Rightarrow> job_key set" where
  "queued_identities s = (\<lambda>i. (JOB_KIND_INGEST, i)) ` set (keys (ingest s))
     \<union> (\<Union>kd \<in> set JOB_KINDS_LIST. (\<lambda>i. (kd, i)) ` set (lists s kd))"

definition inflight_identities :: "job_store \<Rightarrow> job_key set" where
  "inflight_identities s = (\<Union>kd \<in> set JOB_KINDS_ALL. (\<lambda>i. (kd, i)) ` set (keys (inflight s kd)))"

definition prune_orphan_payloads :: "job_key set \<Rightarrow> job_store \<Rightarrow> job_store" where
  "prune_orphan_payloads active s = s\<lparr>payloads := filter (\<lambda>(k, _). k \<in> active) (payloads s)\<rparr>"

definition prune_shadow_payloads :: "job_key set \<Rightarrow> job_store \<Rightarrow> job_store" where
  "prune_shadow_payloads queued s =
     s\<lparr>shadow_payloads := filter (\<lambda>(k, _). k \<in> queued) (shadow_payloads s)\<rparr>"

definition rebuild_shadow :: "job_store \<Rightarrow> job_store" where
  "rebuild_shadow s = s\<lparr>shadow_ingest := ingest s, shadow_lists := lists s, shadow_pending := pending s,
     shadow_payloads := filter (\<lambda>(k, _). k \<in> queued_identities s) (payloads s)\<rparr>"

definition mark_dirty :: "job_store \<Rightarrow> job_store" where
  "mark_dirty s = s\<lparr>dirty := True, persist_gen := persist_gen s + 1\<rparr>"

definition has_capacity :: "job_store \<Rightarrow> string \<Rightarrow> int \<Rightarrow> bool" where
  "has_capacity s kd cap =
     (if kd = JOB_KIND_INGEST then int (length (ingest s)) < cap else int (length (lists s kd)) < cap)"

subsection \<open>Adding jobs\<close>

definition put_payload :: "string \<Rightarrow> string \<Rightarrow> string \<Rightarrow> string \<Rightarrow> job_store \<Rightarrow> job_store" where
  \<comment> \<open>\<^verbatim>\<open>self._payloads.setdefault((kind, ident), {})[name] = value\<close>\<close>
  "put_payload kd ident nm val s =
     s\<lparr>payloads := dset (kd, ident) (dset nm val (get_or [] (payloads s) (kd, ident))) (payloads s)\<rparr>"

definition zadd_ingest :: "job_cfg \<Rightarrow> string \<Rightarrow> f64 \<Rightarrow> string \<Rightarrow> job_store \<Rightarrow> int \<times> job_store" where
  \<comment> \<open>An absent fingerprint is the empty one, which the code treats alike.\<close>
  "zadd_ingest cfg ident sc fp s =
     (let cap = discover_ingest_capacity_limit (cfg_members cfg) (cfg_ingest_max cfg);
          existed = (dget (ingest s) ident \<noteq> None)
      in if dget (inflight s JOB_KIND_INGEST) ident \<noteq> None then (0, s)
         else if \<not> existed \<and> \<not> has_capacity s JOB_KIND_INGEST cap \<and> decode_ingest_band sc \<noteq> ''hot'' then (0, s)
         else let s1 = ingest_set ident sc s;
                  s2 = (if fp = [] then s1
                        else shadow_sync_payload JOB_KIND_INGEST ident
                          (put_payload JOB_KIND_INGEST ident ''fingerprint'' fp s1))
              in (if existed then 0 else 1, mark_dirty s2))"

definition list_append :: "string \<Rightarrow> string \<Rightarrow> job_store \<Rightarrow> job_store" where
  \<comment> \<open>The append of \<^verbatim>\<open>enqueue_list\<close>, \<^verbatim>\<open>requeue\<close> and the reaper, with its shadow.\<close>
  "list_append kd ident s =
     shadow_sync_payload kd ident
       (s\<lparr>lists := (lists s)(kd := lists s kd @ [ident]),
          pending := (pending s)(kd := insert ident (pending s kd)),
          shadow_lists := (shadow_lists s)(kd := shadow_lists s kd @ [ident]),
          shadow_pending := (shadow_pending s)(kd := insert ident (shadow_pending s kd))\<rparr>)"

definition enqueue_list :: "job_cfg \<Rightarrow> string \<Rightarrow> string \<Rightarrow> bool \<Rightarrow> job_store \<Rightarrow> (int \<times> job_store) res" where
  "enqueue_list cfg kd ident dedupe s =
     (if kd \<notin> set JOB_KINDS_LIST then Inl ValueError
      else if dedupe \<and> (ident \<in> pending s kd \<or> dget (inflight s kd) ident \<noteq> None) then Inr (0, s)
      else if \<not> has_capacity s kd (queue_capacity_limit (cfg_members cfg)) then Inr (0, s)
      else let s1 = mark_dirty (list_append kd ident s) in Inr (int (length (lists s1 kd)), s1))"

subsection \<open>Claiming jobs\<close>

definition lease_out :: "string \<Rightarrow> string \<Rightarrow> f64 \<Rightarrow> string \<Rightarrow> f64 option \<Rightarrow> job_store \<Rightarrow> job_store" where
  "lease_out kd ident dl owner sc s =
     s\<lparr>inflight := (inflight s)(kd := dset ident (dl, owner, sc) (inflight s kd)),
       leases := dset (kd, ident) owner (leases s)\<rparr>"

definition claimed_ingest :: "string \<Rightarrow> string \<Rightarrow> f64 \<Rightarrow> f64 \<Rightarrow> job_store \<Rightarrow> ClaimedJob" where
  "claimed_ingest ident owner dl live s =
     \<lparr>kind = JOB_KIND_INGEST, identity = ident, owner_token = owner, deadline = dl, score = Some live,
      fingerprint = get_or [] (get_or [] (payloads s) (JOB_KIND_INGEST, ident)) ''fingerprint''\<rparr>"

fun claim_loop :: "nat \<Rightarrow> string \<Rightarrow> f64 \<times> f64 \<Rightarrow> string \<Rightarrow> f64 \<Rightarrow> nat \<Rightarrow> ClaimedJob list \<Rightarrow> job_store
    \<Rightarrow> (ClaimedJob list \<times> job_store) option" where
  "claim_loop 0 band rng owner dl want claimed s = None"
| "claim_loop (Suc n) band rng owner dl want claimed s =
     (if length claimed < want then
        (case ingest_heap_for_band s band of
           [] \<Rightarrow> Some (claimed, s)
         | (snap, ident) # rest \<Rightarrow>
             (let s1 = set_heap_for_band band rest s in
              if dget (inflight s JOB_KIND_INGEST) ident \<noteq> None
              then claim_loop n band rng owner dl want claimed s1
              else (case dget (ingest s) ident of
                  None \<Rightarrow> claim_loop n band rng owner dl want claimed s1
                | Some live \<Rightarrow>
                    if live \<noteq> snap \<or> live = NaN
                    then claim_loop n band rng owner dl want claimed (ingest_heap_push ident live s1)
                    else if \<not> (fle (fst rng) live \<and> fle live (snd rng))
                    then claim_loop n band rng owner dl want claimed (ingest_heap_push ident live s1)
                    else let s2 = lease_out JOB_KIND_INGEST ident dl owner (Some live) (snd (ingest_pop ident s1))
                         in claim_loop n band rng owner dl want
                              (claimed @ [claimed_ingest ident owner dl live s2]) s2)))
      else Some (claimed, s))"

definition lease_ttl :: "job_cfg \<Rightarrow> int option \<Rightarrow> int" where
  "lease_ttl cfg ttl_s = (case ttl_s of None \<Rightarrow> job_lease_ttl_seconds (cfg_timeout cfg) | Some t \<Rightarrow> t)"

definition claim_ingest :: "nat \<Rightarrow> job_cfg \<Rightarrow> string \<Rightarrow> string \<Rightarrow> int option \<Rightarrow> f64 \<Rightarrow> int \<Rightarrow> job_store
    \<Rightarrow> (ClaimedJob list \<times> job_store) res option" where
  \<comment> \<open>\<open>None\<close>: the loop has not returned within the fuel.\<close>
  "claim_ingest fuel cfg band owner ttl_s now max_n s =
     (if owner = [] then Some (Inl ValueError)
      else if max_n < 1 then Some (Inl ValueError)
      else (case ingest_score_range band of Inl e \<Rightarrow> Some (Inl e)
        | Inr rng \<Rightarrow>
            map_option (\<lambda>(claimed, s'). Inr (claimed, if claimed \<noteq> [] then mark_dirty s' else s'))
              (claim_loop fuel band rng owner (fadd now (of_int_f64 (lease_ttl cfg ttl_s))) (nat max_n) [] s)))"

definition shadow_list_drop :: "string \<Rightarrow> string \<Rightarrow> job_store \<Rightarrow> job_store" where
  \<comment> \<open>Drop the head of the shadow list when it is the job, else its first occurrence.\<close>
  "shadow_list_drop kd ident s =
     (case shadow_lists s kd of
        [] \<Rightarrow> s
      | x # xs \<Rightarrow> s\<lparr>shadow_lists := (shadow_lists s)(kd := if x = ident then xs else remove1 ident (x # xs))\<rparr>)"

definition list_popleft :: "string \<Rightarrow> string \<Rightarrow> string list \<Rightarrow> job_store \<Rightarrow> job_store" where
  "list_popleft kd ident rest s =
     (let s1 = shadow_list_drop kd ident
                 (s\<lparr>lists := (lists s)(kd := rest), pending := (pending s)(kd := pending s kd - {ident})\<rparr>)
      in s1\<lparr>shadow_pending := (shadow_pending s1)(kd := shadow_pending s1 kd - {ident}),
            shadow_payloads := ddel (kd, ident) (shadow_payloads s1)\<rparr>)"

fun claim_list_loop :: "string list \<Rightarrow> string \<Rightarrow> string \<Rightarrow> f64 \<Rightarrow> job_store \<Rightarrow> ClaimedJob option \<times> job_store" where
  \<comment> \<open>The first argument is the queue at loop entry, consumed from the left.\<close>
  "claim_list_loop [] kd owner dl s = (None, s)"
| "claim_list_loop (ident # rest) kd owner dl s =
     (let s1 = list_popleft kd ident rest s in
      if dget (inflight s1 kd) ident \<noteq> None then claim_list_loop rest kd owner dl s1
      else (Some \<lparr>kind = kd, identity = ident, owner_token = owner, deadline = dl, score = None, fingerprint = []\<rparr>,
            mark_dirty (lease_out kd ident dl owner None s1)))"

definition claim_list :: "job_cfg \<Rightarrow> string \<Rightarrow> string \<Rightarrow> int option \<Rightarrow> f64 \<Rightarrow> job_store
    \<Rightarrow> (ClaimedJob option \<times> job_store) res" where
  "claim_list cfg kd owner ttl_s now s =
     (if kd \<notin> set JOB_KINDS_LIST then Inl ValueError
      else if owner = [] then Inl ValueError
      else Inr (claim_list_loop (lists s kd) kd owner (fadd now (of_int_f64 (lease_ttl cfg ttl_s))) s))"

subsection \<open>Finishing and returning jobs\<close>

definition release :: "string \<Rightarrow> string \<Rightarrow> job_store \<Rightarrow> job_store" where
  \<comment> \<open>Drop the inflight entry and the lease.\<close>
  "release kd ident s =
     s\<lparr>inflight := (inflight s)(kd := ddel ident (inflight s kd)), leases := ddel (kd, ident) (leases s)\<rparr>"

definition owned_by :: "job_store \<Rightarrow> string \<Rightarrow> string \<Rightarrow> string \<Rightarrow> bool" where
  "owned_by s kd ident owner =
     (case dget (inflight s kd) ident of None \<Rightarrow> False | Some (_, o', _) \<Rightarrow> o' = owner)"

definition ack :: "string \<Rightarrow> string \<Rightarrow> string \<Rightarrow> job_store \<Rightarrow> bool \<times> job_store" where
  "ack kd ident owner s =
     (if owner = [] then (False, s)
      else if \<not> owned_by s kd ident owner then (False, s)
      else let s1 = release kd ident s;
               s2 = s1\<lparr>payloads := ddel (kd, ident) (payloads s1)\<rparr>
           in (True, if kd \<in> set JOB_KINDS_LIST
                     then s2\<lparr>pending := (pending s2)(kd := pending s2 kd - {ident})\<rparr> else s2))"

definition requeue :: "string \<Rightarrow> string \<Rightarrow> string \<Rightarrow> f64 option \<Rightarrow> job_store \<Rightarrow> bool \<times> job_store" where
  "requeue kd ident owner sc s =
     (if owner = [] then (False, s)
      else if \<not> owned_by s kd ident owner then (False, s)
      else let s1 = release kd ident s
           in (True, mark_dirty
                (if kd = JOB_KIND_INGEST
                 then ingest_set ident (case sc of None \<Rightarrow> of_int_f64 CATCHUP_SCORE_BASE | Some v \<Rightarrow> v) s1
                 else list_append kd ident s1)))"

definition extend_inflight_deadline :: "string \<Rightarrow> string \<Rightarrow> f64 \<Rightarrow> f64 \<Rightarrow> job_store \<Rightarrow> bool \<times> job_store" where
  "extend_inflight_deadline kd ident extend_s now s =
     (case dget (inflight s kd) ident of None \<Rightarrow> (False, s)
      | Some (_, owner, sc) \<Rightarrow>
          (True, s\<lparr>inflight := (inflight s)(kd := dset ident (fadd now extend_s, owner, sc) (inflight s kd))\<rparr>))"

definition reorder_list :: "string \<Rightarrow> string list \<Rightarrow> string list \<Rightarrow> job_store \<Rightarrow> bool \<times> job_store" where
  \<comment> \<open>\<open>current\<close> is the queue as read in the first critical section; the store is the one
    the second critical section finds.\<close>
  "reorder_list kd desired current s =
     (if kd \<notin> set JOB_KINDS_LIST then (False, s)
      else if length current \<noteq> length desired then (False, s)
        else if sort current \<noteq> sort desired then (False, s)
        else if current = desired then (False, s)
        else if lists s kd \<noteq> current then (False, s)
        else (True, mark_dirty (s\<lparr>lists := (lists s)(kd := desired),
                shadow_lists := (shadow_lists s)(kd := desired)\<rparr>)))"

end
