(* ===== verification/Job_Store_Inv.thy ===== *)
theory Job_Store_Inv
  imports Job_Store
begin

text \<open>
  The invariant \<open>store_ok\<close> of the job store and its preservation by the primitives the
  methods are built from: keys are unique, no job is queued and leased at once, every
  queued ingest score is in the heap of its band, the band counters are exact, a list
  queue and its pending set hold the same jobs, the lease table mirrors the inflight
  entries, and the shadow copies equal the queues.
\<close>

named_theorems store_fields

definition integral :: "f64 \<Rightarrow> bool" where
  \<comment> \<open>The scores the encoder and the callers produce: integers (or an infinity), never NaN.\<close>
  "integral v = (case v of Fin q \<Rightarrow> q \<in> \<int> | NaN \<Rightarrow> False | _ \<Rightarrow> True)"

definition band_n :: "job_store \<Rightarrow> string \<Rightarrow> int" where
  "band_n s b = int (length (filter (\<lambda>(_, sc). decode_ingest_band sc = b) (ingest s)))"

definition heaps_ok :: "job_store \<Rightarrow> bool" where
  "heaps_ok s \<longleftrightarrow>
     (\<forall>b \<in> {''hot'', ''catchup''}. sorted (ingest_heap_for_band s b) \<and>
        (\<forall>e \<in> set (ingest_heap_for_band s b). decode_ingest_band (fst e) = b)) \<and>
     (\<forall>e \<in> set (ingest s). (snd e, fst e) \<in> set (ingest_heap_for_band s (decode_ingest_band (snd e))))"

definition counts_ok :: "job_store \<Rightarrow> bool" where
  "counts_ok s \<longleftrightarrow> ingest_hot_n s = band_n s ''hot'' \<and> ingest_catchup_n s = band_n s ''catchup''"

definition lists_ok :: "job_store \<Rightarrow> bool" where
  "lists_ok s \<longleftrightarrow> (\<forall>k. distinct (lists s k) \<and> pending s k = set (lists s k) \<and>
     (k \<notin> set JOB_KINDS_LIST \<longrightarrow> lists s k = []))"

definition entry_ok :: "string \<Rightarrow> inflight_entry \<Rightarrow> bool" where
  "entry_ok k e \<longleftrightarrow> fst (snd e) \<noteq> [] \<and> (case snd (snd e) of None \<Rightarrow> k \<noteq> JOB_KIND_INGEST | Some v \<Rightarrow> integral v)"

definition flight_ok :: "job_store \<Rightarrow> bool" where
  "flight_ok s \<longleftrightarrow> (\<forall>k. distinct (keys (inflight s k)) \<and> (k \<notin> set JOB_KINDS_ALL \<longrightarrow> inflight s k = []) \<and>
       (\<forall>e \<in> set (inflight s k). entry_ok k (snd e))) \<and>
     distinct (keys (leases s)) \<and>
     (\<forall>k i. dget (leases s) (k, i) = map_option (fst \<circ> snd) (dget (inflight s k) i)) \<and>
     (\<forall>k i. dget (inflight s k) i \<noteq> None \<longrightarrow> \<not> identity_is_queued s k i)"

definition payload_ok :: "job_store \<Rightarrow> bool" where
  "payload_ok s \<longleftrightarrow> distinct (keys (payloads s)) \<and> distinct (keys (shadow_payloads s)) \<and>
     (\<forall>k i. dget (shadow_payloads s) (k, i) =
        (if identity_is_queued s k i then dget (payloads s) (k, i) else None))"

definition shadow_ok :: "job_store \<Rightarrow> bool" where
  "shadow_ok s \<longleftrightarrow> shadow_ingest s = ingest s \<and> shadow_lists s = lists s \<and> shadow_pending s = pending s"

definition ingest_ok :: "job_store \<Rightarrow> bool" where
  "ingest_ok s \<longleftrightarrow> distinct (keys (ingest s)) \<and> (\<forall>e \<in> set (ingest s). integral (snd e))"

definition store_ok :: "job_store \<Rightarrow> bool" where
  "store_ok s \<longleftrightarrow> ingest_ok s \<and> heaps_ok s \<and> counts_ok s \<and> lists_ok s \<and> flight_ok s \<and> payload_ok s \<and> shadow_ok s"

lemmas store_ok_defs = store_ok_def ingest_ok_def heaps_ok_def counts_ok_def lists_ok_def flight_ok_def
  payload_ok_def shadow_ok_def

lemma store_okD:
  assumes "store_ok s"
  shows "ingest_ok s" "heaps_ok s" "counts_ok s" "lists_ok s" "flight_ok s" "payload_ok s" "shadow_ok s"
  using assms by (simp_all add: store_ok_def)

lemma store_okI:
  "ingest_ok s \<Longrightarrow> heaps_ok s \<Longrightarrow> counts_ok s \<Longrightarrow> lists_ok s \<Longrightarrow> flight_ok s \<Longrightarrow> payload_ok s \<Longrightarrow> shadow_ok s \<Longrightarrow> store_ok s"
  by (simp add: store_ok_def)

lemma queued_free: "store_ok s \<Longrightarrow> identity_is_queued s k i \<Longrightarrow> dget (inflight s k) i = None"
  unfolding store_ok_def flight_ok_def by blast

lemma leased_not_queued: "store_ok s \<Longrightarrow> dget (inflight s k) i = Some e \<Longrightarrow> \<not> identity_is_queued s k i"
  unfolding store_ok_def flight_ok_def by blast

subsection \<open>What each primitive leaves alone\<close>

lemma shadow_sync_fields [store_fields]:
  "ingest (shadow_sync_payload k i s) = ingest s"
  "ingest_heap_hot (shadow_sync_payload k i s) = ingest_heap_hot s"
  "ingest_heap_catchup (shadow_sync_payload k i s) = ingest_heap_catchup s"
  "ingest_hot_n (shadow_sync_payload k i s) = ingest_hot_n s"
  "ingest_catchup_n (shadow_sync_payload k i s) = ingest_catchup_n s"
  "lists (shadow_sync_payload k i s) = lists s"
  "pending (shadow_sync_payload k i s) = pending s"
  "inflight (shadow_sync_payload k i s) = inflight s"
  "leases (shadow_sync_payload k i s) = leases s"
  "payloads (shadow_sync_payload k i s) = payloads s"
  "shadow_ingest (shadow_sync_payload k i s) = shadow_ingest s"
  "shadow_lists (shadow_sync_payload k i s) = shadow_lists s"
  "shadow_pending (shadow_sync_payload k i s) = shadow_pending s"
  "dirty (shadow_sync_payload k i s) = dirty s"
  "last_persist (shadow_sync_payload k i s) = last_persist s"
  "persist_gen (shadow_sync_payload k i s) = persist_gen s"
  by (simp_all add: shadow_sync_payload_def split: option.split)

lemma band_step_fields [store_fields]:
  "ingest (ingest_band_dec v s) = ingest s" "ingest (ingest_band_inc v s) = ingest s"
  "lists (ingest_band_dec v s) = lists s" "lists (ingest_band_inc v s) = lists s"
  "pending (ingest_band_dec v s) = pending s" "pending (ingest_band_inc v s) = pending s"
  "inflight (ingest_band_dec v s) = inflight s" "inflight (ingest_band_inc v s) = inflight s"
  "leases (ingest_band_dec v s) = leases s" "leases (ingest_band_inc v s) = leases s"
  "payloads (ingest_band_dec v s) = payloads s" "payloads (ingest_band_inc v s) = payloads s"
  "ingest_heap_hot (ingest_band_dec v s) = ingest_heap_hot s" "ingest_heap_hot (ingest_band_inc v s) = ingest_heap_hot s"
  "ingest_heap_catchup (ingest_band_dec v s) = ingest_heap_catchup s"
  "ingest_heap_catchup (ingest_band_inc v s) = ingest_heap_catchup s"
  "shadow_ingest (ingest_band_dec v s) = shadow_ingest s" "shadow_ingest (ingest_band_inc v s) = shadow_ingest s"
  "shadow_lists (ingest_band_dec v s) = shadow_lists s" "shadow_lists (ingest_band_inc v s) = shadow_lists s"
  "shadow_pending (ingest_band_dec v s) = shadow_pending s" "shadow_pending (ingest_band_inc v s) = shadow_pending s"
  "shadow_payloads (ingest_band_dec v s) = shadow_payloads s" "shadow_payloads (ingest_band_inc v s) = shadow_payloads s"
  "dirty (ingest_band_dec v s) = dirty s" "dirty (ingest_band_inc v s) = dirty s"
  "persist_gen (ingest_band_dec v s) = persist_gen s" "persist_gen (ingest_band_inc v s) = persist_gen s"
  by (simp_all add: ingest_band_dec_def ingest_band_inc_def)

lemma heap_step_fields [store_fields]:
  "ingest (set_heap_for_band b h s) = ingest s" "lists (set_heap_for_band b h s) = lists s"
  "pending (set_heap_for_band b h s) = pending s" "inflight (set_heap_for_band b h s) = inflight s"
  "leases (set_heap_for_band b h s) = leases s" "payloads (set_heap_for_band b h s) = payloads s"
  "ingest_hot_n (set_heap_for_band b h s) = ingest_hot_n s"
  "ingest_catchup_n (set_heap_for_band b h s) = ingest_catchup_n s"
  "shadow_ingest (set_heap_for_band b h s) = shadow_ingest s"
  "shadow_lists (set_heap_for_band b h s) = shadow_lists s"
  "shadow_pending (set_heap_for_band b h s) = shadow_pending s"
  "shadow_payloads (set_heap_for_band b h s) = shadow_payloads s"
  "dirty (set_heap_for_band b h s) = dirty s" "persist_gen (set_heap_for_band b h s) = persist_gen s"
  by (simp_all add: set_heap_for_band_def)

lemma heap_of_set_heap [store_fields]:
  "ingest_heap_for_band (set_heap_for_band b h s) b' =
     (if (b' = ''hot'') = (b = ''hot'') then h else ingest_heap_for_band s b')"
  by (simp add: ingest_heap_for_band_def set_heap_for_band_def)

lemma heap_push_fields [store_fields]:
  "ingest (ingest_heap_push i v s) = ingest s" "lists (ingest_heap_push i v s) = lists s"
  "pending (ingest_heap_push i v s) = pending s" "inflight (ingest_heap_push i v s) = inflight s"
  "leases (ingest_heap_push i v s) = leases s" "payloads (ingest_heap_push i v s) = payloads s"
  "ingest_hot_n (ingest_heap_push i v s) = ingest_hot_n s"
  "ingest_catchup_n (ingest_heap_push i v s) = ingest_catchup_n s"
  "shadow_ingest (ingest_heap_push i v s) = shadow_ingest s"
  "shadow_lists (ingest_heap_push i v s) = shadow_lists s"
  "shadow_pending (ingest_heap_push i v s) = shadow_pending s"
  "shadow_payloads (ingest_heap_push i v s) = shadow_payloads s"
  "dirty (ingest_heap_push i v s) = dirty s" "persist_gen (ingest_heap_push i v s) = persist_gen s"
  by (simp_all add: ingest_heap_push_def Let_def store_fields)

lemma heap_of_push [store_fields]:
  "ingest_heap_for_band (ingest_heap_push i v s) b =
     (if (b = ''hot'') = (decode_ingest_band v = ''hot'') then insort (v, i) (ingest_heap_for_band s b)
      else ingest_heap_for_band s b)"
  by (simp add: ingest_heap_push_def Let_def store_fields heap_push_def) (simp add: ingest_heap_for_band_def)

lemma queued_cong:
  "ingest s = ingest t \<Longrightarrow> pending s = pending t \<Longrightarrow> identity_is_queued s = identity_is_queued t"
  by (intro ext) (simp add: identity_is_queued_def)

lemma heap_of_upd [store_fields]:
  "ingest_heap_for_band (s\<lparr>ingest := x1\<rparr>) b = ingest_heap_for_band s b"
  "ingest_heap_for_band (s\<lparr>ingest_hot_n := x2\<rparr>) b = ingest_heap_for_band s b"
  "ingest_heap_for_band (s\<lparr>ingest_catchup_n := x2\<rparr>) b = ingest_heap_for_band s b"
  "ingest_heap_for_band (s\<lparr>lists := x3\<rparr>) b = ingest_heap_for_band s b"
  "ingest_heap_for_band (s\<lparr>pending := x4\<rparr>) b = ingest_heap_for_band s b"
  "ingest_heap_for_band (s\<lparr>inflight := x5\<rparr>) b = ingest_heap_for_band s b"
  "ingest_heap_for_band (s\<lparr>leases := x6\<rparr>) b = ingest_heap_for_band s b"
  "ingest_heap_for_band (s\<lparr>payloads := x7\<rparr>) b = ingest_heap_for_band s b"
  "ingest_heap_for_band (s\<lparr>shadow_ingest := x1\<rparr>) b = ingest_heap_for_band s b"
  "ingest_heap_for_band (s\<lparr>shadow_lists := x3\<rparr>) b = ingest_heap_for_band s b"
  "ingest_heap_for_band (s\<lparr>shadow_pending := x4\<rparr>) b = ingest_heap_for_band s b"
  "ingest_heap_for_band (s\<lparr>shadow_payloads := x7\<rparr>) b = ingest_heap_for_band s b"
  "ingest_heap_for_band (s\<lparr>dirty := x8\<rparr>) b = ingest_heap_for_band s b"
  "ingest_heap_for_band (s\<lparr>persist_gen := x2\<rparr>) b = ingest_heap_for_band s b"
  "ingest_heap_for_band (s\<lparr>last_persist := x9\<rparr>) b = ingest_heap_for_band s b"
  "ingest_heap_for_band (ingest_band_dec v s) b = ingest_heap_for_band s b"
  "ingest_heap_for_band (ingest_band_inc v s) b = ingest_heap_for_band s b"
  "ingest_heap_for_band (shadow_sync_payload k i s) b = ingest_heap_for_band s b"
  by (simp_all add: ingest_heap_for_band_def store_fields)

lemma ingest_set_fields [store_fields]:
  "ingest (ingest_set i v s) = dset i v (ingest s)"
  "lists (ingest_set i v s) = lists s" "pending (ingest_set i v s) = pending s"
  "inflight (ingest_set i v s) = inflight s" "leases (ingest_set i v s) = leases s"
  "payloads (ingest_set i v s) = payloads s"
  "shadow_ingest (ingest_set i v s) = dset i v (shadow_ingest s)"
  "shadow_lists (ingest_set i v s) = shadow_lists s" "shadow_pending (ingest_set i v s) = shadow_pending s"
  "shadow_payloads (ingest_set i v s) =
     (case dget (payloads s) (JOB_KIND_INGEST, i) of
        None \<Rightarrow> ddel (JOB_KIND_INGEST, i) (shadow_payloads s)
      | Some fs \<Rightarrow> dset (JOB_KIND_INGEST, i) fs (shadow_payloads s))"
  "dirty (ingest_set i v s) = dirty s" "persist_gen (ingest_set i v s) = persist_gen s"
  "ingest_heap_for_band (ingest_set i v s) b =
     (if (b = ''hot'') = (decode_ingest_band v = ''hot'') then insort (v, i) (ingest_heap_for_band s b)
      else ingest_heap_for_band s b)"
  by (simp_all add: ingest_set_def Let_def store_fields split: option.split)
    (simp_all add: shadow_sync_payload_def store_fields identity_is_queued_def split: option.split)

lemma ingest_pop_fields [store_fields]:
  "dget (ingest s) i = Some v \<Longrightarrow> fst (ingest_pop i s) = Some v"
  "ingest (snd (ingest_pop i s)) = ddel i (ingest s)"
  "lists (snd (ingest_pop i s)) = lists s" "pending (snd (ingest_pop i s)) = pending s"
  "inflight (snd (ingest_pop i s)) = inflight s" "leases (snd (ingest_pop i s)) = leases s"
  "payloads (snd (ingest_pop i s)) = payloads s"
  "shadow_lists (snd (ingest_pop i s)) = shadow_lists s"
  "shadow_pending (snd (ingest_pop i s)) = shadow_pending s"
  "dirty (snd (ingest_pop i s)) = dirty s" "persist_gen (snd (ingest_pop i s)) = persist_gen s"
  "ingest_heap_for_band (snd (ingest_pop i s)) b = ingest_heap_for_band s b"
  by (simp_all add: ingest_pop_def Let_def store_fields ddel_notin dget_None_iff split: option.split)

lemma ingest_pop_shadow [store_fields]:
  assumes "dget (ingest s) i = Some v"
  shows "shadow_ingest (snd (ingest_pop i s)) = ddel i (shadow_ingest s)"
    "shadow_payloads (snd (ingest_pop i s)) = ddel (JOB_KIND_INGEST, i) (shadow_payloads s)"
  using assms by (simp_all add: ingest_pop_def Let_def store_fields)

lemma list_append_fields [store_fields]:
  "ingest (list_append k i s) = ingest s"
  "ingest_hot_n (list_append k i s) = ingest_hot_n s" "ingest_catchup_n (list_append k i s) = ingest_catchup_n s"
  "ingest_heap_for_band (list_append k i s) b = ingest_heap_for_band s b"
  "lists (list_append k i s) = (lists s)(k := lists s k @ [i])"
  "pending (list_append k i s) = (pending s)(k := insert i (pending s k))"
  "inflight (list_append k i s) = inflight s" "leases (list_append k i s) = leases s"
  "payloads (list_append k i s) = payloads s" "shadow_ingest (list_append k i s) = shadow_ingest s"
  "shadow_lists (list_append k i s) = (shadow_lists s)(k := shadow_lists s k @ [i])"
  "shadow_pending (list_append k i s) = (shadow_pending s)(k := insert i (shadow_pending s k))"
  "dirty (list_append k i s) = dirty s" "persist_gen (list_append k i s) = persist_gen s"
  by (simp_all add: list_append_def store_fields)

lemma list_append_payloads [store_fields]:
  assumes "k \<in> set JOB_KINDS_LIST"
  shows "shadow_payloads (list_append k i s) =
     (case dget (payloads s) (k, i) of
        None \<Rightarrow> ddel (k, i) (shadow_payloads s) | Some fs \<Rightarrow> dset (k, i) fs (shadow_payloads s))"
  using assms by (auto simp: list_append_def shadow_sync_payload_def identity_is_queued_def job_kind_defs split: option.split)

subsection \<open>Counting in dictionaries\<close>

lemma length_filter_ddel:
  "distinct (keys d) \<Longrightarrow>
     length (filter P d) = length (filter P (ddel i d)) + (case dget d i of None \<Rightarrow> 0 | Some v \<Rightarrow> if P (i, v) then 1 else 0)"
proof (induction d)
  case (Cons e d)
  then show ?case by (cases "fst e = i"; cases e) (simp_all add: ddel_notin)
qed simp

lemma length_filter_dset:
  "distinct (keys d) \<Longrightarrow> length (filter P (dset i v d)) = length (filter P (ddel i d)) + (if P (i, v) then 1 else 0)"
proof (induction d)
  case (Cons e d)
  then show ?case by (cases "fst e = i"; cases e) (simp_all add: ddel_notin)
qed simp

lemma counts_set:
  assumes "counts_ok s" "ingest_ok s"
  shows "counts_ok (ingest_set i v s)"
proof -
  let ?P = "\<lambda>b (_ :: string, sc). decode_ingest_band sc = b"
  have dist: "distinct (keys (ingest s))" using assms(2) by (simp add: ingest_ok_def)
  note old = length_filter_ddel[OF dist, of "?P _" i]
  note new = length_filter_dset[OF dist, of "?P _" i v]
  have n: "band_n (ingest_set i v s) b =
    int (length (filter (?P b) (ddel i (ingest s)))) + (if decode_ingest_band v = b then 1 else 0)" for b
    using new[of b] by (simp add: band_n_def store_fields)
  show ?thesis
  proof (cases "dget (ingest s) i")
    case None
    then show ?thesis
      using assms(1) old[of "''hot''"] old[of "''catchup''"] decode_band_cases[of v]
      unfolding counts_ok_def n
      by (auto simp: ingest_set_def Let_def store_fields band_n_def ingest_band_inc_def)
  next
    case (Some u)
    then show ?thesis
      using assms(1) old[of "''hot''"] old[of "''catchup''"] decode_band_cases[of v] decode_band_cases[of u]
      unfolding counts_ok_def n
      by (auto simp: ingest_set_def Let_def store_fields band_n_def ingest_band_inc_def ingest_band_dec_def)
  qed
qed

lemma counts_pop:
  assumes "counts_ok s" "ingest_ok s"
  shows "counts_ok (snd (ingest_pop i s))"
proof (cases "dget (ingest s) i")
  case None
  then show ?thesis using assms(1) by (simp add: ingest_pop_def)
next
  case (Some u)
  let ?P = "\<lambda>b (_ :: string, sc). decode_ingest_band sc = b"
  have dist: "distinct (keys (ingest s))" using assms(2) by (simp add: ingest_ok_def)
  note old = length_filter_ddel[OF dist, of "?P _" i]
  show ?thesis
    using Some assms(1) old[of "''hot''"] old[of "''catchup''"] decode_band_cases[of u]
    by (auto simp: counts_ok_def ingest_pop_def Let_def store_fields band_n_def ingest_band_dec_def)
qed

subsection \<open>Queue membership\<close>

lemma kind_facts [simp]:
  "JOB_KIND_INGEST \<notin> set JOB_KINDS_LIST" "k \<in> set JOB_KINDS_LIST \<Longrightarrow> k \<noteq> JOB_KIND_INGEST"
  "JOB_KIND_INGEST \<in> set JOB_KINDS_ALL" "k \<in> set JOB_KINDS_LIST \<Longrightarrow> k \<in> set JOB_KINDS_ALL"
  by (auto simp: job_kind_defs)

lemma queued_ingest: "identity_is_queued s JOB_KIND_INGEST i \<longleftrightarrow> dget (ingest s) i \<noteq> None"
  by (simp add: identity_is_queued_def)

lemma queued_after [store_fields]:
  "identity_is_queued (ingest_set i v s) k j \<longleftrightarrow> identity_is_queued s k j \<or> (k = JOB_KIND_INGEST \<and> j = i)"
  "identity_is_queued (snd (ingest_pop i s)) k j \<longleftrightarrow> identity_is_queued s k j \<and> (k, j) \<noteq> (JOB_KIND_INGEST, i)"
  "identity_is_queued (shadow_sync_payload k' i' s) = identity_is_queued s"
  "identity_is_queued (ingest_heap_push i' v s) = identity_is_queued s"
  "identity_is_queued (set_heap_for_band b h s) = identity_is_queued s"
  by (auto simp: identity_is_queued_def store_fields fun_eq_iff)

lemma queued_append [store_fields]:
  "k \<in> set JOB_KINDS_LIST \<Longrightarrow>
     identity_is_queued (list_append k i s) k' j \<longleftrightarrow> identity_is_queued s k' j \<or> (k' = k \<and> j = i)"
  by (auto simp: identity_is_queued_def store_fields)

lemma queued_upd [store_fields]:
  "identity_is_queued (s\<lparr>lists := x3\<rparr>) = identity_is_queued s"
  "identity_is_queued (s\<lparr>inflight := x5\<rparr>) = identity_is_queued s"
  "identity_is_queued (s\<lparr>leases := x6\<rparr>) = identity_is_queued s"
  "identity_is_queued (s\<lparr>payloads := x7\<rparr>) = identity_is_queued s"
  "identity_is_queued (s\<lparr>shadow_ingest := x1\<rparr>) = identity_is_queued s"
  "identity_is_queued (s\<lparr>shadow_lists := x3\<rparr>) = identity_is_queued s"
  "identity_is_queued (s\<lparr>shadow_pending := x4\<rparr>) = identity_is_queued s"
  "identity_is_queued (s\<lparr>shadow_payloads := x7\<rparr>) = identity_is_queued s"
  "identity_is_queued (s\<lparr>dirty := x8\<rparr>) = identity_is_queued s"
  "identity_is_queued (s\<lparr>persist_gen := x2\<rparr>) = identity_is_queued s"
  "identity_is_queued (s\<lparr>last_persist := x9\<rparr>) = identity_is_queued s"
  by (auto simp: identity_is_queued_def fun_eq_iff)

lemma band_n_upd [store_fields]:
  "band_n (s\<lparr>lists := x3\<rparr>) b = band_n s b" "band_n (s\<lparr>pending := x4\<rparr>) b = band_n s b"
  "band_n (s\<lparr>inflight := x5\<rparr>) b = band_n s b" "band_n (s\<lparr>leases := x6\<rparr>) b = band_n s b"
  "band_n (s\<lparr>payloads := x7\<rparr>) b = band_n s b" "band_n (s\<lparr>shadow_lists := x3\<rparr>) b = band_n s b"
  "band_n (s\<lparr>shadow_pending := x4\<rparr>) b = band_n s b" "band_n (s\<lparr>shadow_payloads := x7\<rparr>) b = band_n s b"
  "band_n (s\<lparr>dirty := x8\<rparr>) b = band_n s b" "band_n (s\<lparr>persist_gen := x2\<rparr>) b = band_n s b"
  "band_n (s\<lparr>last_persist := x9\<rparr>) b = band_n s b" "band_n (shadow_sync_payload k i s) b = band_n s b"
  "band_n (set_heap_for_band b' h s) b = band_n s b" "band_n (ingest_heap_push i v s) b = band_n s b"
  "band_n (list_append k i s) b = band_n s b"
  by (simp_all add: band_n_def store_fields)

subsection \<open>Preservation by the primitives\<close>

lemma mem_ddel: "e \<in> set (ddel k d) \<longleftrightarrow> e \<in> set d \<and> fst e \<noteq> k"
  by (simp add: ddel_filter)

lemma ingest_set_ok:
  assumes ok: "store_ok s" and v: "integral v" and free: "dget (inflight s JOB_KIND_INGEST) i = None"
  shows "store_ok (ingest_set i v s)"
proof (rule store_okI)
  note D = store_okD[OF ok]
  have dist: "distinct (keys (ingest s))" using D(1) by (simp add: ingest_ok_def)
  show "ingest_ok (ingest_set i v s)"
    using D(1) v by (auto simp: ingest_ok_def store_fields dset_distinct_split)
  show "heaps_ok (ingest_set i v s)"
    using D(2) decode_band_cases[of v]
    by (auto simp: heaps_ok_def store_fields dset_distinct_split[OF dist] sorted_insort set_insort_key)
  show "counts_ok (ingest_set i v s)" by (rule counts_set[OF D(3,1)])
  show "lists_ok (ingest_set i v s)" using D(4) by (simp add: lists_ok_def store_fields)
  show "flight_ok (ingest_set i v s)" using D(5) free by (auto simp: flight_ok_def store_fields)
  show "payload_ok (ingest_set i v s)"
    using D(6) by (auto simp: payload_ok_def store_fields queued_ingest split: option.split)
  show "shadow_ok (ingest_set i v s)" using D(7) by (simp add: shadow_ok_def store_fields)
qed

lemma ingest_pop_ok:
  assumes ok: "store_ok s"
  shows "store_ok (snd (ingest_pop i s))"
proof (cases "dget (ingest s) i")
  case None
  then show ?thesis using ok by (simp add: ingest_pop_def)
next
  case (Some u)
  note D = store_okD[OF ok]
  show ?thesis
  proof (rule store_okI)
    show "ingest_ok (snd (ingest_pop i s))" using D(1) by (auto simp: ingest_ok_def store_fields mem_ddel)
    show "heaps_ok (snd (ingest_pop i s))" using D(2) by (auto simp: heaps_ok_def store_fields mem_ddel)
    show "counts_ok (snd (ingest_pop i s))" by (rule counts_pop[OF D(3,1)])
    show "lists_ok (snd (ingest_pop i s))" using D(4) by (simp add: lists_ok_def store_fields)
    show "flight_ok (snd (ingest_pop i s))" using D(5) by (auto simp: flight_ok_def store_fields)
    show "payload_ok (snd (ingest_pop i s))" using D(6) Some by (auto simp: payload_ok_def store_fields)
    show "shadow_ok (snd (ingest_pop i s))" using D(7) Some by (simp add: shadow_ok_def store_fields)
  qed
qed

lemma lease_out_ok:
  assumes ok: "store_ok s" and q: "\<not> identity_is_queued s k i" and k: "k \<in> set JOB_KINDS_ALL"
    and e: "entry_ok k (dl, owner, sc)"
  shows "store_ok (lease_out k i dl owner sc s)"
proof (rule store_okI)
  note D = store_okD[OF ok]
  have dist: "distinct (keys (inflight s k))" using D(5) by (simp add: flight_ok_def)
  show "flight_ok (lease_out k i dl owner sc s)"
    using D(5) q k e by (auto simp: flight_ok_def store_fields lease_out_def dset_distinct_split[OF dist]) blast
qed (use store_okD[OF ok] in \<open>simp_all add: ingest_ok_def heaps_ok_def counts_ok_def lists_ok_def payload_ok_def
      shadow_ok_def lease_out_def store_fields\<close>)

lemma release_ok:
  assumes ok: "store_ok s"
  shows "store_ok (release k i s)"
proof (rule store_okI)
  show "flight_ok (release k i s)"
    using store_okD(5)[OF ok] by (auto simp: flight_ok_def store_fields release_def mem_ddel)
qed (use store_okD[OF ok] in \<open>simp_all add: ingest_ok_def heaps_ok_def counts_ok_def lists_ok_def payload_ok_def
      shadow_ok_def release_def store_fields\<close>)

lemma release_free [simp]: "dget (inflight (release k i s) k) i = None"
  by (simp add: release_def)

lemma list_append_ok:
  assumes ok: "store_ok s" and k: "k \<in> set JOB_KINDS_LIST"
    and q: "\<not> identity_is_queued s k i" and free: "dget (inflight s k) i = None"
  shows "store_ok (list_append k i s)"
proof (rule store_okI)
  note D = store_okD[OF ok]
  have "i \<notin> set (lists s k)" using D(4) q k by (auto simp: lists_ok_def identity_is_queued_def)
  then show "lists_ok (list_append k i s)" using D(4) k by (auto simp: lists_ok_def store_fields)
  show "flight_ok (list_append k i s)" using D(5) free k by (auto simp: flight_ok_def store_fields)
  show "payload_ok (list_append k i s)"
    using D(6) k by (auto simp: payload_ok_def store_fields split: option.split)
  show "shadow_ok (list_append k i s)" using D(7) by (simp add: shadow_ok_def store_fields)
qed (use store_okD[OF ok] in \<open>simp_all add: ingest_ok_def heaps_ok_def counts_ok_def store_fields\<close>)

lemma mark_dirty_ok [simp]: "store_ok (mark_dirty s) \<longleftrightarrow> store_ok s"
  by (simp add: mark_dirty_def store_ok_defs store_fields)


lemma set_heap_ok:
  assumes ok: "store_ok s" and b: "b = ''hot'' \<or> b = ''catchup''"
    and h: "sorted h" "set h \<subseteq> set (ingest_heap_for_band s b)"
    and live: "\<And>i v. (i, v) \<in> set (ingest s) \<Longrightarrow> decode_ingest_band v = b \<Longrightarrow> (v, i) \<in> set h"
  shows "store_ok (set_heap_for_band b h s)"
proof (rule store_okI)
  show "heaps_ok (set_heap_for_band b h s)"
    using store_okD(2)[OF ok] b h live decode_band_cases by (fastforce simp: heaps_ok_def store_fields)
qed (use store_okD[OF ok] in \<open>simp_all add: ingest_ok_def counts_ok_def lists_ok_def flight_ok_def payload_ok_def
      shadow_ok_def store_fields\<close>)

lemma heap_push_ok:
  assumes ok: "store_ok s"
  shows "store_ok (ingest_heap_push i v s)"
proof (rule store_okI)
  show "heaps_ok (ingest_heap_push i v s)"
    using store_okD(2)[OF ok] decode_band_cases[of v]
    by (auto simp: heaps_ok_def store_fields sorted_insort set_insort_key)
qed (use store_okD[OF ok] in \<open>simp_all add: ingest_ok_def counts_ok_def lists_ok_def flight_ok_def payload_ok_def
      shadow_ok_def store_fields\<close>)

lemma list_popleft_fields [store_fields]:
  "ingest (list_popleft k i r s) = ingest s"
  "ingest_hot_n (list_popleft k i r s) = ingest_hot_n s" "ingest_catchup_n (list_popleft k i r s) = ingest_catchup_n s"
  "ingest_heap_for_band (list_popleft k i r s) b = ingest_heap_for_band s b"
  "lists (list_popleft k i r s) = (lists s)(k := r)"
  "pending (list_popleft k i r s) = (pending s)(k := pending s k - {i})"
  "inflight (list_popleft k i r s) = inflight s" "leases (list_popleft k i r s) = leases s"
  "payloads (list_popleft k i r s) = payloads s" "shadow_ingest (list_popleft k i r s) = shadow_ingest s"
  "shadow_pending (list_popleft k i r s) = (shadow_pending s)(k := shadow_pending s k - {i})"
  "shadow_payloads (list_popleft k i r s) = ddel (k, i) (shadow_payloads s)"
  "dirty (list_popleft k i r s) = dirty s" "persist_gen (list_popleft k i r s) = persist_gen s"
  by (simp_all add: list_popleft_def shadow_list_drop_def Let_def store_fields split: list.split)

lemma list_popleft_shadow [store_fields]:
  "shadow_lists s k = i # r \<Longrightarrow> shadow_lists (list_popleft k i r' s) = (shadow_lists s)(k := r)"
  by (simp add: list_popleft_def shadow_list_drop_def Let_def)

lemma queued_popleft [store_fields]:
  "k \<in> set JOB_KINDS_LIST \<Longrightarrow>
     identity_is_queued (list_popleft k i r s) k' j \<longleftrightarrow> identity_is_queued s k' j \<and> (k', j) \<noteq> (k, i)"
  by (auto simp: identity_is_queued_def store_fields)

lemma list_popleft_ok:
  assumes ok: "store_ok s" and k: "k \<in> set JOB_KINDS_LIST" and l: "lists s k = i # r"
  shows "store_ok (list_popleft k i r s)"
proof (rule store_okI)
  note D = store_okD[OF ok]
  have sh: "shadow_lists s k = i # r" using D(7) l by (simp add: shadow_ok_def)
  have "distinct (i # r)" "pending s k = set (i # r)"
    using D(4) l unfolding lists_ok_def by metis+
  then show "lists_ok (list_popleft k i r s)" using D(4) k by (auto simp: lists_ok_def store_fields)
  show "flight_ok (list_popleft k i r s)" using D(5) k by (auto simp: flight_ok_def store_fields)
  show "payload_ok (list_popleft k i r s)" using D(6) k by (auto simp: payload_ok_def store_fields)
  show "shadow_ok (list_popleft k i r s)" using D(7) sh by (simp add: shadow_ok_def store_fields)
qed (use store_okD[OF ok] in \<open>simp_all add: ingest_ok_def heaps_ok_def counts_ok_def store_fields band_n_def\<close>)

lemma put_payload_sync_ok:
  assumes ok: "store_ok s"
  shows "store_ok (shadow_sync_payload k i (put_payload k i nm val s))"
proof (rule store_okI)
  show "payload_ok (shadow_sync_payload k i (put_payload k i nm val s))"
    using store_okD(6)[OF ok]
    by (auto simp: payload_ok_def store_fields put_payload_def shadow_sync_payload_def)
qed (use store_okD[OF ok] in \<open>simp_all add: ingest_ok_def heaps_ok_def counts_ok_def lists_ok_def flight_ok_def
      shadow_ok_def put_payload_def store_fields\<close>)

lemma put_payload_unqueued_ok:
  assumes ok: "store_ok s" and q: "\<not> identity_is_queued s k i"
  shows "store_ok (put_payload k i nm val s)"
proof (rule store_okI)
  show "payload_ok (put_payload k i nm val s)"
    using store_okD(6)[OF ok] q by (auto simp: payload_ok_def store_fields put_payload_def)
qed (use store_okD[OF ok] in \<open>simp_all add: ingest_ok_def heaps_ok_def counts_ok_def lists_ok_def flight_ok_def
      shadow_ok_def put_payload_def store_fields\<close>)

lemma drop_payload_ok:
  assumes ok: "store_ok s" and q: "\<not> identity_is_queued s k i"
  shows "store_ok (s\<lparr>payloads := ddel (k, i) (payloads s)\<rparr>)"
proof (rule store_okI)
  show "payload_ok (s\<lparr>payloads := ddel (k, i) (payloads s)\<rparr>)"
    using store_okD(6)[OF ok] q by (auto simp: payload_ok_def store_fields)
qed (use store_okD[OF ok] in \<open>simp_all add: ingest_ok_def heaps_ok_def counts_ok_def lists_ok_def flight_ok_def
      shadow_ok_def store_fields\<close>)

lemma new_store_ok: "store_ok new_store"
  by (simp add: store_ok_defs new_store_def ingest_heap_for_band_def band_n_def identity_is_queued_def)

end
