(* ===== verification/Job_Claims.thy ===== *)
theory Job_Claims
  imports Job_Store_Inv
begin

text \<open>
  What a claim returns. The abstract view of a score band is \<open>band_queue\<close>: the queued
  ingest jobs of the band in order of score and identity. The heap behind a band is lazy
  (stale entries stay until a claim meets them), so the claim loop of the code is analysed
  with a weight that every turn lowers; twice the heap length bounds the turns.
\<close>

definition band_items :: "job_store \<Rightarrow> string \<Rightarrow> (f64 \<times> string) list" where
  "band_items s b = map (\<lambda>(i, v). (v, i)) (filter (\<lambda>(_, v). decode_ingest_band v = b) (ingest s))"

definition band_queue :: "job_store \<Rightarrow> string \<Rightarrow> (f64 \<times> string) list" where
  "band_queue s b = sort (band_items s b)"

definition entry_weight :: "job_store \<Rightarrow> f64 \<times> string \<Rightarrow> nat" where
  "entry_weight s e = (case dget (ingest s) (snd e) of None \<Rightarrow> 1 | Some u \<Rightarrow> if u = fst e then 1 else 2)"

definition heap_weight :: "job_store \<Rightarrow> string \<Rightarrow> nat" where
  "heap_weight s b = sum_list (map (entry_weight s) (ingest_heap_for_band s b))"

definition band_job :: "job_store \<Rightarrow> string \<Rightarrow> f64 \<Rightarrow> f64 \<times> string \<Rightarrow> ClaimedJob" where
  "band_job s owner dl = (\<lambda>(v, i). claimed_ingest i owner dl v s)"

subsection \<open>The abstract band queue\<close>

lemma set_band_items: "(v, i) \<in> set (band_items s b) \<longleftrightarrow> (i, v) \<in> set (ingest s) \<and> decode_ingest_band v = b"
  by (auto simp: band_items_def)

lemma dget_mem: "distinct (keys d) \<Longrightarrow> dget d k = Some v \<longleftrightarrow> (k, v) \<in> set d"
  by (rule map_of_eq_Some_iff)

lemma sort_min:
  fixes x :: "'a::linorder"
  assumes "x \<in> set xs" "\<And>y. y \<in> set xs \<Longrightarrow> x \<le> y"
  shows "sort xs = x # sort (remove1 x xs)"
proof (rule properties_for_sort)
  show "mset (x # sort (remove1 x xs)) = mset xs" using assms(1) by simp
  show "sorted (x # sort (remove1 x xs))" using assms(2) notin_set_remove1 by (fastforce dest: in_set_remove1[THEN iffD1, rotated])
qed

lemma band_items_del:
  assumes "distinct (keys (ingest s))" "(i, v) \<in> set (ingest s)" "ingest t = ddel i (ingest s)" "decode_ingest_band v = b"
  shows "band_items t b = remove1 (v, i) (band_items s b)"
proof -
  have *: "distinct (keys d) \<Longrightarrow> (i, v) \<in> set d \<Longrightarrow>
     map (\<lambda>(i, v). (v, i)) (filter (\<lambda>(_, v). decode_ingest_band v = b) (ddel i d)) =
     remove1 (v, i) (map (\<lambda>(i, v). (v, i)) (filter (\<lambda>(_, v). decode_ingest_band v = b) d))" for d
  proof (induction d)
    case (Cons e d)
    show ?case
    proof (cases "fst e = i")
      case True
      with Cons.prems have "e = (i, v)" "i \<notin> set (keys d)" by (cases e; force)+
      then show ?thesis using assms(4) by (simp add: ddel_notin)
    next
      case False
      with Cons show ?thesis by (cases e) auto
    qed
  qed simp
  show ?thesis using *[OF assms(1,2)] assms(3) by (simp add: band_items_def)
qed

subsection \<open>Score ranges\<close>

lemma range_of_band:
  assumes "b = ''hot'' \<or> b = ''catchup''"
  shows "ingest_score_range b = Inr (if b = ''hot'' then (NInf, Fin (10 ^ 15 - 1)) else (Fin (10 ^ 15), PInf))"
proof -
  have "norm_band ''hot'' = ''hot''" "norm_band ''catchup'' = ''catchup''" by code_simp+
  with assms show ?thesis using hot_high by (auto simp: ingest_score_range_def)
qed

lemma integral_in_range:
  assumes "integral v" "decode_ingest_band v = b"
    and "rng = (if b = ''hot'' then (NInf, Fin (10 ^ 15 - 1)) else (Fin (10 ^ 15), PInf))"
  shows "fle (fst rng) v \<and> fle v (snd rng)"
proof (cases v)
  case (Fin q)
  then obtain n :: int where n: "q = of_int n" using assms(1) by (auto simp: integral_def elim: Ints_cases)
  have "rat_of_int n < 10 ^ 15 \<longleftrightarrow> n < 10 ^ 15" "rat_of_int n \<le> 10 ^ 15 - 1 \<longleftrightarrow> n \<le> 10 ^ 15 - 1"
    using of_int_less_iff[of n "10 ^ 15", where 'a = rat] of_int_le_iff[of n "10 ^ 15 - 1", where 'a = rat] by simp_all
  then show ?thesis
    using Fin n assms(2,3) by (auto simp: decode_ingest_band_def fle_def less_eq_f64_def split: if_splits)
qed (use assms in \<open>auto simp: integral_def decode_ingest_band_def flt_def fle_def less_f64_def less_eq_f64_def\<close>)

lemma integral_not_nan [simp]: "integral v \<Longrightarrow> v \<noteq> NaN"
  by (auto simp: integral_def)


subsection \<open>One turn of the claim loop\<close>

lemma pop_commutes:
  "lease_out k i dl owner sc (snd (ingest_pop i (set_heap_for_band b r s))) =
   set_heap_for_band b r (lease_out k i dl owner sc (snd (ingest_pop i s)))"
  by (simp add: ingest_pop_def set_heap_for_band_def lease_out_def ingest_band_dec_def Let_def split: option.split)

lemma lease_out_fields [store_fields]:
  "ingest (lease_out k i dl owner sc s) = ingest s" "lists (lease_out k i dl owner sc s) = lists s"
  "pending (lease_out k i dl owner sc s) = pending s" "payloads (lease_out k i dl owner sc s) = payloads s"
  "dirty (lease_out k i dl owner sc s) = dirty s" "persist_gen (lease_out k i dl owner sc s) = persist_gen s"
  "inflight (lease_out k i dl owner sc s) = (inflight s)(k := dset i (dl, owner, sc) (inflight s k))"
  "ingest_heap_for_band (lease_out k i dl owner sc s) b = ingest_heap_for_band s b"
  "shadow_ingest (lease_out k i dl owner sc s) = shadow_ingest s"
  "shadow_lists (lease_out k i dl owner sc s) = shadow_lists s"
  "shadow_pending (lease_out k i dl owner sc s) = shadow_pending s"
  "shadow_payloads (lease_out k i dl owner sc s) = shadow_payloads s"
  by (simp_all add: lease_out_def store_fields)

lemma entry_weight_cong: "ingest s = ingest t \<Longrightarrow> entry_weight s = entry_weight t"
  by (simp add: entry_weight_def fun_eq_iff)

lemma entry_weight_pos: "1 \<le> entry_weight s e"
  by (simp add: entry_weight_def split: option.split)

lemma heap_weight_le: "heap_weight s b \<le> 2 * length (ingest_heap_for_band s b)"
proof -
  have "entry_weight s e \<le> 2" for e by (simp add: entry_weight_def split: option.split)
  then have "sum_list (map (entry_weight s) h) \<le> sum_list (map (\<lambda>_. 2) h)" for h
    by (intro sum_list_mono)
  moreover have "sum_list (map (\<lambda>_. 2) h) = 2 * length h" for h :: "(f64 \<times> string) list"
    by (induction h) auto
  ultimately have "sum_list (map (entry_weight s) h) \<le> 2 * length h" for h by metis
  then show ?thesis by (simp add: heap_weight_def)
qed

lemma sum_list_insort: "sum_list (map f (insort x xs)) = f x + (sum_list (map f xs) :: nat)"
  by (induction xs) auto

lemma heap_facts:
  assumes "store_ok s" "b = ''hot'' \<or> b = ''catchup''"
  shows "sorted (ingest_heap_for_band s b)" "\<forall>e \<in> set (ingest_heap_for_band s b). decode_ingest_band (fst e) = b"
    "(i, v) \<in> set (ingest s) \<Longrightarrow> decode_ingest_band v = b \<Longrightarrow> (v, i) \<in> set (ingest_heap_for_band s b)"
  using assms by (force simp: store_ok_def heaps_ok_def)+

lemma turn_stale:
  \<comment> \<open>The popped entry is not a live one: it is dropped.\<close>
  assumes ok: "store_ok s" and b: "b = ''hot'' \<or> b = ''catchup''"
    and h: "ingest_heap_for_band s b = (snap, i) # r" and st: "dget (ingest s) i \<noteq> Some snap"
  shows "store_ok (set_heap_for_band b r s)" "band_queue (set_heap_for_band b r s) b = band_queue s b"
    "heap_weight (set_heap_for_band b r s) b < heap_weight s b"
proof -
  note D = store_okD[OF ok]
  have dist: "distinct (keys (ingest s))" using D(1) by (simp add: ingest_ok_def)
  have sr: "sorted r" using heap_facts(1)[OF ok b] h by (metis sorted_simps(2))
  show "store_ok (set_heap_for_band b r s)"
  proof (rule set_heap_ok[OF ok b sr])
    show "set r \<subseteq> set (ingest_heap_for_band s b)" using h by auto
    fix j v assume j: "(j, v) \<in> set (ingest s)" "decode_ingest_band v = b"
    then have "(v, j) \<in> set (ingest_heap_for_band s b)" by (rule heap_facts(3)[OF ok b])
    moreover have "(v, j) \<noteq> (snap, i)" using j(1) st dget_mem[OF dist] by auto
    ultimately show "(v, j) \<in> set r" using h by auto
  qed
  show "band_queue (set_heap_for_band b r s) b = band_queue s b"
    by (simp add: band_queue_def band_items_def store_fields)
  show "heap_weight (set_heap_for_band b r s) b < heap_weight s b"
    using entry_weight_pos[of s "(snap, i)"] h
    by (simp add: heap_weight_def store_fields cong: entry_weight_cong)
qed


lemma turn_rearm:
  \<comment> \<open>The popped entry carries an outdated score: the live one is pushed.\<close>
  assumes ok: "store_ok s" and b: "b = ''hot'' \<or> b = ''catchup''"
    and h: "ingest_heap_for_band s b = (snap, i) # r" and l: "dget (ingest s) i = Some live" "live \<noteq> snap"
  defines "t \<equiv> ingest_heap_push i live (set_heap_for_band b r s)"
  shows "store_ok t" "band_queue t b = band_queue s b" "heap_weight t b < heap_weight s b"
proof -
  have st: "dget (ingest s) i \<noteq> Some snap" using l by simp
  show "store_ok t" unfolding t_def by (rule heap_push_ok) (rule turn_stale(1)[OF ok b h st])
  show "band_queue t b = band_queue s b" by (simp add: t_def band_queue_def band_items_def store_fields)
  have w: "entry_weight t = entry_weight s" by (rule entry_weight_cong) (simp add: t_def store_fields)
  have "heap_weight t b \<le> Suc (sum_list (map (entry_weight s) r))"
    using l by (simp add: heap_weight_def w) (simp add: t_def store_fields sum_list_insort, simp add: entry_weight_def)
  moreover have "heap_weight s b = 2 + sum_list (map (entry_weight s) r)"
    using h l by (simp add: heap_weight_def entry_weight_def)
  ultimately show "heap_weight t b < heap_weight s b" by simp
qed

lemma turn_claim:
  \<comment> \<open>The popped entry is live: it is the least of the band, and is leased out.\<close>
  fixes dl :: f64
  assumes ok: "store_ok s" and b: "b = ''hot'' \<or> b = ''catchup''" and owner: "owner \<noteq> []"
    and h: "ingest_heap_for_band s b = (live, i) # r" and l: "dget (ingest s) i = Some live"
  defines "t \<equiv> lease_out JOB_KIND_INGEST i dl owner (Some live) (snd (ingest_pop i (set_heap_for_band b r s)))"
  shows "store_ok t" "band_queue s b = (live, i) # band_queue t b" "heap_weight t b < heap_weight s b"
    "integral live" "decode_ingest_band live = b"
proof -
  note D = store_okD[OF ok]
  have dist: "distinct (keys (ingest s))" using D(1) by (simp add: ingest_ok_def)
  have mem: "(i, live) \<in> set (ingest s)" using l dist by (simp add: dget_mem)
  then show iv: "integral live" using D(1) by (force simp: ingest_ok_def)
  have srt: "sorted ((live, i) # r)" using heap_facts(1)[OF ok b] h by metis
  have band: "decode_ingest_band live = b" using heap_facts(2)[OF ok b] h by simp
  then show "decode_ingest_band live = b" by simp
  define u where "u = lease_out JOB_KIND_INGEST i dl owner (Some live) (snd (ingest_pop i s))"
  have t: "t = set_heap_for_band b r u" by (simp add: t_def u_def pop_commutes)
  have u_ok: "store_ok u"
    unfolding u_def
    by (rule lease_out_ok[OF ingest_pop_ok[OF ok]]) (use owner iv in \<open>simp_all add: store_fields entry_ok_def\<close>)
  have uf: "ingest u = ddel i (ingest s)" "ingest_heap_for_band u b = (live, i) # r"
    using h by (simp_all add: u_def store_fields)
  show "store_ok t" unfolding t
  proof (rule set_heap_ok[OF u_ok b])
    show "sorted r" using srt by simp
    show "set r \<subseteq> set (ingest_heap_for_band u b)" using uf by auto
    fix j v assume j: "(j, v) \<in> set (ingest u)" "decode_ingest_band v = b"
    then have "(v, j) \<in> set (ingest_heap_for_band u b)" by (rule heap_facts(3)[OF u_ok b])
    moreover have "j \<noteq> i" using j(1) uf(1) by (simp add: mem_ddel)
    ultimately show "(v, j) \<in> set r" using uf(2) by auto
  qed
  have tf: "ingest t = ddel i (ingest s)" by (simp add: t store_fields uf)
  have "(live, i) \<le> e" if "e \<in> set (band_items s b)" for e
  proof -
    obtain v j where e: "e = (v, j)" by (cases e)
    with that have "e \<in> set ((live, i) # r)"
      using heap_facts(3)[OF ok b, of j v] h by (simp add: set_band_items)
    then show ?thesis using srt by (metis order_refl set_ConsD sorted_simps(2))
  qed
  moreover have "(live, i) \<in> set (band_items s b)" using mem band by (simp add: set_band_items)
  ultimately have "band_queue s b = (live, i) # sort (remove1 (live, i) (band_items s b))"
    unfolding band_queue_def by (rule sort_min[rotated])
  also have "remove1 (live, i) (band_items s b) = band_items t b"
    by (rule band_items_del[OF dist mem tf band, symmetric])
  finally show "band_queue s b = (live, i) # band_queue t b" by (simp add: band_queue_def)
  have "entry_weight t e \<le> entry_weight s e" for e
    by (simp add: entry_weight_def tf split: option.split)
  then have "sum_list (map (entry_weight t) r) \<le> sum_list (map (entry_weight s) r)" by (intro sum_list_mono)
  then show "heap_weight t b < heap_weight s b"
    using entry_weight_pos[of s "(live, i)"] h by (simp add: heap_weight_def t store_fields)
qed


subsection \<open>The whole loop\<close>

definition lease_band :: "string \<Rightarrow> f64 \<Rightarrow> (f64 \<times> string) list \<Rightarrow> (string \<times> inflight_entry) list
    \<Rightarrow> (string \<times> inflight_entry) list" where
  "lease_band owner dl taken fl = fold (\<lambda>(v, i). dset i (dl, owner, Some v)) taken fl"

definition claim_post :: "string \<Rightarrow> f64 \<Rightarrow> (f64 \<times> string) list \<Rightarrow> job_store \<Rightarrow> job_store \<Rightarrow> bool" where
  \<comment> \<open>\<open>t\<close> is \<open>s\<close> with the jobs \<open>taken\<close> moved from the ingest queue to the inflight map.\<close>
  "claim_post owner dl taken s t \<longleftrightarrow>
     ingest t = filter (\<lambda>(i, _). i \<notin> snd ` set taken) (ingest s) \<and>
     inflight t = (inflight s)(JOB_KIND_INGEST := lease_band owner dl taken (inflight s JOB_KIND_INGEST)) \<and>
     lists t = lists s \<and> pending t = pending s \<and> payloads t = payloads s \<and>
     dirty t = dirty s \<and> persist_gen t = persist_gen s \<and>
     (taken = [] \<longrightarrow> shadow_ingest t = shadow_ingest s \<and> shadow_lists t = shadow_lists s \<and>
        shadow_pending t = shadow_pending s \<and> shadow_payloads t = shadow_payloads s)"

lemma claim_post_refl: "claim_post owner dl [] s s"
  by (simp add: claim_post_def lease_band_def)

lemma claim_post_heap:
  "claim_post owner dl taken (set_heap_for_band b h s) t \<longleftrightarrow> claim_post owner dl taken s t"
  "claim_post owner dl taken (ingest_heap_push i v s) t \<longleftrightarrow> claim_post owner dl taken s t"
  by (simp_all add: claim_post_def store_fields)

lemma claim_post_step:
  assumes "claim_post owner dl taken
    (lease_out JOB_KIND_INGEST i dl owner (Some v) (snd (ingest_pop i (set_heap_for_band b r s)))) t"
  shows "claim_post owner dl ((v, i) # taken) s t"
  using assms
  by (auto simp: claim_post_def store_fields lease_band_def ddel_filter intro!: filter_cong)

lemma band_job_payloads: "payloads s = payloads t \<Longrightarrow> band_job s = band_job t"
  by (simp add: band_job_def claimed_ingest_def fun_eq_iff)

lemma claim_loop_empty:
  assumes ok: "store_ok s" and b: "b = ''hot'' \<or> b = ''catchup''" and h: "ingest_heap_for_band s b = []"
  shows "claim_loop (Suc n) b rng owner dl want claimed s = Some (claimed, s)" "band_queue s b = []"
proof -
  show "claim_loop (Suc n) b rng owner dl want claimed s = Some (claimed, s)" using h by simp
  have "e \<notin> set (band_items s b)" for e
    using heap_facts(3)[OF ok b] h by (cases e) (auto simp: set_band_items)
  then have "band_items s b = []" by (meson all_not_in_conv set_empty)
  then show "band_queue s b = []" by (simp add: band_queue_def)
qed

lemma claim_loop_stale:
  \<comment> \<open>A turn on an entry that is not live continues with an equivalent, lighter store.\<close>
  assumes ok: "store_ok s" and b: "b = ''hot'' \<or> b = ''catchup''" and want: "length claimed < want"
    and h: "ingest_heap_for_band s b = (snap, i) # r" and st: "dget (ingest s) i \<noteq> Some snap"
  shows "\<exists>t. claim_loop (Suc n) b rng owner dl want claimed s = claim_loop n b rng owner dl want claimed t \<and>
    store_ok t \<and> band_queue t b = band_queue s b \<and> heap_weight t b < heap_weight s b \<and> payloads t = payloads s \<and>
    (\<forall>tk u. claim_post owner dl tk t u \<longleftrightarrow> claim_post owner dl tk s u)"
proof (cases "dget (inflight s JOB_KIND_INGEST) i \<noteq> None \<or> dget (ingest s) i = None")
  case True
  then show ?thesis
    using turn_stale[OF ok b h st] want h
    by (intro exI[of _ "set_heap_for_band b r s"]) (auto simp: claim_post_heap store_fields Let_def)
next
  case False
  then obtain live where l: "dget (ingest s) i = Some live" "live \<noteq> snap" using st by auto
  then show ?thesis
    using turn_rearm[OF ok b h l] False want h
    by (intro exI[of _ "ingest_heap_push i live (set_heap_for_band b r s)"]) (simp add: claim_post_heap store_fields)
qed

lemma claim_loop_live:
  \<comment> \<open>A turn on a live entry claims the first job of the band.\<close>
  fixes dl :: f64
  assumes ok: "store_ok s" and b: "b = ''hot'' \<or> b = ''catchup''" and want: "length claimed < want" and owner: "owner \<noteq> []"
    and rng: "rng = (if b = ''hot'' then (NInf, Fin (10 ^ 15 - 1)) else (Fin (10 ^ 15), PInf))"
    and h: "ingest_heap_for_band s b = (snap, i) # r" and live: "dget (ingest s) i = Some snap"
  shows "\<exists>t. claim_loop (Suc n) b rng owner dl want claimed s =
      claim_loop n b rng owner dl want (claimed @ [band_job s owner dl (snap, i)]) t \<and>
    store_ok t \<and> band_queue s b = (snap, i) # band_queue t b \<and> heap_weight t b < heap_weight s b \<and> payloads t = payloads s \<and>
    (\<forall>tk u. claim_post owner dl tk t u \<longrightarrow> claim_post owner dl ((snap, i) # tk) s u)"
proof -
  define t where "t = lease_out JOB_KIND_INGEST i dl owner (Some snap) (snd (ingest_pop i (set_heap_for_band b r s)))"
  note tc = turn_claim(1-3)[OF ok b owner h live, of dl, folded t_def] turn_claim(4,5)[OF ok b owner h live]
  have free: "dget (inflight s JOB_KIND_INGEST) i = None"
    by (rule queued_free[OF ok]) (simp add: queued_ingest live)
  have pl: "payloads t = payloads s" by (simp add: t_def store_fields)
  have "fle (fst rng) snap \<and> fle snap (snd rng)" by (rule integral_in_range[OF tc(4,5) rng])
  moreover have "claimed_ingest i owner dl snap t = band_job s owner dl (snap, i)"
    using pl by (simp add: band_job_def claimed_ingest_def)
  ultimately have "claim_loop (Suc n) b rng owner dl want claimed s =
      claim_loop n b rng owner dl want (claimed @ [band_job s owner dl (snap, i)]) t"
    using want h live free tc(4) by (simp add: t_def)
  then show ?thesis using tc(1-3) pl claim_post_step[of owner dl _ i snap b r s, folded t_def] by blast
qed

lemma claim_loop_exact:
  assumes rng: "rng = (if b = ''hot'' then (NInf, Fin (10 ^ 15 - 1)) else (Fin (10 ^ 15), PInf))"
    and b: "b = ''hot'' \<or> b = ''catchup''" and owner: "owner \<noteq> []"
    and "store_ok s" "heap_weight s b < fuel"
  shows "\<exists>t. claim_loop fuel b rng owner dl want claimed s =
      Some (claimed @ map (band_job s owner dl) (take (want - length claimed) (band_queue s b)), t) \<and>
    store_ok t \<and> claim_post owner dl (take (want - length claimed) (band_queue s b)) s t"
  using assms(4,5)
proof (induction fuel arbitrary: s claimed)
  case (Suc n)
  note ok = Suc.prems(1)
  consider (full) "\<not> length claimed < want" | (empty) "ingest_heap_for_band s b = []"
    | (turn) snap i r where "length claimed < want" "ingest_heap_for_band s b = (snap, i) # r"
    by (cases "ingest_heap_for_band s b") auto
  then show ?case
  proof cases
    case full
    then show ?thesis using ok by (simp add: claim_post_refl)
  next
    case empty
    then show ?thesis using ok claim_loop_empty(1)[OF ok b empty, of n] claim_loop_empty(2)[OF ok b empty] by (simp add: claim_post_refl del: claim_loop.simps)
  next
    case turn
    show ?thesis
    proof (cases "dget (ingest s) i = Some snap")
      case True
      obtain t where t: "claim_loop (Suc n) b rng owner dl want claimed s =
          claim_loop n b rng owner dl want (claimed @ [band_job s owner dl (snap, i)]) t"
        "store_ok t" "band_queue s b = (snap, i) # band_queue t b" "heap_weight t b < heap_weight s b" "payloads t = payloads s"
        "\<forall>tk u. claim_post owner dl tk t u \<longrightarrow> claim_post owner dl ((snap, i) # tk) s u"
        using claim_loop_live[OF ok b turn(1) owner rng turn(2) True, where n = n and dl = dl] by blast
      have "take (want - length claimed) (band_queue s b) = (snap, i) # take (want - Suc (length claimed)) (band_queue t b)"
        using turn(1) t(3) by (simp add: Suc_diff_Suc[symmetric])
      then show ?thesis
        using Suc.IH[OF t(2), of "claimed @ [band_job s owner dl (snap, i)]"] t(4,6) Suc.prems(2) band_job_payloads[OF t(5)]
        unfolding t(1) by auto
    next
      case False
      obtain t where t: "claim_loop (Suc n) b rng owner dl want claimed s = claim_loop n b rng owner dl want claimed t"
        "store_ok t" "band_queue t b = band_queue s b" "heap_weight t b < heap_weight s b" "payloads t = payloads s"
        "\<forall>tk u. claim_post owner dl tk t u \<longleftrightarrow> claim_post owner dl tk s u"
        using claim_loop_stale[OF ok b turn False] by blast
      then show ?thesis
        using Suc.IH[OF t(2), of claimed] Suc.prems(2) band_job_payloads[OF t(5)] unfolding t(1) by simp
    qed
  qed
qed simp

end
