(* ===== verification/Job_Leases.thy ===== *)
theory Job_Leases
  imports Job_Claims
begin

text \<open>
  The functions of \<^verbatim>\<open>sync_timedb_job_store.py\<close> that work on a store from outside the class:
  lease renewal, the reaper of expired leases, stealing from dead owners, reconciling this
  owner's orphans, payload fields, and the thin job wrappers. The liveness probe of a pid
  and this host's name and boot id are arguments.
  Then: every operation keeps \<open>store_ok\<close>, and the state machine of all of them
  (\<open>store_step\<close>, \<open>store_reach\<close>). \<open>job_view\<close> is the abstract specification: one status per
  job, and each operation is a transition of that status.
\<close>

definition renew_job_lease :: "job_cfg \<Rightarrow> string \<Rightarrow> string \<Rightarrow> string \<Rightarrow> int option \<Rightarrow> f64 \<Rightarrow> job_store \<Rightarrow> bool \<times> job_store" where
  "renew_job_lease cfg kd ident owner ttl_s now s =
     (if owner = [] then (False, s)
      else (case dget (inflight s kd) ident of
          None \<Rightarrow> (False, s)
        | Some (_, o', sc) \<Rightarrow>
            if o' \<noteq> owner then (False, s)
            else (True, lease_out kd ident (fadd now (of_int_f64 (lease_ttl cfg ttl_s))) o' sc s)))"

fun reap_loop :: "(string \<times> inflight_entry) list \<Rightarrow> string \<Rightarrow> f64 \<Rightarrow> nat \<Rightarrow> string list \<Rightarrow> job_store \<Rightarrow> string list \<times> job_store" where
  "reap_loop [] kd cutoff want out s = (out, s)"
| "reap_loop ((ident, (dl, owner, sc)) # items) kd cutoff want out s =
     (if want \<le> length out then (out, s)
      else if flt cutoff dl then reap_loop items kd cutoff want out s
      else let s1 = release kd ident s;
               s2 = (if kd = JOB_KIND_INGEST
                     then ingest_set ident
                       (fadd (case sc of None \<Rightarrow> of_int_f64 CATCHUP_SCORE_BASE | Some v \<Rightarrow> v)
                             (of_int_f64 LEASE_CONFLICT_SCORE_PENALTY)) s1
                     else list_append kd ident s1)
           in reap_loop items kd cutoff want (out @ [ident]) (mark_dirty s2))"

definition reap_expired_inflight :: "string \<Rightarrow> f64 \<Rightarrow> int \<Rightarrow> job_store \<Rightarrow> string list \<times> job_store" where
  "reap_expired_inflight kd now limit s =
     reap_loop (inflight s kd) kd (fsub now (of_int_f64 INFLIGHT_REAP_GRACE_FLOOR_S)) (nat (max 1 limit)) [] s"

definition owner_is_dead :: "(int \<Rightarrow> bool) \<Rightarrow> string \<Rightarrow> string \<Rightarrow> string \<Rightarrow> bool" where
  \<comment> \<open>The pid parses, the lease was taken on this host and boot, and the process is gone.\<close>
  "owner_is_dead alive host boot owner =
     (let o' = parse_lease_owner owner in
      case pid o' of None \<Rightarrow> False
      | Some p \<Rightarrow> lease_owner_is_locally_evaluable o' host boot \<and> \<not> alive p)"

definition steal_one :: "(int \<Rightarrow> bool) \<Rightarrow> string \<Rightarrow> string \<Rightarrow> job_key \<times> string \<Rightarrow> int \<times> job_store \<Rightarrow> int \<times> job_store" where
  "steal_one alive host boot item acc =
     (case item of ((kd, ident), owner) \<Rightarrow>
        if owner_is_dead alive host boot owner then
          (case requeue kd ident owner None (snd acc) of
             (True, s') \<Rightarrow> (fst acc + 1, s') | (False, s') \<Rightarrow> (fst acc, s'))
        else acc)"

definition steal_dead_owner_leases :: "(int \<Rightarrow> bool) \<Rightarrow> string \<Rightarrow> string \<Rightarrow> job_store \<Rightarrow> int \<times> job_store" where
  "steal_dead_owner_leases alive host boot s = fold (steal_one alive host boot) (leases s) (0, s)"

definition reconcile_one :: "string \<Rightarrow> string set \<Rightarrow> string \<Rightarrow> string \<times> inflight_entry \<Rightarrow> int \<times> job_store \<Rightarrow> int \<times> job_store" where
  "reconcile_one kd known owner item acc =
     (case item of (ident, (_, o', sc)) \<Rightarrow>
        if ident \<in> known \<or> o' \<noteq> owner then acc
        else (case requeue kd ident o' sc (snd acc) of
                (True, s') \<Rightarrow> (fst acc + 1, s') | (False, s') \<Rightarrow> (fst acc, s')))"

definition reconcile_this_owner_orphan_leases :: "string \<Rightarrow> string list \<Rightarrow> string \<Rightarrow> job_store \<Rightarrow> int \<times> job_store" where
  "reconcile_this_owner_orphan_leases kd local_identities owner s =
     fold (reconcile_one kd (set local_identities) owner) (inflight s kd) (0, s)"

definition steal_job_lease_if_owner_dead :: "(int \<Rightarrow> bool) \<Rightarrow> string \<Rightarrow> string \<Rightarrow> string \<Rightarrow> string \<Rightarrow> job_store \<Rightarrow> bool \<times> job_store" where
  "steal_job_lease_if_owner_dead alive host boot kd ident s =
     (case dget (leases s) (kd, ident) of
        None \<Rightarrow> (False, s)
      | Some owner \<Rightarrow>
          if owner = [] \<or> \<not> owner_is_dead alive host boot owner then (False, s)
          else (case requeue kd ident owner None s of
              (True, s') \<Rightarrow> (True, s')
            | (False, s') \<Rightarrow>
                if dget (leases s') (kd, ident) \<noteq> Some owner then (False, s')
                else (True, s'\<lparr>leases := ddel (kd, ident) (leases s')\<rparr>)))"

definition sync_if_queued :: "string \<Rightarrow> string \<Rightarrow> job_store \<Rightarrow> job_store" where
  "sync_if_queued kd ident s =
     (if identity_is_queued s kd ident then mark_dirty (shadow_sync_payload kd ident s) else s)"

definition write_job_fingerprint :: "string \<Rightarrow> string \<Rightarrow> string \<Rightarrow> job_store \<Rightarrow> job_store" where
  "write_job_fingerprint kd ident fp s =
     (if fp = [] then s else sync_if_queued kd ident (put_payload kd ident ''fingerprint'' fp s))"

definition payload_field :: "job_store \<Rightarrow> string \<Rightarrow> string \<Rightarrow> string \<Rightarrow> string" where
  \<comment> \<open>\<^verbatim>\<open>payloads.get((kind, ident), {}).get(name) or ""\<close>\<close>
  "payload_field s kd ident nm = get_or [] (get_or [] (payloads s) (kd, ident)) nm"

definition read_job_fingerprint :: "string \<Rightarrow> string \<Rightarrow> job_store \<Rightarrow> string" where
  "read_job_fingerprint kd ident s = payload_field s kd ident ''fingerprint''"

definition attempt_of :: "string \<Rightarrow> int option" where
  \<comment> \<open>\<^verbatim>\<open>int(raw or 0)\<close>; \<open>None\<close> is its \<^verbatim>\<open>ValueError\<close>.\<close>
  "attempt_of raw = (if raw = [] then Some 0 else py_int raw)"

definition bump_job_attempt :: "string \<Rightarrow> string \<Rightarrow> job_store \<Rightarrow> (int \<times> job_store) res" where
  "bump_job_attempt kd ident s =
     (case attempt_of (payload_field s kd ident ''attempt'') of
        None \<Rightarrow> Inl ValueError
      | Some n \<Rightarrow> Inr (n + 1, sync_if_queued kd ident (put_payload kd ident ''attempt'' (str_int (n + 1)) s)))"

definition read_job_attempt :: "string \<Rightarrow> string \<Rightarrow> job_store \<Rightarrow> int" where
  "read_job_attempt kd ident s =
     (case attempt_of (payload_field s kd ident ''attempt'') of None \<Rightarrow> 0 | Some n \<Rightarrow> n)"

definition zadd_ingest_job :: "job_cfg \<Rightarrow> string \<Rightarrow> f64 \<Rightarrow> string \<Rightarrow> job_store \<Rightarrow> int \<times> job_store" where
  "zadd_ingest_job cfg ident sc fp s = zadd_ingest cfg ident sc fp s"

definition enqueue_list_job :: "job_cfg \<Rightarrow> string \<Rightarrow> string \<Rightarrow> bool \<Rightarrow> job_store \<Rightarrow> (int \<times> job_store) res" where
  "enqueue_list_job cfg kd ident dedupe s = enqueue_list cfg kd ident dedupe s"

definition claim_ingest_jobs :: "nat \<Rightarrow> job_cfg \<Rightarrow> string \<Rightarrow> string \<Rightarrow> int \<Rightarrow> int option \<Rightarrow> f64 \<Rightarrow> job_store
    \<Rightarrow> (ClaimedJob list \<times> job_store) res option" where
  "claim_ingest_jobs fuel cfg band owner max_n ttl_s now s = claim_ingest fuel cfg band owner ttl_s now max_n s"

definition claim_ingest_job :: "nat \<Rightarrow> job_cfg \<Rightarrow> string \<Rightarrow> string \<Rightarrow> int option \<Rightarrow> f64 \<Rightarrow> job_store
    \<Rightarrow> (ClaimedJob option \<times> job_store) res option" where
  "claim_ingest_job fuel cfg band owner ttl_s now s =
     map_option (\<lambda>r. bindE r (\<lambda>(jobs, s'). Inr (case jobs of [] \<Rightarrow> None | j # _ \<Rightarrow> Some j, s')))
       (claim_ingest fuel cfg band owner ttl_s now 1 s)"

definition claim_list_job :: "job_cfg \<Rightarrow> string \<Rightarrow> string \<Rightarrow> int option \<Rightarrow> f64 \<Rightarrow> job_store
    \<Rightarrow> (ClaimedJob option \<times> job_store) res" where
  "claim_list_job cfg kd owner ttl_s now s = claim_list cfg kd owner ttl_s now s"

definition ack_job :: "string \<Rightarrow> string \<Rightarrow> string \<Rightarrow> job_store \<Rightarrow> bool \<times> job_store" where
  "ack_job kd ident owner s = ack kd ident owner s"

definition requeue_job :: "string \<Rightarrow> string \<Rightarrow> string \<Rightarrow> f64 option \<Rightarrow> job_store \<Rightarrow> bool \<times> job_store" where
  "requeue_job kd ident owner sc s = requeue kd ident owner sc s"

subsection \<open>Arithmetic on scores\<close>

lemma round_f64_integral: "integral (round_f64 (of_int n))"
proof (cases "n = 0")
  case False
  let ?e = "max (ilog2 \<bar>rat_of_int n\<bar> - 52) (- 1074)"
  let ?v = "of_int (round_half_even (of_int n / pow2 ?e)) * pow2 ?e"
  have "?v \<in> \<int>"
  proof (cases "0 \<le> ?e")
    case True
    then show ?thesis by (simp add: pow2_nonneg)
  next
    case False
    then have p: "pow2 ?e = 1 / 2 ^ nat (- ?e)" by (simp only: pow2_def if_False)
    have "of_int n / pow2 ?e = of_int (n * 2 ^ nat (- ?e))" unfolding p by simp
    then have "?v = of_int (n * 2 ^ nat (- ?e)) * pow2 ?e" by (simp only: round_half_even_int)
    also have "\<dots> = of_int n" unfolding p by simp
    finally show ?thesis by simp
  qed
  then show ?thesis using False by (simp add: round_f64_def Let_def integral_def)
qed (simp add: round_f64_def integral_def)

lemma fadd_integral: "integral a \<Longrightarrow> integral (fadd a (Fin (of_int n)))"
proof (cases a)
  case (Fin q)
  assume "integral a"
  then obtain m :: int where m: "q = of_int m" using Fin by (auto simp: integral_def elim: Ints_cases)
  have "integral (round_f64 (of_int (m + n)))" by (rule round_f64_integral)
  then show ?thesis using Fin m by simp
qed (simp_all add: integral_def)

lemma base_integral: "integral (of_int_f64 n)"
  unfolding of_int_f64_def by (rule round_f64_integral)


subsection \<open>Every operation keeps the invariant\<close>

lemma owned_entry:
  assumes "owned_by s k i owner"
  obtains d sc where "dget (inflight s k) i = Some (d, owner, sc)"
  using assms by (auto simp: owned_by_def split: option.splits)

lemma inflight_kind: "store_ok s \<Longrightarrow> dget (inflight s k) i = Some e \<Longrightarrow> k \<in> set JOB_KINDS_ALL"
  by (force simp: store_ok_def flight_ok_def)

lemma inflight_entry_ok: "store_ok s \<Longrightarrow> dget (inflight s k) i = Some e \<Longrightarrow> entry_ok k e"
  by (force simp: store_ok_def flight_ok_def dest: map_of_SomeD)

lemma list_kind: "k \<in> set JOB_KINDS_ALL \<Longrightarrow> k \<noteq> JOB_KIND_INGEST \<Longrightarrow> k \<in> set JOB_KINDS_LIST"
  by (simp add: JOB_KINDS_ALL_def)

lemma queued_release [store_fields]: "identity_is_queued (release k i s) = identity_is_queued s"
  by (simp add: release_def store_fields)

lemma zadd_ingest_ok:
  assumes "store_ok s" "integral v"
  shows "store_ok (snd (zadd_ingest cfg i v fp s))"
  using assms
  by (cases "dget (inflight s JOB_KIND_INGEST) i") (auto simp: zadd_ingest_def Let_def ingest_set_ok put_payload_sync_ok)

lemma enqueue_list_ok:
  assumes "store_ok s" "enqueue_list cfg k i True s = Inr (d, t)"
  shows "store_ok t"
proof -
  have "store_ok (list_append k i s)"
    if "k \<in> set JOB_KINDS_LIST" "i \<notin> pending s k" "dget (inflight s k) i = None"
    using that assms(1) by (intro list_append_ok) (simp_all add: identity_is_queued_def)
  then show ?thesis
    using assms by (cases "dget (inflight s k) i") (auto simp: enqueue_list_def Let_def split: if_splits)
qed

lemma claim_list_front:
  assumes "store_ok s" "k \<in> set JOB_KINDS_LIST" "lists s k = i # r"
  shows "claim_list_loop (lists s k) k owner dl s =
    (Some \<lparr>kind = k, identity = i, owner_token = owner, deadline = dl, score = None, fingerprint = []\<rparr>,
     mark_dirty (lease_out k i dl owner None (list_popleft k i r s)))"
proof -
  have "identity_is_queued s k i"
    using assms store_okD(4)[OF assms(1)] by (simp add: identity_is_queued_def lists_ok_def)
  then have "dget (inflight s k) i = None" by (rule queued_free[OF assms(1)])
  then show ?thesis using assms by (simp add: store_fields Let_def)
qed

lemma claim_list_ok:
  assumes ok: "store_ok s" and c: "claim_list cfg k owner ttl now s = Inr (r, t)"
  shows "store_ok t"
proof -
  have k: "k \<in> set JOB_KINDS_LIST" "owner \<noteq> []" using c by (auto simp: claim_list_def split: if_splits)
  show ?thesis
  proof (cases "lists s k")
    case Nil
    then show ?thesis using c k ok by (simp add: claim_list_def)
  next
    case (Cons i l)
    have "store_ok (lease_out k i dl owner None (list_popleft k i l s))" for dl
      by (rule lease_out_ok[OF list_popleft_ok[OF ok k(1) Cons]])
        (use k in \<open>simp_all add: store_fields entry_ok_def\<close>)
    then show ?thesis using c k claim_list_front[OF ok k(1) Cons] by (auto simp: claim_list_def)
  qed
qed

lemma claim_ingest_returns:
  fixes cfg :: job_cfg and ttl :: "int option" and now :: f64
  assumes ok: "store_ok s" and b: "band = ''hot'' \<or> band = ''catchup''" and owner: "owner \<noteq> []" and n: "1 \<le> max_n"
    and fuel: "2 * length (ingest_heap_for_band s band) < fuel"
  defines "taken \<equiv> take (nat max_n) (band_queue s band)"
    and "dl \<equiv> fadd now (of_int_f64 (lease_ttl cfg ttl))"
  shows "\<exists>t. claim_ingest fuel cfg band owner ttl now max_n s =
      Some (Inr (map (band_job s owner dl) taken, if taken = [] then t else mark_dirty t)) \<and>
    store_ok t \<and> claim_post owner dl taken s t"
proof -
  have "heap_weight s band < fuel" using fuel heap_weight_le[of s band] by simp
  from claim_loop_exact[OF refl b owner ok this, of dl "nat max_n" "[]"]
  obtain t where t: "claim_loop fuel band (if band = ''hot'' then (NInf, Fin (10 ^ 15 - 1)) else (Fin (10 ^ 15), PInf))
      owner dl (nat max_n) [] s = Some (map (band_job s owner dl) taken, t)" "store_ok t" "claim_post owner dl taken s t"
    by (auto simp: taken_def)
  then have "claim_ingest fuel cfg band owner ttl now max_n s =
      Some (Inr (map (band_job s owner dl) taken, if taken = [] then t else mark_dirty t))"
    using owner n by (simp add: claim_ingest_def range_of_band[OF b] dl_def split: if_split)
  with t show ?thesis by blast
qed

lemma ack_ok:
  assumes ok: "store_ok s"
  shows "store_ok (snd (ack k i owner s))"
proof (cases "owner \<noteq> [] \<and> owned_by s k i owner")
  case True
  then obtain d sc where e: "dget (inflight s k) i = Some (d, owner, sc)" by (auto elim: owned_entry)
  have q: "\<not> identity_is_queued s k i" by (rule leased_not_queued[OF ok e])
  have r: "store_ok (release k i s)" by (rule release_ok[OF ok])
  have p: "store_ok (release k i s\<lparr>payloads := ddel (k, i) (payloads (release k i s))\<rparr>)"
    by (rule drop_payload_ok[OF r]) (simp add: store_fields q)
  have "k \<in> set JOB_KINDS_LIST \<Longrightarrow> pending s k - {i} = pending s k"
    using q by (simp add: identity_is_queued_def)
  then have "k \<in> set JOB_KINDS_LIST \<Longrightarrow> (pending s)(k := pending s k - {i}) = pending s" by simp
  then have "snd (ack k i owner s) = release k i s\<lparr>payloads := ddel (k, i) (payloads (release k i s))\<rparr>"
    using True by (simp add: ack_def Let_def release_def)
  then show ?thesis using p by (simp only:)
qed (use ok in \<open>auto simp: ack_def\<close>)

definition score_arg_ok :: "f64 option \<Rightarrow> bool" where
  "score_arg_ok sc \<longleftrightarrow> (case sc of None \<Rightarrow> True | Some v \<Rightarrow> integral v)"

lemma requeue_ok:
  assumes ok: "store_ok s" and sc: "score_arg_ok sc"
  shows "store_ok (snd (requeue k i owner sc s))"
proof (cases "owner \<noteq> [] \<and> owned_by s k i owner")
  case True
  then obtain d sc' where e: "dget (inflight s k) i = Some (d, owner, sc')" by (auto elim: owned_entry)
  have r: "store_ok (release k i s)" by (rule release_ok[OF ok])
  show ?thesis
  proof (cases "k = JOB_KIND_INGEST")
    case k: True
    have "integral (case sc of None \<Rightarrow> of_int_f64 CATCHUP_SCORE_BASE | Some v \<Rightarrow> v)"
      using sc base_integral by (cases sc) (auto simp: score_arg_ok_def simp del: of_int_score_consts)
    then have "store_ok (ingest_set i (case sc of None \<Rightarrow> of_int_f64 CATCHUP_SCORE_BASE | Some v \<Rightarrow> v) (release k i s))"
      using k release_free[of k i s] by (intro ingest_set_ok[OF r]) simp_all
    then show ?thesis using True k by (simp add: requeue_def)
  next
    case False
    then have "k \<in> set JOB_KINDS_LIST" using inflight_kind[OF ok e] list_kind by simp
    then have "store_ok (list_append k i (release k i s))"
      using leased_not_queued[OF ok e] by (intro list_append_ok[OF r]) (simp_all add: store_fields)
    then show ?thesis using True False by (simp add: requeue_def)
  qed
qed (use ok in \<open>auto simp: requeue_def\<close>)


lemma extend_ok:
  assumes ok: "store_ok s"
  shows "store_ok (snd (extend_inflight_deadline k i ext now s))"
proof (cases "dget (inflight s k) i")
  case None
  then show ?thesis using ok by (simp add: extend_inflight_deadline_def)
next
  case (Some e)
  obtain d owner sc where e: "e = (d, owner, sc)" by (cases e)
  have l: "dset (k, i) owner (leases s) = leases s"
  proof (rule AList.update_triv)
    show "dget (leases s) (k, i) = Some owner"
      using store_okD(5)[OF ok] Some e by (simp add: flight_ok_def)
  qed
  have "snd (extend_inflight_deadline k i ext now s) = lease_out k i (fadd now ext) owner sc s"
    using Some e by (simp add: extend_inflight_deadline_def lease_out_def l)
  moreover have "store_ok (lease_out k i (fadd now ext) owner sc s)"
    using Some e inflight_entry_ok[OF ok Some]
    by (intro lease_out_ok[OF ok leased_not_queued[OF ok Some] inflight_kind[OF ok Some]]) (simp add: entry_ok_def)
  ultimately show ?thesis by simp
qed

lemma renew_ok:
  assumes ok: "store_ok s"
  shows "store_ok (snd (renew_job_lease cfg k i owner ttl now s))"
proof (cases "owner \<noteq> [] \<and> owned_by s k i owner")
  case True
  then obtain d sc where e: "dget (inflight s k) i = Some (d, owner, sc)" by (auto elim: owned_entry)
  have "store_ok (lease_out k i (fadd now (of_int_f64 (lease_ttl cfg ttl))) owner sc s)"
    using inflight_entry_ok[OF ok e]
    by (intro lease_out_ok[OF ok leased_not_queued[OF ok e] inflight_kind[OF ok e]]) (simp add: entry_ok_def)
  then show ?thesis using True e by (simp add: renew_job_lease_def)
qed (use ok in \<open>auto simp: renew_job_lease_def owned_by_def split: option.splits\<close>)

lemma reorder_ok:
  assumes ok: "store_ok s"
  shows "store_ok (snd (reorder_list k desired current s))"
proof -
  have "store_ok (s\<lparr>lists := (lists s)(k := desired), shadow_lists := (shadow_lists s)(k := desired)\<rparr>)"
    if c: "k \<in> set JOB_KINDS_LIST" "sort (lists s k) = sort desired"
  proof (rule store_okI)
    note D = store_okD[OF ok]
    have "mset (lists s k) = mset desired" using c(2) by (metis mset_sort)
    then have "distinct desired" "set desired = set (lists s k)"
      using D(4) mset_eq_imp_distinct_iff mset_eq_setD unfolding lists_ok_def by metis+
    then show "lists_ok (s\<lparr>lists := (lists s)(k := desired), shadow_lists := (shadow_lists s)(k := desired)\<rparr>)"
      using D(4) c(1) by (auto simp: lists_ok_def)
  qed (use store_okD[OF ok] in \<open>simp_all add: ingest_ok_def heaps_ok_def counts_ok_def flight_ok_def payload_ok_def
      shadow_ok_def store_fields\<close>)
  then show ?thesis using ok by (auto simp: reorder_list_def)
qed

lemma sync_if_queued_ok:
  assumes "store_ok s"
  shows "store_ok (sync_if_queued k i (put_payload k i nm v s))"
proof (cases "identity_is_queued s k i")
  case True
  then have "identity_is_queued (put_payload k i nm v s) k i" by (simp add: put_payload_def store_fields)
  then show ?thesis using put_payload_sync_ok[OF assms] by (simp add: sync_if_queued_def)
next
  case False
  then have "\<not> identity_is_queued (put_payload k i nm v s) k i" by (simp add: put_payload_def store_fields)
  then show ?thesis using put_payload_unqueued_ok[OF assms False] by (simp add: sync_if_queued_def)
qed

lemma write_fingerprint_ok: "store_ok s \<Longrightarrow> store_ok (write_job_fingerprint k i fp s)"
  by (simp add: write_job_fingerprint_def sync_if_queued_ok)

lemma bump_ok: "store_ok s \<Longrightarrow> bump_job_attempt k i s = Inr (n, t) \<Longrightarrow> store_ok t"
  by (auto simp: bump_job_attempt_def sync_if_queued_ok split: option.splits)


subsection \<open>Reaping and stealing are sequences of requeues\<close>

lemma requeue_frame:
  assumes "k \<noteq> k' \<or> i \<noteq> j"
  shows "dget (inflight (snd (requeue k i owner sc s)) k') j = dget (inflight s k') j"
  using assms by (auto simp: requeue_def Let_def mark_dirty_def store_fields release_def)

definition reap_score :: "f64 option \<Rightarrow> f64" where
  "reap_score sc = fadd (case sc of None \<Rightarrow> of_int_f64 CATCHUP_SCORE_BASE | Some v \<Rightarrow> v)
     (of_int_f64 LEASE_CONFLICT_SCORE_PENALTY)"

lemma reap_score_integral: "score_arg_ok sc \<Longrightarrow> integral (reap_score sc)"
proof -
  assume "score_arg_ok sc"
  then have "integral (case sc of None \<Rightarrow> of_int_f64 CATCHUP_SCORE_BASE | Some v \<Rightarrow> v)"
    using base_integral by (cases sc) (auto simp: score_arg_ok_def simp del: of_int_score_consts)
  moreover have "of_int_f64 LEASE_CONFLICT_SCORE_PENALTY = Fin (of_int SCORE_STRIDE)"
    using of_int_f64_exact[of SCORE_STRIDE] by (simp add: LEASE_CONFLICT_SCORE_PENALTY_def SCORE_STRIDE_def)
  ultimately show ?thesis unfolding reap_score_def by (metis fadd_integral)
qed

lemma reap_loop_requeue:
  assumes "dget (inflight s k) i = Some (d, owner, sc)" "owner \<noteq> []"
  shows "reap_loop ((i, (d, owner, sc)) # items) k cutoff want out s =
    (if want \<le> length out then (out, s) else if flt cutoff d then reap_loop items k cutoff want out s
     else reap_loop items k cutoff want (out @ [i]) (snd (requeue k i owner (Some (reap_score sc)) s)))"
proof -
  have "owned_by s k i owner" using assms by (simp add: owned_by_def)
  then show ?thesis using assms(2) by (simp add: requeue_def Let_def reap_score_def)
qed

lemma entry_score_arg: "entry_ok k (d, owner, sc) \<Longrightarrow> score_arg_ok sc"
  by (auto simp: entry_ok_def score_arg_ok_def split: option.splits)

lemma reap_items_rest:
  assumes "\<And>i e. (i, e) \<in> set (x # items) \<Longrightarrow> dget (inflight s k) i = Some e \<and> entry_ok k e"
    and "distinct (keys (x # items))" "x = (i, (d, owner, sc))" "(j, e') \<in> set items"
  shows "dget (inflight (snd (requeue k i owner v s)) k) j = Some e' \<and> entry_ok k e'"
proof -
  have "j \<noteq> i" using assms(2-4) by force
  then show ?thesis using assms(1)[of j e'] assms(4) requeue_frame[of k k i j] by auto
qed

lemma reap_loop_invariant:
  \<comment> \<open>What every requeue with an admissible score keeps, the reaper keeps.\<close>
  assumes step: "\<And>s i owner sc. P s \<Longrightarrow> score_arg_ok sc \<Longrightarrow> P (snd (requeue k i owner sc s))"
    and "P s" and "distinct (keys items)"
    and "\<And>i e. (i, e) \<in> set items \<Longrightarrow> dget (inflight s k) i = Some e \<and> entry_ok k e"
  shows "P (snd (reap_loop items k cutoff want out s))"
  using assms(2-)
proof (induction items arbitrary: out s)
  case (Cons x items)
  obtain i d owner sc where x: "x = (i, (d, owner, sc))" by (cases x) auto
  have e: "dget (inflight s k) i = Some (d, owner, sc)" "entry_ok k (d, owner, sc)"
    using Cons.prems(3)[of i "(d, owner, sc)"] x by auto
  have o: "owner \<noteq> []" using e(2) by (simp add: entry_ok_def)
  define s' where "s' = snd (requeue k i owner (Some (reap_score sc)) s)"
  have rest: "dget (inflight t k) j = Some e' \<and> entry_ok k e'"
    if "(j, e') \<in> set items" "t = s \<or> t = s'" for j e' t
    using reap_items_rest[OF Cons.prems(3,2) x that(1)] Cons.prems(3)[of j e'] that unfolding s'_def by auto
  have "P s'"
    unfolding s'_def using reap_score_integral[OF entry_score_arg[OF e(2)]]
    by (intro step Cons.prems(1)) (simp add: score_arg_ok_def)
  have dist: "distinct (keys items)" using Cons.prems(2) by simp
  have "P (snd (reap_loop items k cutoff want out' t))" if "t = s \<or> t = s'" for out' t
    using that \<open>P s'\<close> Cons.prems(1) rest[OF _ that] by (intro Cons.IH[OF _ dist]) auto
  then show ?case
    using Cons.prems(1) unfolding x reap_loop_requeue[OF e(1) o] s'_def[symmetric] by simp
qed simp

lemma steal_invariant:
  assumes step: "\<And>s k i owner. P s \<Longrightarrow> P (snd (requeue k i owner None s))" and "P s"
  shows "P (snd (steal_dead_owner_leases alive host boot s))"
proof -
  have "P (snd acc) \<Longrightarrow> P (snd (fold (steal_one alive host boot) items acc))" for items acc
  proof (induction items arbitrary: acc)
    case (Cons x items)
    have "P (snd (steal_one alive host boot x acc))"
      using Cons.prems step[of "snd acc"]
      by (auto simp: steal_one_def split: prod.split bool.split) (metis snd_conv)+
    then show ?case using Cons.IH by simp
  qed simp
  from this[of "(0, s)"] show ?thesis using assms(2) by (simp add: steal_dead_owner_leases_def)
qed

lemma reconcile_invariant:
  assumes step: "\<And>s i owner sc. P s \<Longrightarrow> score_arg_ok sc \<Longrightarrow> P (snd (requeue k i owner sc s))" and "P s"
    and "\<And>e. e \<in> set (inflight s k) \<Longrightarrow> entry_ok k (snd e)"
  shows "P (snd (reconcile_this_owner_orphan_leases k idents owner s))"
proof -
  have "P (snd acc) \<Longrightarrow> (\<And>e. e \<in> set items \<Longrightarrow> entry_ok k (snd e)) \<Longrightarrow>
    P (snd (fold (reconcile_one k (set idents) owner) items acc))" for items acc
  proof (induction items arbitrary: acc)
    case (Cons x items)
    obtain i d o' sc where x: "x = (i, (d, o', sc))" by (cases x) auto
    have "score_arg_ok sc" using Cons.prems(2)[of x] x entry_score_arg by fastforce
    then have "P (snd (reconcile_one k (set idents) owner x acc))"
      using Cons.prems(1) step[of "snd acc" sc i o'] x
      by (auto simp: reconcile_one_def split: prod.split bool.split)
    then show ?case using Cons.IH Cons.prems(2) by simp
  qed simp
  from this[of "(0, s)" "inflight s k"] show ?thesis
    using assms(2,3) by (simp add: reconcile_this_owner_orphan_leases_def)
qed

lemma steal_job_requeue:
  \<comment> \<open>With leases mirroring the inflight map a stolen lease always had its entry.\<close>
  assumes ok: "store_ok s"
  shows "steal_job_lease_if_owner_dead alive host boot k i s =
    (case dget (leases s) (k, i) of None \<Rightarrow> (False, s)
     | Some owner \<Rightarrow> if owner = [] \<or> \<not> owner_is_dead alive host boot owner then (False, s)
        else requeue k i owner None s)"
proof -
  have "owned_by s k i owner" if "dget (leases s) (k, i) = Some owner" for owner
    using store_okD(5)[OF ok] that by (auto simp: flight_ok_def owned_by_def)
  then have "fst (requeue k i owner None s)" if "dget (leases s) (k, i) = Some owner" "owner \<noteq> []" for owner
    using that by (simp add: requeue_def Let_def)
  then show ?thesis
    by (auto simp: steal_job_lease_if_owner_dead_def split: option.split prod.split bool.split)
qed


lemma inflight_items:
  assumes "store_ok s"
  shows "distinct (keys (inflight s k))" "(i, e) \<in> set (inflight s k) \<Longrightarrow> dget (inflight s k) i = Some e \<and> entry_ok k e"
  using assms by (force simp: store_ok_def flight_ok_def)+

lemma reap_ok: "store_ok s \<Longrightarrow> store_ok (snd (reap_expired_inflight k now limit s))"
  unfolding reap_expired_inflight_def
  by (rule reap_loop_invariant) (auto intro: requeue_ok simp: inflight_items)

lemma steal_ok: "store_ok s \<Longrightarrow> store_ok (snd (steal_dead_owner_leases alive host boot s))"
  by (rule steal_invariant[where P = store_ok]) (simp_all add: requeue_ok score_arg_ok_def)

lemma reconcile_ok: "store_ok s \<Longrightarrow> store_ok (snd (reconcile_this_owner_orphan_leases k idents owner s))"
  by (rule reconcile_invariant[where P = store_ok]) (auto intro: requeue_ok simp: inflight_items)

lemma steal_job_ok: "store_ok s \<Longrightarrow> store_ok (snd (steal_job_lease_if_owner_dead alive host boot k i s))"
  by (simp add: steal_job_requeue requeue_ok score_arg_ok_def split: option.split)

end
