(* ===== verification/Job_Lifecycle.thy ===== *)
theory Job_Lifecycle
  imports Job_Leases
begin

text \<open>
  The job store as a state machine. \<open>store_step\<close> has one rule per operation that the
  daemons call (list enqueues with \<^verbatim>\<open>dedupe=True\<close>, as every caller passes); its label is
  the acknowledged job, if the step acknowledges one. \<open>store_reach\<close> are the stores the
  operations can produce from an empty one.
  The abstract specification is the life of one job: \<open>job_status\<close> with the transitions
  \<open>job_step\<close>. \<open>job_view\<close> abstracts a store to the status of each job, and every store step
  is, for every job at once, a transition of the specification or leaves it alone.
\<close>

datatype job_status = Absent | Queued "f64 option" | Leased f64 string "f64 option"

definition job_view :: "job_store \<Rightarrow> string \<Rightarrow> string \<Rightarrow> job_status" where
  "job_view s k i = (case dget (inflight s k) i of
       Some (d, owner, sc) \<Rightarrow> Leased d owner sc
     | None \<Rightarrow>
         if k = JOB_KIND_INGEST then (case dget (ingest s) i of None \<Rightarrow> Absent | Some v \<Rightarrow> Queued (Some v))
         else if i \<in> set (lists s k) then Queued None else Absent)"

inductive job_step :: "job_status \<Rightarrow> job_status \<Rightarrow> bool" where
  add: "job_step Absent (Queued sc)"
| rescore: "job_step (Queued sc) (Queued sc')"
| claim: "owner \<noteq> [] \<Longrightarrow> job_step (Queued sc) (Leased d owner sc)"
| renew: "job_step (Leased d owner sc) (Leased d' owner sc)"
| give_back: "job_step (Leased d owner sc) (Queued sc')"
| finish: "job_step (Leased d owner sc) Absent"

inductive_cases job_step_absent: "job_step Absent v"
inductive_cases job_step_queued: "job_step (Queued sc) v"
inductive_cases job_step_leased: "job_step (Leased d owner sc) v"

inductive store_step :: "job_store \<Rightarrow> (string \<times> string \<times> string) option \<Rightarrow> job_store \<Rightarrow> bool" where
  zadd: "integral v \<Longrightarrow> zadd_ingest_job cfg i v fp s = (n, t) \<Longrightarrow> store_step s None t"
| enqueue: "enqueue_list_job cfg k i True s = Inr (d, t) \<Longrightarrow> store_step s None t"
| claim_ingest: "band = ''hot'' \<or> band = ''catchup'' \<Longrightarrow>
    claim_ingest_jobs fuel cfg band owner max_n ttl now s = Some (Inr (jobs, t)) \<Longrightarrow> store_step s None t"
| claim_list: "claim_list_job cfg k owner ttl now s = Inr (j, t) \<Longrightarrow> store_step s None t"
| ack: "ack_job k i owner s = (True, t) \<Longrightarrow> store_step s (Some (k, i, owner)) t"
| requeue: "score_arg_ok sc \<Longrightarrow> requeue_job k i owner sc s = (r, t) \<Longrightarrow> store_step s None t"
| extend: "extend_inflight_deadline k i ext now s = (r, t) \<Longrightarrow> store_step s None t"
| renew: "renew_job_lease cfg k i owner ttl now s = (r, t) \<Longrightarrow> store_step s None t"
| reorder: "reorder_list k desired current s = (r, t) \<Longrightarrow> store_step s None t"
| fingerprint: "write_job_fingerprint k i fp s = t \<Longrightarrow> store_step s None t"
| attempt: "bump_job_attempt k i s = Inr (n, t) \<Longrightarrow> store_step s None t"
| reap: "reap_expired_inflight k now limit s = (out, t) \<Longrightarrow> store_step s None t"
| steal: "steal_dead_owner_leases alive host boot s = (n, t) \<Longrightarrow> store_step s None t"
| reconcile: "reconcile_this_owner_orphan_leases k idents owner s = (n, t) \<Longrightarrow> store_step s None t"
| steal_job: "steal_job_lease_if_owner_dead alive host boot k i s = (r, t) \<Longrightarrow> store_step s None t"

inductive labelled_run :: "('s \<Rightarrow> 'l option \<Rightarrow> 's \<Rightarrow> bool) \<Rightarrow> 's \<Rightarrow> 'l list \<Rightarrow> 's \<Rightarrow> bool"
  for step :: "'s \<Rightarrow> 'l option \<Rightarrow> 's \<Rightarrow> bool" where
  run_refl: "labelled_run step s [] s"
| run_step: "labelled_run step s ls t \<Longrightarrow> step t l u \<Longrightarrow>
    labelled_run step s (ls @ (case l of None \<Rightarrow> [] | Some a \<Rightarrow> [a])) u"

definition store_reach :: "job_store \<Rightarrow> bool" where
  "store_reach s \<longleftrightarrow> (\<exists>acks. labelled_run store_step new_store acks s)"

subsection \<open>What a leased job queue promises its clients\<close>

locale leased_jobs =
  fixes inv :: "'s \<Rightarrow> bool"
    and step :: "'s \<Rightarrow> (string \<times> string \<times> string) option \<Rightarrow> 's \<Rightarrow> bool"
    and view :: "'s \<Rightarrow> string \<Rightarrow> string \<Rightarrow> job_status"
  assumes inv_step: "inv s \<Longrightarrow> step s l t \<Longrightarrow> inv t"
    and step_legal: "inv s \<Longrightarrow> step s l t \<Longrightarrow> view t k i = view s k i \<or>
      (job_step (view s k i) (view t k i) \<and>
       (view t k i = Absent \<longrightarrow> (\<exists>d owner sc. view s k i = Leased d owner sc \<and> l = Some (k, i, owner))))"
begin

lemma run_inv: "labelled_run step s acks t \<Longrightarrow> inv s \<Longrightarrow> inv t"
  by (induction rule: labelled_run.induct) (auto intro: inv_step)

lemma run_keeps_job:
  assumes "labelled_run step s acks t" "inv s" "view s k i \<noteq> Absent" "\<forall>owner. (k, i, owner) \<notin> set acks"
  shows "view t k i \<noteq> Absent"
  using assms
proof (induction rule: labelled_run.induct)
  case (run_step s acks t l u)
  have "view t k i \<noteq> Absent" using run_step.IH run_step.prems by auto
  moreover have "inv t" using run_step.hyps(1) run_step.prems(1) by (rule run_inv)
  ultimately show ?case using step_legal[OF _ run_step.hyps(2), of k i] run_step.prems(3) by auto
qed simp

lemma absent_step:
  \<comment> \<open>A job appears queued, never leased.\<close>
  "inv s \<Longrightarrow> step s l t \<Longrightarrow> view s k i = Absent \<Longrightarrow> view t k i = Absent \<or> (\<exists>sc. view t k i = Queued sc)"
  using step_legal[of s l t k i] by (auto elim: job_step_absent)

lemma lease_holder_step:
  \<comment> \<open>A lease passes to another owner only through the queue.\<close>
  "inv s \<Longrightarrow> step s l t \<Longrightarrow> view s k i = Leased d owner sc \<Longrightarrow> view t k i = Leased d' owner' sc' \<Longrightarrow>
     owner' = owner \<and> sc' = sc"
  using step_legal[of s l t k i] by (auto elim: job_step_leased)

end

subsection \<open>The invariant along runs\<close>

lemma claim_loop_mono:
  "claim_loop n band rng owner dl want claimed s = Some r \<Longrightarrow> n \<le> m \<Longrightarrow> claim_loop m band rng owner dl want claimed s = Some r"
proof (induction n arbitrary: m claimed s)
  case (Suc n)
  from Suc.prems(2) obtain m' where m: "m = Suc m'" "n \<le> m'" by (cases m) auto
  show ?case
    using Suc.prems(1) unfolding m(1) claim_loop.simps
    by (auto simp: Let_def split: if_splits list.splits option.splits intro: Suc.IH[OF _ m(2)])
qed simp

lemma claim_ingest_some:
  assumes ok: "store_ok s" and b: "band = ''hot'' \<or> band = ''catchup''"
    and c: "claim_ingest fuel cfg band owner ttl now max_n s = Some (Inr (jobs, t))"
  defines "taken \<equiv> take (nat max_n) (band_queue s band)"
    and "dl \<equiv> fadd now (of_int_f64 (lease_ttl cfg ttl))"
  shows "owner \<noteq> []" "\<exists>u. t = (if taken = [] then u else mark_dirty u) \<and> store_ok u \<and> claim_post owner dl taken s u"
    "jobs = map (band_job s owner dl) taken"
proof -
  show o: "owner \<noteq> []" using c by (auto simp: claim_ingest_def split: if_splits)
  have n: "1 \<le> max_n" using c by (auto simp: claim_ingest_def split: if_splits)
  define m where "m = max fuel (Suc (2 * length (ingest_heap_for_band s band)))"
  have "claim_ingest m cfg band owner ttl now max_n s = Some (Inr (jobs, t))"
    using c claim_loop_mono[of fuel band _ owner _ _ _ s _ m]
    by (fastforce simp: claim_ingest_def m_def split: if_splits sum.splits)
  moreover have fuel: "2 * length (ingest_heap_for_band s band) < m" by (simp add: m_def)
  obtain u where "claim_ingest m cfg band owner ttl now max_n s =
      Some (Inr (map (band_job s owner dl) taken, if taken = [] then u else mark_dirty u))"
    "store_ok u" "claim_post owner dl taken s u"
    using claim_ingest_returns[OF ok b o n fuel, of cfg ttl now] unfolding taken_def dl_def by blast
  ultimately show "\<exists>u. t = (if taken = [] then u else mark_dirty u) \<and> store_ok u \<and> claim_post owner dl taken s u"
    "jobs = map (band_job s owner dl) taken" by auto
qed

lemma store_step_ok:
  assumes "store_step s l t" "store_ok s"
  shows "store_ok t"
  using assms
proof cases
  case (claim_ingest band fuel cfg owner max_n ttl now jobs)
  then obtain u where "t = u \<or> t = mark_dirty u" "store_ok u"
    using claim_ingest_some(2)[OF assms(2)] unfolding claim_ingest_jobs_def by metis
  then show ?thesis by auto
next
  case (zadd v cfg i fp n)
  then show ?thesis using zadd_ingest_ok[OF assms(2) zadd(2), of cfg i fp] by (simp add: zadd_ingest_job_def)
next
  case (enqueue cfg k i d)
  then show ?thesis using enqueue_list_ok[OF assms(2)] by (simp add: enqueue_list_job_def)
next
  case (claim_list cfg k owner ttl now j)
  then show ?thesis using claim_list_ok[OF assms(2)] by (simp add: claim_list_job_def)
next
  case (ack k i owner)
  then show ?thesis using ack_ok[OF assms(2), of k i owner] by (simp add: ack_job_def)
next
  case (requeue sc k i owner r)
  then show ?thesis using requeue_ok[OF assms(2) requeue(2), of k i owner] by (simp add: requeue_job_def)
next
  case (extend k i ext now r)
  then show ?thesis using extend_ok[OF assms(2), of k i ext now] by simp
next
  case (renew cfg k i owner ttl now r)
  then show ?thesis using renew_ok[OF assms(2), of cfg k i owner ttl now] by simp
next
  case (reorder k desired current r)
  then show ?thesis using reorder_ok[OF assms(2), of k desired current] by simp
next
  case (fingerprint k i fp)
  then show ?thesis using write_fingerprint_ok[OF assms(2), of k i fp] by simp
next
  case (attempt k i n)
  then show ?thesis using bump_ok[OF assms(2)] by simp
next
  case (reap k now limit out)
  then show ?thesis using reap_ok[OF assms(2), of k now limit] by simp
next
  case (steal alive host boot n)
  then show ?thesis using steal_ok[OF assms(2), of alive host boot] by simp
next
  case (reconcile k idents owner n)
  then show ?thesis using reconcile_ok[OF assms(2), of k idents owner] by simp
next
  case (steal_job alive host boot k i r)
  then show ?thesis using steal_job_ok[OF assms(2), of alive host boot k i] by simp
qed

subsection \<open>The status of each job after each operation\<close>

lemma view_leased_iff: "job_view s k i = Leased d owner sc \<longleftrightarrow> dget (inflight s k) i = Some (d, owner, sc)"
  by (auto simp: job_view_def split: option.splits)

lemma view_queued_iff:
  assumes "store_ok s"
  shows "(\<exists>sc. job_view s k i = Queued sc) \<longleftrightarrow> identity_is_queued s k i"
  using queued_free[OF assms, of k i] store_okD(4)[OF assms]
  by (auto simp: job_view_def identity_is_queued_def lists_ok_def split: option.splits if_splits)

lemma view_frame:
  assumes "ingest t = ingest s" "lists t = lists s" "inflight t = inflight s"
  shows "job_view t = job_view s"
  by (intro ext) (simp only: job_view_def assms)

lemma mark_dirty_fields [store_fields]:
  "ingest (mark_dirty s) = ingest s" "lists (mark_dirty s) = lists s" "inflight (mark_dirty s) = inflight s"
  "pending (mark_dirty s) = pending s" "payloads (mark_dirty s) = payloads s" "leases (mark_dirty s) = leases s"
  "shadow_ingest (mark_dirty s) = shadow_ingest s" "shadow_lists (mark_dirty s) = shadow_lists s"
  "shadow_pending (mark_dirty s) = shadow_pending s" "shadow_payloads (mark_dirty s) = shadow_payloads s"
  "ingest_hot_n (mark_dirty s) = ingest_hot_n s" "ingest_catchup_n (mark_dirty s) = ingest_catchup_n s"
  by (simp_all add: mark_dirty_def)

lemma view_mark_dirty [simp]: "job_view (mark_dirty s) = job_view s"
  by (rule view_frame) (simp_all add: store_fields)

definition requeue_score :: "string \<Rightarrow> f64 option \<Rightarrow> f64 option" where
  "requeue_score k sc = (if k = JOB_KIND_INGEST
     then Some (case sc of None \<Rightarrow> of_int_f64 CATCHUP_SCORE_BASE | Some v \<Rightarrow> v) else None)"

lemma view_ingest_set:
  "job_view (ingest_set i v s) k j =
     (if k = JOB_KIND_INGEST \<and> j = i \<and> dget (inflight s k) i = None then Queued (Some v) else job_view s k j)"
  unfolding job_view_def ingest_set_fields by (auto split: option.split)

lemma view_list_append:
  "job_view (list_append k i s) k' j =
     (if k' = k \<and> j = i \<and> dget (inflight s k) i = None \<and> k \<noteq> JOB_KIND_INGEST then Queued None else job_view s k' j)"
  unfolding job_view_def list_append_fields by (auto split: option.split)

lemma view_payload_ops [simp]:
  "job_view (shadow_sync_payload k i s) = job_view s" "job_view (put_payload k i n w s) = job_view s"
  by (rule view_frame; simp add: store_fields put_payload_def)+

lemma release_fields:
  "ingest (release k i s) = ingest s" "lists (release k i s) = lists s"
  "inflight (release k i s) = (inflight s)(k := ddel i (inflight s k))"
  by (simp_all add: release_def)

lemma view_release: "(k', j) \<noteq> (k, i) \<Longrightarrow> job_view (release k i s) k' j = job_view s k' j"
  unfolding job_view_def release_fields by auto

lemma view_requeue:
  "job_view (snd (requeue k i owner sc s)) k' j =
     (if k' = k \<and> j = i \<and> owner \<noteq> [] \<and> owned_by s k i owner then Queued (requeue_score k sc) else job_view s k' j)"
  using release_free[of k i s]
  by (auto simp: requeue_def Let_def view_ingest_set view_list_append view_release requeue_score_def)

lemma view_ack:
  assumes "store_ok s"
  shows "job_view (snd (ack k i owner s)) k' j =
     (if k' = k \<and> j = i \<and> owner \<noteq> [] \<and> owned_by s k i owner then Absent else job_view s k' j)"
proof (cases "owner \<noteq> [] \<and> owned_by s k i owner")
  case True
  then obtain d sc where e: "dget (inflight s k) i = Some (d, owner, sc)" by (auto elim: owned_entry)
  have q: "\<not> identity_is_queued s k i" by (rule leased_not_queued[OF assms e])
  have f: "ingest (snd (ack k i owner s)) = ingest s" "lists (snd (ack k i owner s)) = lists s"
    "inflight (snd (ack k i owner s)) = (inflight s)(k := ddel i (inflight s k))"
    using True by (simp_all add: ack_def Let_def release_def)
  have "i \<notin> set (lists s k)" if "k \<noteq> JOB_KIND_INGEST"
    using q that store_okD(4)[OF assms] by (auto simp: identity_is_queued_def lists_ok_def split: if_splits)
  then show ?thesis using True q unfolding job_view_def f by (auto simp: queued_ingest)
qed (auto simp: ack_def)

lemma view_zadd:
  assumes "store_ok s"
  shows "job_view (snd (zadd_ingest cfg i v fp s)) k j =
     (if k = JOB_KIND_INGEST \<and> j = i \<and> dget (inflight s k) i = None \<and>
         (dget (ingest s) i \<noteq> None \<or> decode_ingest_band v = ''hot'' \<or>
          has_capacity s k (discover_ingest_capacity_limit (cfg_members cfg) (cfg_ingest_max cfg)))
      then Queued (Some v) else job_view s k j)"
  by (cases "dget (inflight s JOB_KIND_INGEST) i"; cases "dget (ingest s) i")
    (auto simp: zadd_ingest_def Let_def view_ingest_set)

lemma view_enqueue:
  assumes "enqueue_list cfg k i True s = Inr (d, t)"
  shows "job_view t k' j = (if k' = k \<and> j = i \<and> i \<notin> pending s k \<and> dget (inflight s k) i = None \<and>
      has_capacity s k (queue_capacity_limit (cfg_members cfg)) then Queued None else job_view s k' j)"
  using assms
  by (cases "dget (inflight s k) i") (auto simp: enqueue_list_def Let_def view_list_append split: if_splits)

lemma view_lease_out:
  "job_view (lease_out k i d owner sc s) k' j = (if k' = k \<and> j = i then Leased d owner sc else job_view s k' j)"
  unfolding job_view_def lease_out_fields by auto

lemma view_popleft:
  "lists s k = i # r \<Longrightarrow> (k', j) \<noteq> (k, i) \<Longrightarrow> job_view (list_popleft k i r s) k' j = job_view s k' j"
  unfolding job_view_def list_popleft_fields by auto

lemma view_claim_list:
  assumes ok: "store_ok s" and c: "claim_list cfg k owner ttl now s = Inr (r, t)"
  shows "job_view t k' j = (case lists s k of
      [] \<Rightarrow> job_view s k' j
    | i # _ \<Rightarrow> if k' = k \<and> j = i then Leased (fadd now (of_int_f64 (lease_ttl cfg ttl))) owner None else job_view s k' j)"
proof -
  have k: "k \<in> set JOB_KINDS_LIST" "owner \<noteq> []" using c by (auto simp: claim_list_def split: if_splits)
  show ?thesis
  proof (cases "lists s k")
    case Nil
    then show ?thesis using c k by (simp add: claim_list_def)
  next
    case (Cons i l)
    then show ?thesis
      using c k claim_list_front[OF ok k(1) Cons] view_popleft[OF Cons, of k' j]
      by (auto simp: claim_list_def view_lease_out)
  qed
qed

subsection \<open>The claimed band\<close>

lemma band_queue_snd:
  assumes "store_ok s"
  shows "distinct (map snd (band_queue s b))"
proof -
  have "map snd (band_items s b) = map fst (filter (\<lambda>(_, v). decode_ingest_band v = b) (ingest s))"
    by (simp add: band_items_def comp_def case_prod_unfold)
  then have "distinct (map snd (band_items s b))"
    using store_okD(1)[OF assms] by (simp add: ingest_ok_def distinct_map_filter)
  then show ?thesis
    unfolding band_queue_def by (metis mset_map mset_sort mset_eq_imp_distinct_iff)
qed

lemma lease_band_get:
  assumes "distinct (map snd taken)"
  shows "(v, j) \<in> set taken \<Longrightarrow> dget (lease_band owner dl taken fl) j = Some (dl, owner, Some v)"
    and "j \<notin> snd ` set taken \<Longrightarrow> dget (lease_band owner dl taken fl) j = dget fl j"
proof -
  have n: "j \<notin> snd ` set tk \<Longrightarrow> dget (lease_band owner dl tk fl) j = dget fl j" for tk fl
    by (induction tk arbitrary: fl) (auto simp: lease_band_def)
  then show "j \<notin> snd ` set taken \<Longrightarrow> dget (lease_band owner dl taken fl) j = dget fl j" .
  show "(v, j) \<in> set taken \<Longrightarrow> dget (lease_band owner dl taken fl) j = Some (dl, owner, Some v)"
    using assms
  proof (induction taken arbitrary: fl)
    case (Cons e tk)
    show ?case
    proof (cases "e = (v, j)")
      case True
      then have "j \<notin> snd ` set tk" using Cons.prems(2) by auto
      then show ?thesis using n[of tk "dset j (dl, owner, Some v) fl"] True by (simp add: lease_band_def)
    next
      case False
      then show ?thesis using Cons by (auto simp: lease_band_def split: prod.split)
    qed
  qed simp
qed

lemma view_claim_post:
  assumes ok: "store_ok s" and p: "claim_post owner dl (take n (band_queue s b)) s t"
  shows "(v, j) \<in> set (take n (band_queue s b)) \<Longrightarrow> k = JOB_KIND_INGEST \<Longrightarrow>
      job_view s k j = Queued (Some v) \<and> job_view t k j = Leased dl owner (Some v)"
    and "k \<noteq> JOB_KIND_INGEST \<or> j \<notin> snd ` set (take n (band_queue s b)) \<Longrightarrow> job_view t k j = job_view s k j"
proof -
  define tk where "tk = take n (band_queue s b)"
  have dist: "distinct (map snd tk)"
    unfolding tk_def take_map[symmetric] using band_queue_snd[OF ok] by (rule distinct_take)
  note get = lease_band_get[OF dist]
  have f: "ingest t = filter (\<lambda>(i, _). i \<notin> snd ` set tk) (ingest s)" "lists t = lists s"
    "inflight t = (inflight s)(JOB_KIND_INGEST := lease_band owner dl tk (inflight s JOB_KIND_INGEST))"
    using p by (simp_all add: claim_post_def tk_def)
  show "job_view s k j = Queued (Some v) \<and> job_view t k j = Leased dl owner (Some v)"
    if "(v, j) \<in> set (take n (band_queue s b))" "k = JOB_KIND_INGEST"
  proof -
    have "(j, v) \<in> set (ingest s)"
      using in_set_takeD[OF that(1)] by (simp add: band_queue_def set_band_items)
    then have "dget (ingest s) j = Some v" using store_okD(1)[OF ok] by (simp add: ingest_ok_def dget_mem)
    moreover from this have "dget (inflight s k) j = None" using that(2) by (intro queued_free[OF ok]) (simp add: queued_ingest)
    moreover have "dget (inflight t k) j = Some (dl, owner, Some v)" using get(1)[of v j] that f(3) by (simp add: tk_def)
    ultimately show ?thesis using that(2) by (simp add: job_view_def)
  qed
  show "job_view t k j = job_view s k j" if c: "k \<noteq> JOB_KIND_INGEST \<or> j \<notin> snd ` set (take n (band_queue s b))"
  proof (cases "k = JOB_KIND_INGEST")
    case True
    then have n: "j \<notin> snd ` set tk" using c by (simp add: tk_def)
    have "P j \<Longrightarrow> dget (filter (\<lambda>(i, _). P i) d) j = dget d j" for P and d :: "(string \<times> f64) list"
      by (induction d) auto
    from this[of "\<lambda>i. i \<notin> snd ` set tk"] n show ?thesis
      using True get(2)[OF n] unfolding job_view_def f by (simp split: option.split)
  next
    case False
    then show ?thesis unfolding job_view_def f by simp
  qed
qed


subsection \<open>Every step is a transition of the specification\<close>

definition legal_move :: "job_store \<Rightarrow> (string \<times> string \<times> string) option \<Rightarrow> job_store \<Rightarrow> bool" where
  \<comment> \<open>Each job keeps its status or makes a transition, and only an acknowledgement by the
    lease holder removes one.\<close>
  "legal_move s l t \<longleftrightarrow> (\<forall>k i. job_view t k i = job_view s k i \<or>
     (job_step (job_view s k i) (job_view t k i) \<and>
      (job_view t k i = Absent \<longrightarrow> (\<exists>d owner sc. job_view s k i = Leased d owner sc \<and> l = Some (k, i, owner)))))"

definition given_back :: "job_store \<Rightarrow> job_store \<Rightarrow> bool" where
  "given_back s t \<longleftrightarrow> (\<forall>k i. job_view t k i = job_view s k i \<or>
     (\<exists>d owner sc sc'. job_view s k i = Leased d owner sc \<and> job_view t k i = Queued sc'))"

lemma given_back_legal: "given_back s t \<Longrightarrow> legal_move s l t"
  by (fastforce simp: given_back_def legal_move_def intro: job_step.intros)

lemma given_back_requeue:
  assumes "given_back s t"
  shows "given_back s (snd (requeue k i owner sc t))"
  unfolding given_back_def
proof (intro allI)
  fix k' j
  have owned: "\<exists>d sc. job_view t k i = Leased d owner sc" if "owned_by t k i owner"
    using that by (auto simp: view_leased_iff elim: owned_entry)
  have t: "job_view t k' j = job_view s k' j \<or>
    (\<exists>d owner sc sc'. job_view s k' j = Leased d owner sc \<and> job_view t k' j = Queued sc')"
    using assms by (auto simp: given_back_def)
  show "job_view (snd (requeue k i owner sc t)) k' j = job_view s k' j \<or>
    (\<exists>d owner' sc' sc''. job_view s k' j = Leased d owner' sc' \<and> job_view (snd (requeue k i owner sc t)) k' j = Queued sc'')"
  proof (cases "k' = k \<and> j = i \<and> owner \<noteq> [] \<and> owned_by t k i owner")
    case True
    then obtain d sc0 where "job_view t k' j = Leased d owner sc0" using owned by auto
    then have "job_view s k' j = Leased d owner sc0" using t by auto
    then show ?thesis using True by (auto simp: view_requeue)
  next
    case False
    then have "job_view (snd (requeue k i owner sc t)) k' j = job_view t k' j" by (simp only: view_requeue if_False)
    then show ?thesis using t by simp
  qed
qed

lemma given_back_refl [simp]: "given_back s s"
  by (simp add: given_back_def)

lemma given_back_ops:
  assumes ok: "store_ok s"
  shows "given_back s (snd (reap_expired_inflight k now limit s))"
    "given_back s (snd (steal_dead_owner_leases alive host boot s))"
    "given_back s (snd (reconcile_this_owner_orphan_leases k idents owner s))"
    "given_back s (snd (steal_job_lease_if_owner_dead alive host boot k i s))"
proof -
  show "given_back s (snd (reap_expired_inflight k now limit s))"
    unfolding reap_expired_inflight_def
    by (rule reap_loop_invariant) (auto intro: given_back_requeue simp: inflight_items[OF ok])
  show "given_back s (snd (steal_dead_owner_leases alive host boot s))"
    by (rule steal_invariant[where P = "given_back s"]) (simp_all add: given_back_requeue)
  show "given_back s (snd (reconcile_this_owner_orphan_leases k idents owner s))"
    by (rule reconcile_invariant[where P = "given_back s"])
      (auto intro: given_back_requeue simp: inflight_items[OF ok])
  show "given_back s (snd (steal_job_lease_if_owner_dead alive host boot k i s))"
    by (simp add: steal_job_requeue[OF ok] given_back_requeue split: option.split)
qed

lemma legal_same: "job_view t = job_view s \<Longrightarrow> legal_move s l t"
  by (simp add: legal_move_def)

lemma legal_update:
  assumes "\<And>k i. job_view t k i = (if k = k' \<and> i = i' \<and> P then v else job_view s k i)"
    and "P \<Longrightarrow> job_step (job_view s k' i') v" and "P \<Longrightarrow> v \<noteq> Absent"
  shows "legal_move s l t"
  using assms by (auto simp: legal_move_def)

lemma not_leased_step: "\<forall>d owner sc. st \<noteq> Leased d owner sc \<Longrightarrow> job_step st (Queued sc)"
  by (cases st) (auto intro: job_step.intros)

lemma legal_extend: "legal_move s l (snd (extend_inflight_deadline k i ext now s))"
proof (cases "dget (inflight s k) i")
  case (Some e)
  obtain d owner sc where e: "e = (d, owner, sc)" by (cases e)
  define t where "t = snd (extend_inflight_deadline k i ext now s)"
  have t: "t = s\<lparr>inflight := (inflight s)(k := dset i (fadd now ext, owner, sc) (inflight s k))\<rparr>"
    using Some e by (simp add: t_def extend_inflight_deadline_def)
  have f: "ingest t = ingest s" "lists t = lists s"
    "inflight t = (inflight s)(k := dset i (fadd now ext, owner, sc) (inflight s k))" by (simp_all add: t)
  show ?thesis unfolding t_def[symmetric]
  proof (rule legal_update[where P = True])
    show "job_view t k' j = (if k' = k \<and> j = i \<and> True then Leased (fadd now ext) owner sc else job_view s k' j)" for k' j
      unfolding job_view_def f by auto
    show "job_step (job_view s k i) (Leased (fadd now ext) owner sc)"
      using Some e by (simp add: job_view_def job_step.intros)
  qed simp
qed (simp add: extend_inflight_deadline_def legal_same)

lemma legal_renew: "legal_move s l (snd (renew_job_lease cfg k i owner ttl now s))"
proof (cases "owner \<noteq> [] \<and> owned_by s k i owner")
  case True
  then obtain d sc where e: "dget (inflight s k) i = Some (d, owner, sc)" by (auto elim: owned_entry)
  have "job_step (job_view s k i) (Leased d' owner sc)" for d'
    using e by (simp add: job_view_def job_step.intros)
  then show ?thesis
    using True e
    by (intro legal_update[where P = True and v = "Leased (fadd now (of_int_f64 (lease_ttl cfg ttl))) owner sc"])
      (simp_all add: renew_job_lease_def view_lease_out)
qed (auto simp: renew_job_lease_def owned_by_def legal_same split: option.splits)

lemma legal_claim_ingest:
  assumes ok: "store_ok s" and b: "band = ''hot'' \<or> band = ''catchup''"
    and c: "claim_ingest fuel cfg band owner ttl now max_n s = Some (Inr (jobs, t))"
  shows "legal_move s l t"
proof -
  define tk where "tk = take (nat max_n) (band_queue s band)"
  define dl where "dl = fadd now (of_int_f64 (lease_ttl cfg ttl))"
  obtain u where u: "t = (if tk = [] then u else mark_dirty u)" "claim_post owner dl tk s u"
    using claim_ingest_some(2)[OF ok b c] unfolding tk_def dl_def by auto
  have owner: "owner \<noteq> []" by (rule claim_ingest_some(1)[OF ok b c])
  have v: "job_view t = job_view u" using u(1) by simp
  have "job_view u k i = job_view s k i \<or> (job_step (job_view s k i) (job_view u k i) \<and> job_view u k i \<noteq> Absent)" for k i
  proof (cases "k = JOB_KIND_INGEST \<and> i \<in> snd ` set tk")
    case True
    then obtain w where "(w, i) \<in> set tk" by auto
    then have "job_view s k i = Queued (Some w)" "job_view u k i = Leased dl owner (Some w)"
      using view_claim_post(1)[OF ok u(2)[unfolded tk_def]] True by (simp_all add: tk_def)
    then show ?thesis using owner by (simp add: job_step.intros)
  next
    case False
    then show ?thesis using view_claim_post(2)[OF ok u(2)[unfolded tk_def], of k i] by (simp add: tk_def)
  qed
  then show ?thesis unfolding legal_move_def v by blast
qed

lemma legal_claim_list:
  assumes ok: "store_ok s" and c: "claim_list cfg k owner ttl now s = Inr (r, t)"
  shows "legal_move s l t"
proof (cases "lists s k")
  case Nil
  then show ?thesis using view_claim_list[OF ok c] by (simp add: legal_move_def)
next
  case (Cons i rest)
  have k: "k \<in> set JOB_KINDS_LIST" "owner \<noteq> []" using c by (auto simp: claim_list_def split: if_splits)
  then have "identity_is_queued s k i"
    using Cons store_okD(4)[OF ok] by (simp add: identity_is_queued_def lists_ok_def)
  then have "job_view s k i = Queued None"
    using queued_free[OF ok, of k i] Cons k by (simp add: job_view_def)
  then have "job_step (job_view s k i) (Leased d owner None)" for d using k by (simp add: job_step.intros)
  then show ?thesis
    using view_claim_list[OF ok c] Cons
    by (intro legal_update[where P = True and v = "Leased (fadd now (of_int_f64 (lease_ttl cfg ttl))) owner None"]) simp_all
qed

lemma legal_ack:
  assumes ok: "store_ok s" and a: "ack k i owner s = (True, t)"
  shows "legal_move s (Some (k, i, owner)) t"
proof -
  have o: "owner \<noteq> []" "owned_by s k i owner" using a by (auto simp: ack_def split: if_splits)
  then obtain d sc where "dget (inflight s k) i = Some (d, owner, sc)" by (auto elim: owned_entry)
  then have "job_view s k i = Leased d owner sc" by (simp add: view_leased_iff)
  then show ?thesis
    using view_ack[OF ok, of k i owner] a o by (auto simp: legal_move_def intro: job_step.intros)
qed

lemma legal_zadd:
  assumes ok: "store_ok s"
  shows "legal_move s l (snd (zadd_ingest cfg i v fp s))"
proof (rule legal_update[OF _ _ job_status.distinct(2)])
  let ?P = "dget (inflight s JOB_KIND_INGEST) i = None \<and>
         (dget (ingest s) i \<noteq> None \<or> decode_ingest_band v = ''hot'' \<or>
          has_capacity s JOB_KIND_INGEST (discover_ingest_capacity_limit (cfg_members cfg) (cfg_ingest_max cfg)))"
  show "job_view (snd (zadd_ingest cfg i v fp s)) k j =
    (if k = JOB_KIND_INGEST \<and> j = i \<and> ?P then Queued (Some v) else job_view s k j)" for k j
    using view_zadd[OF ok, of cfg i v fp k j] by auto
  show "?P \<Longrightarrow> job_step (job_view s JOB_KIND_INGEST i) (Queued (Some v))"
    by (rule not_leased_step) (auto simp: view_leased_iff)
qed

lemma legal_enqueue:
  assumes "enqueue_list cfg k i True s = Inr (d, t)"
  shows "legal_move s l t"
proof (rule legal_update[OF _ _ job_status.distinct(2)])
  let ?P = "i \<notin> pending s k \<and> dget (inflight s k) i = None \<and> has_capacity s k (queue_capacity_limit (cfg_members cfg))"
  show "job_view t k' j = (if k' = k \<and> j = i \<and> ?P then Queued None else job_view s k' j)" for k' j
    using view_enqueue[OF assms, of k' j] by auto
  show "?P \<Longrightarrow> job_step (job_view s k i) (Queued None)"
    by (rule not_leased_step) (auto simp: view_leased_iff)
qed

lemma legal_reorder: "legal_move s l (snd (reorder_list k desired current s))"
proof -
  have "job_view (s\<lparr>lists := (lists s)(k := desired), shadow_lists := (shadow_lists s)(k := desired)\<rparr>) = job_view s"
    if "k \<in> set JOB_KINDS_LIST" "sort (lists s k) = sort desired"
  proof -
    have "set (lists s k) = set desired" using that(2) by (metis set_sort)
    then show ?thesis by (intro ext) (auto simp: job_view_def split: option.split)
  qed
  then show ?thesis by (auto simp: reorder_list_def intro: legal_same)
qed

lemma view_sync_if_queued [simp]: "job_view (sync_if_queued k i s) = job_view s"
  by (simp add: sync_if_queued_def)

lemma store_step_legal:
  assumes "store_step s l t" "store_ok s"
  shows "legal_move s l t"
  using assms(1)
proof cases
  case (zadd v cfg i fp n)
  then show ?thesis using legal_zadd[OF assms(2), of l cfg i v fp] by (simp add: zadd_ingest_job_def)
next
  case (enqueue cfg k i d)
  then show ?thesis using legal_enqueue by (simp add: enqueue_list_job_def)
next
  case (claim_ingest band fuel cfg owner max_n ttl now jobs)
  then show ?thesis using legal_claim_ingest[OF assms(2)] by (simp add: claim_ingest_jobs_def)
next
  case (claim_list cfg k owner ttl now j)
  then show ?thesis using legal_claim_list[OF assms(2)] by (simp add: claim_list_job_def)
next
  case (ack k i owner)
  then show ?thesis using legal_ack[OF assms(2)] by (simp add: ack_job_def)
next
  case (requeue sc k i owner r)
  then show ?thesis using given_back_legal[OF given_back_requeue[OF given_back_refl], of s l k i owner sc]
    by (simp add: requeue_job_def)
next
  case (extend k i ext now r)
  then show ?thesis using legal_extend[of s l k i ext now] by simp
next
  case (renew cfg k i owner ttl now r)
  then show ?thesis using legal_renew[of s l cfg k i owner ttl now] by simp
next
  case (reorder k desired current r)
  then show ?thesis using legal_reorder[of s l k desired current] by simp
next
  case (fingerprint k i fp)
  then show ?thesis by (auto simp: write_job_fingerprint_def intro!: legal_same)
next
  case (attempt k i n)
  then show ?thesis by (auto simp: bump_job_attempt_def split: option.splits intro!: legal_same)
next
  case (reap k now limit out)
  then show ?thesis using given_back_ops(1)[OF assms(2), of k now limit] by (simp add: given_back_legal)
next
  case (steal alive host boot n)
  then show ?thesis using given_back_ops(2)[OF assms(2), of alive host boot] by (simp add: given_back_legal)
next
  case (reconcile k idents owner n)
  then show ?thesis using given_back_ops(3)[OF assms(2), of k idents owner] by (simp add: given_back_legal)
next
  case (steal_job alive host boot k i r)
  then show ?thesis using given_back_ops(4)[OF assms(2), of alive host boot k i] by (simp add: given_back_legal)
qed

interpretation store: leased_jobs store_ok store_step job_view
proof
  show "store_ok s \<Longrightarrow> store_step s l t \<Longrightarrow> store_ok t" for s l t
    by (rule store_step_ok)
  show "job_view t k i = job_view s k i \<or>
      (job_step (job_view s k i) (job_view t k i) \<and>
       (job_view t k i = Absent \<longrightarrow> (\<exists>d owner sc. job_view s k i = Leased d owner sc \<and> l = Some (k, i, owner))))"
    if "store_ok s" "store_step s l t" for s l t k i
    using store_step_legal[OF that(2,1)] by (simp add: legal_move_def)
qed

lemma reach_ok: "store_reach s \<Longrightarrow> store_ok s"
  unfolding store_reach_def using store.run_inv new_store_ok by blast

subsection \<open>A sample store\<close>

definition sample_cfg :: job_cfg where
  "sample_cfg = \<lparr>cfg_members = None, cfg_ingest_max = None, cfg_timeout = None\<rparr>"

definition sample_queued :: job_store where
  \<comment> \<open>Two hot jobs and one catch-up job, none of them claimed.\<close>
  "sample_queued = snd (zadd_ingest_job sample_cfg ''c'' (Fin (10 ^ 15 + 7)) []
     (snd (zadd_ingest_job sample_cfg ''b'' (Fin 3) ''9|9''
       (snd (zadd_ingest_job sample_cfg ''a'' (Fin 5) [] new_store)))))"

lemma reach_step: "store_reach s \<Longrightarrow> store_step s l t \<Longrightarrow> store_reach t"
  unfolding store_reach_def by (blast intro: labelled_run.intros)

lemma reach_new: "store_reach new_store"
  unfolding store_reach_def by (blast intro: labelled_run.intros)

lemma reach_zadd: "store_reach s \<Longrightarrow> integral v \<Longrightarrow> store_reach (snd (zadd_ingest_job cfg i v fp s))"
  by (erule reach_step, rule store_step.zadd[where n = "fst (zadd_ingest_job cfg i v fp s)"]) simp_all

lemma sample_reach: "store_reach sample_queued"
  unfolding sample_queued_def by (intro reach_zadd reach_new) (simp_all add: integral_def)

lemma sample_ingest: "ingest sample_queued = [(''a'', Fin 5), (''b'', Fin 3), (''c'', Fin (10 ^ 15 + 7))]"
  by code_simp

lemma sample_inflight: "inflight sample_queued k = []"
  by (simp add: sample_queued_def zadd_ingest_job_def zadd_ingest_def Let_def store_fields new_store_def
      has_capacity_def discover_ingest_capacity_limit_def queue_capacity_limit_def sample_cfg_def
      QUEUE_MAX_MEMBERS_FLOOR_def decode_ingest_band_def put_payload_def)

definition sample_leased :: job_store where
  \<comment> \<open>The sample store after a claim of one hot job.\<close>
  "sample_leased = (case claim_ingest_jobs 9 sample_cfg ''hot'' ''w'' 1 (Some 60) (Fin 100) sample_queued of
     Some (Inr (_, t)) \<Rightarrow> t | _ \<Rightarrow> sample_queued)"

lemma sample_leased_inflight: "inflight sample_leased JOB_KIND_INGEST = [(''b'', (Fin 160, ''w'', Some (Fin 3)))]"
  by code_simp

lemma sample_leased_reach: "store_reach sample_leased"
proof (cases "claim_ingest_jobs 9 sample_cfg ''hot'' ''w'' 1 (Some 60) (Fin 100) sample_queued")
  case None
  then show ?thesis using sample_reach by (simp add: sample_leased_def)
next
  case (Some r)
  then show ?thesis
    using sample_reach
    by (cases r) (auto simp: sample_leased_def intro: reach_step store_step.claim_ingest)
qed

subsection \<open>Properties of the store\<close>

text \<open>
  C4. The invariant of the job store holds in every store the operations can produce: a job
  is never queued and leased at once, every queued ingest job is in the heap of its band
  (so no claim can miss it), the band counters are exact, each list queue and its pending
  set agree, the lease table mirrors the inflight entries, and the shadow copies the
  snapshot writer reads equal the live queues and their payloads.
\<close>
theorem store_invariant:
  assumes "store_reach s"
  shows "distinct (keys (ingest s)) \<and>
    (\<forall>k i. dget (inflight s k) i \<noteq> None \<longrightarrow> \<not> identity_is_queued s k i) \<and>
    (\<forall>i v. dget (ingest s) i = Some v \<longrightarrow> (v, i) \<in> set (ingest_heap_for_band s (decode_ingest_band v))) \<and>
    ingest_hot_n s = band_n s ''hot'' \<and> ingest_catchup_n s = band_n s ''catchup'' \<and>
    (\<forall>k. distinct (lists s k) \<and> pending s k = set (lists s k)) \<and>
    (\<forall>k i. dget (leases s) (k, i) = map_option (fst \<circ> snd) (dget (inflight s k) i)) \<and>
    shadow_ingest s = ingest s \<and> shadow_lists s = lists s \<and> shadow_pending s = pending s \<and>
    (\<forall>k i. dget (shadow_payloads s) (k, i) = (if identity_is_queued s k i then dget (payloads s) (k, i) else None))"
proof -
  note D = store_okD[OF reach_ok[OF assms]]
  have "(v, i) \<in> set (ingest_heap_for_band s (decode_ingest_band v))" if "dget (ingest s) i = Some v" for i v
    using D(2) map_of_SomeD[OF that] by (force simp: heaps_ok_def)
  then show ?thesis
    using D unfolding ingest_ok_def counts_ok_def lists_ok_def flight_ok_def payload_ok_def shadow_ok_def by blast
qed

theorem store_invariant_witness:
  "ingest_hot_n sample_queued = 2 \<and> ingest_hot_n sample_queued = band_n sample_queued ''hot''"
proof -
  have "ingest_hot_n sample_queued = 2" by code_simp
  then show ?thesis using store_invariant[OF sample_reach] by simp
qed

text \<open>
  C2. No job is lost: along any run of the store, a job that is queued or leased stays so
  until it is acknowledged. Claims, requeues, renewals, the reaper, lease stealing and
  reconciliation only move jobs between the queue and the inflight map.
\<close>
theorem no_job_lost:
  assumes "store_reach s" "labelled_run store_step s acks t"
    and "job_view s k i \<noteq> Absent" "\<forall>owner. (k, i, owner) \<notin> set acks"
  shows "job_view t k i \<noteq> Absent"
  using store.run_keeps_job[OF assms(2) reach_ok[OF assms(1)] assms(3,4)] .

theorem no_job_lost_witness:
  "job_view sample_queued JOB_KIND_INGEST ''a'' = Queued (Some (Fin 5)) \<and>
   job_view (snd (steal_dead_owner_leases (\<lambda>_. False) ''h'' ''b'' sample_queued)) JOB_KIND_INGEST ''a'' \<noteq> Absent"
proof -
  let ?t = "snd (steal_dead_owner_leases (\<lambda>_. False) ''h'' ''b'' sample_queued)"
  have v: "job_view sample_queued JOB_KIND_INGEST ''a'' = Queued (Some (Fin 5))"
    by (simp add: job_view_def sample_inflight sample_ingest)
  have "store_step sample_queued None ?t"
    by (rule store_step.steal[where n = "fst (steal_dead_owner_leases (\<lambda>_. False) ''h'' ''b'' sample_queued)"]) simp
  from run_step[where step = store_step, OF run_refl this] have "labelled_run store_step sample_queued [] ?t" by simp
  from no_job_lost[OF sample_reach this, of JOB_KIND_INGEST "''a''"] v show ?thesis by simp
qed

text \<open>
  C6. The store implements the life cycle of a job: every operation, for every job at once,
  is a transition of the abstract specification (added, rescored, claimed from the queue by
  a named owner, renewed by the same owner, given back, finished) or leaves the job alone,
  and only an acknowledgement by the lease holder makes a job disappear.
\<close>
theorem store_refines_job_life:
  assumes "store_reach s" "store_step s l t"
  shows "job_view t k i = job_view s k i \<or> (job_step (job_view s k i) (job_view t k i) \<and>
    (job_view t k i = Absent \<longrightarrow> (\<exists>d owner sc. job_view s k i = Leased d owner sc \<and> l = Some (k, i, owner))))"
  by (rule store.step_legal[OF reach_ok[OF assms(1)] assms(2)])

theorem store_refines_job_life_witness:
  "job_view (snd (zadd_ingest_job sample_cfg ''z'' (Fin 1) [] sample_queued)) JOB_KIND_INGEST ''z'' = Queued (Some (Fin 1)) \<and>
   job_step (job_view sample_queued JOB_KIND_INGEST ''z'')
     (job_view (snd (zadd_ingest_job sample_cfg ''z'' (Fin 1) [] sample_queued)) JOB_KIND_INGEST ''z'')"
proof -
  let ?t = "snd (zadd_ingest_job sample_cfg ''z'' (Fin 1) [] sample_queued)"
  have z: "job_view ?t JOB_KIND_INGEST ''z'' = Queued (Some (Fin 1))"
    unfolding zadd_ingest_job_def view_zadd[OF reach_ok[OF sample_reach]]
    by (simp add: sample_inflight decode_ingest_band_def)
  have a: "job_view sample_queued JOB_KIND_INGEST ''z'' = Absent"
    by (simp add: job_view_def sample_inflight sample_ingest)
  have "store_step sample_queued None ?t"
    by (rule store_step.zadd[where n = "fst (zadd_ingest_job sample_cfg ''z'' (Fin 1) [] sample_queued)" and v = "Fin 1"])
      (simp_all add: integral_def)
  from store_refines_job_life[OF sample_reach this, of JOB_KIND_INGEST "''z''"] z a show ?thesis by simp
qed

text \<open>
  C3. A claim of a score band returns, and returns exactly the first \<^verbatim>\<open>max_n\<close> jobs of the
  band in order of score and identity, each leased to the caller until \<^verbatim>\<open>now + ttl\<close>; every
  other job keeps its status. The stale entries that rescoring, requeues and acknowledged
  jobs leave in the lazy heaps neither hide a job nor keep the loop from ending: twice the
  heap length bounds its turns.
\<close>
theorem claim_ingest_exact:
  assumes "store_reach s" "band = ''hot'' \<or> band = ''catchup''" "owner \<noteq> []" "1 \<le> max_n"
    and "2 * length (ingest_heap_for_band s band) < fuel"
  shows "\<exists>t. claim_ingest fuel cfg band owner ttl now max_n s =
      Some (Inr (map (band_job s owner (fadd now (of_int_f64 (lease_ttl cfg ttl)))) (take (nat max_n) (band_queue s band)), t)) \<and>
    (\<forall>v i. (v, i) \<in> set (take (nat max_n) (band_queue s band)) \<longrightarrow>
       job_view s JOB_KIND_INGEST i = Queued (Some v) \<and>
       job_view t JOB_KIND_INGEST i = Leased (fadd now (of_int_f64 (lease_ttl cfg ttl))) owner (Some v)) \<and>
    (\<forall>k i. k \<noteq> JOB_KIND_INGEST \<or> i \<notin> snd ` set (take (nat max_n) (band_queue s band)) \<longrightarrow> job_view t k i = job_view s k i)"
proof -
  note ok = reach_ok[OF assms(1)]
  obtain u where u: "claim_ingest fuel cfg band owner ttl now max_n s =
      Some (Inr (map (band_job s owner (fadd now (of_int_f64 (lease_ttl cfg ttl)))) (take (nat max_n) (band_queue s band)),
        if take (nat max_n) (band_queue s band) = [] then u else mark_dirty u))"
    "claim_post owner (fadd now (of_int_f64 (lease_ttl cfg ttl))) (take (nat max_n) (band_queue s band)) s u"
    using claim_ingest_returns[OF ok assms(2-5), of cfg ttl now] by blast
  have "job_view (if take (nat max_n) (band_queue s band) = [] then u else mark_dirty u) = job_view u" by simp
  then show ?thesis
    using u(1) view_claim_post[OF ok u(2)] by (intro exI[of _ "if take (nat max_n) (band_queue s band) = [] then u else mark_dirty u"]) simp
qed

theorem claim_ingest_exact_witness:
  "\<exists>t. claim_ingest 9 sample_cfg ''hot'' ''w'' (Some 60) (Fin 100) 1 sample_queued =
     Some (Inr ([\<lparr>kind = JOB_KIND_INGEST, identity = ''b'', owner_token = ''w'', deadline = Fin 160,
       score = Some (Fin 3), fingerprint = ''9|9''\<rparr>], t))"
proof -
  have q: "band_queue sample_queued ''hot'' = [(Fin 3, ''b''), (Fin 5, ''a'')]"
    by (simp add: band_queue_def band_items_def sample_ingest decode_ingest_band_def)
  have h: "length (ingest_heap_for_band sample_queued ''hot'') = 2" by code_simp
  have d: "fadd (Fin 100) (of_int_f64 (lease_ttl sample_cfg (Some 60))) = Fin 160"
    using of_int_f64_exact[of 60] fadd_int[of 100 60] by (simp add: lease_ttl_def)
  have p: "payloads sample_queued = [((JOB_KIND_INGEST, ''b''), [(''fingerprint'', ''9|9'')])]" by code_simp
  have "2 * length (ingest_heap_for_band sample_queued ''hot'') < 9" by (simp add: h)
  from claim_ingest_exact[OF sample_reach _ _ _ this, of "''w''" 1 sample_cfg "Some 60" "Fin 100"]
  show ?thesis by (auto simp: q d band_job_def claimed_ingest_def get_or_def p)
qed

subsection \<open>A band name the claim does not normalise\<close>

lemma rearm_same_heap:
  assumes "sorted ((v, i) # r)" "ingest_heap_catchup s = (v, i) # r" "decode_ingest_band v = ''catchup''" "b \<noteq> ''hot''"
  shows "ingest_heap_push i v (set_heap_for_band b r s) = s"
proof -
  have "insort (v, i) r = (v, i) # r" using assms(1) by (cases r) auto
  then show ?thesis
    using assms(2-4) by (cases s) (simp add: ingest_heap_push_def set_heap_for_band_def heap_push_def ingest_heap_for_band_def)
qed

lemma claim_loop_other_band:
  assumes "b \<noteq> ''hot''"
  shows "claim_loop n b rng owner dl want claimed s = claim_loop n ''catchup'' rng owner dl want claimed s"
proof (induction n arbitrary: claimed s)
  case (Suc n)
  have "ingest_heap_for_band s b = ingest_heap_for_band s ''catchup''"
    "set_heap_for_band b h s = set_heap_for_band ''catchup'' h s" for h
    using assms by (simp_all add: ingest_heap_for_band_def set_heap_for_band_def)
  then show ?case by (simp only: claim_loop.simps Suc)
qed simp

lemma claim_loop_spins:
  assumes "store_ok s" "band_queue s ''catchup'' \<noteq> []" "0 < want"
  shows "claim_loop n ''catchup'' (NInf, Fin (10 ^ 15 - 1)) owner dl want [] s = None"
  using assms(1,2)
proof (induction n arbitrary: s)
  case (Suc n)
  note ok = Suc.prems(1)
  have b: "''catchup'' = ''hot'' \<or> ''catchup'' = ''catchup''" by simp
  have "ingest_heap_for_band s ''catchup'' \<noteq> []" using claim_loop_empty(2)[OF ok b] Suc.prems(2) by blast
  then obtain snap i r where h: "ingest_heap_for_band s ''catchup'' = (snap, i) # r"
    by (cases "ingest_heap_for_band s ''catchup''") auto
  show ?case
  proof (cases "dget (ingest s) i = Some snap")
    case True
    have free: "dget (inflight s JOB_KIND_INGEST) i = None" by (rule queued_free[OF ok]) (simp add: queued_ingest True)
    have c: "decode_ingest_band snap = ''catchup''" using heap_facts(2)[OF ok b] h by simp
    have srt: "sorted ((snap, i) # r)" using heap_facts(1)[OF ok b] h by metis
    have "\<not> fle snap (Fin (10 ^ 15 - 1))"
      using c by (cases snap) (auto simp: decode_ingest_band_def fle_def flt_def less_f64_def less_eq_f64_def split: if_splits)
    moreover have "ingest_heap_push i snap (set_heap_for_band ''catchup'' r s) = s"
      using srt h c by (intro rearm_same_heap) (simp_all add: ingest_heap_for_band_def)
    ultimately have "claim_loop (Suc n) ''catchup'' (NInf, Fin (10 ^ 15 - 1)) owner dl want [] s =
        claim_loop n ''catchup'' (NInf, Fin (10 ^ 15 - 1)) owner dl want [] s"
      using h True free assms(3) by (auto simp: Let_def)
    then show ?thesis using Suc.IH[OF Suc.prems] by simp
  next
    case False
    obtain t where "claim_loop (Suc n) ''catchup'' (NInf, Fin (10 ^ 15 - 1)) owner dl want [] s =
        claim_loop n ''catchup'' (NInf, Fin (10 ^ 15 - 1)) owner dl want [] t"
      "store_ok t" "band_queue t ''catchup'' = band_queue s ''catchup''"
      using claim_loop_stale[OF ok b _ h False, of "[]" want n "(NInf, Fin (10 ^ 15 - 1))" owner dl] assms(3) by auto
    then show ?thesis using Suc.IH[of t] Suc.prems(2) by simp
  qed
qed simp

text \<open>
  C40. The band argument of a claim is normalised for the score range but compared verbatim
  for the heap: with a spelling of \<^verbatim>\<open>hot\<close> other than the exact one (\<^verbatim>\<open>HOT\<close>, a trailing blank)
  and catch-up work queued, the claim pops and re-arms the first catch-up job for ever, for
  no fuel does it return.
\<close>
theorem claim_spelled_hot_diverges:
  assumes "store_reach s" "norm_band band = ''hot''" "band \<noteq> ''hot''" "owner \<noteq> []" "1 \<le> max_n"
    and "band_queue s ''catchup'' \<noteq> []"
  shows "claim_ingest fuel cfg band owner ttl now max_n s = None"
proof -
  have "ingest_score_range band = Inr (NInf, Fin (10 ^ 15 - 1))"
    using assms(2) hot_high by (simp add: ingest_score_range_def)
  moreover have "claim_loop fuel band (NInf, Fin (10 ^ 15 - 1)) owner dl (nat max_n) [] s = None" for dl
    using claim_loop_spins[OF reach_ok[OF assms(1)] assms(6), of "nat max_n" fuel owner dl] assms(5)
    by (simp add: claim_loop_other_band[OF assms(3)])
  ultimately show ?thesis using assms(4,5) by (simp add: claim_ingest_def)
qed

theorem claim_spelled_hot_diverges_witness:
  "claim_ingest 1000 sample_cfg ''HOT'' ''w'' None (Fin 0) 1 sample_queued = None"
proof (rule claim_spelled_hot_diverges[OF sample_reach])
  show "norm_band ''HOT'' = ''hot''" by code_simp
  show "band_queue sample_queued ''catchup'' \<noteq> []"
    by (simp add: band_queue_def band_items_def sample_ingest decode_ingest_band_def sort_key_def)
qed simp_all

subsection \<open>List queues and the reaper\<close>

datatype list_op = Put string | Take

fun list_ops :: "job_cfg \<Rightarrow> string \<Rightarrow> string \<Rightarrow> int option \<Rightarrow> f64 \<Rightarrow> list_op list \<Rightarrow> job_store \<Rightarrow>
    (string list \<times> string list \<times> job_store) res" where
  \<comment> \<open>A sequence of enqueues and claims on the list queue of kind \<open>k\<close>, with the identities that were new
    and found room in the queue, in their order, and those that were claimed.\<close>
  "list_ops cfg k owner ttl now [] s = Inr ([], [], s)"
| "list_ops cfg k owner ttl now (Put i # ops) s =
     bindE (enqueue_list_job cfg k i True s) (\<lambda>(_, t).
     bindE (list_ops cfg k owner ttl now ops t) (\<lambda>(added, claimed, u).
       Inr (if job_view s k i = Absent \<and> has_capacity s k (queue_capacity_limit (cfg_members cfg)) then i # added else added, claimed, u)))"
| "list_ops cfg k owner ttl now (Take # ops) s =
     bindE (claim_list_job cfg k owner ttl now s) (\<lambda>(j, t).
     bindE (list_ops cfg k owner ttl now ops t) (\<lambda>(added, claimed, u).
       Inr (added, (case j of None \<Rightarrow> claimed | Some job \<Rightarrow> identity job # claimed), u)))"

lemma enqueue_list_back:
  assumes "store_ok s" "enqueue_list cfg k i True s = Inr (d, t)"
  shows "lists t k = lists s k @ (if job_view s k i = Absent \<and> has_capacity s k (queue_capacity_limit (cfg_members cfg)) then [i] else [])"
proof -
  have k: "k \<in> set JOB_KINDS_LIST" using assms(2) by (auto simp: enqueue_list_def split: if_splits)
  then have "k \<noteq> JOB_KIND_INGEST" by (auto simp: job_kind_defs)
  moreover have "pending s k = set (lists s k)" using store_okD(4)[OF assms(1)] k by (simp add: lists_ok_def)
  ultimately have "job_view s k i = Absent \<longleftrightarrow> i \<notin> pending s k \<and> dget (inflight s k) i = None"
    by (auto simp: job_view_def split: option.splits)
  then show ?thesis using assms(2) k by (auto simp: enqueue_list_def Let_def store_fields split: if_splits)
qed

lemma claim_list_head:
  assumes "store_ok s" "claim_list cfg k owner ttl now s = Inr (r, t)"
  shows "lists s k = (case r of None \<Rightarrow> [] | Some j \<Rightarrow> [identity j]) @ lists t k"
proof -
  have k: "k \<in> set JOB_KINDS_LIST" "owner \<noteq> []" using assms(2) by (auto simp: claim_list_def split: if_splits)
  show ?thesis
  proof (cases "lists s k")
    case Nil
    then show ?thesis using assms(2) k by (simp add: claim_list_def)
  next
    case (Cons i l)
    then show ?thesis using assms(2) k claim_list_front[OF assms(1) k(1) Cons] by (auto simp: claim_list_def store_fields)
  qed
qed

text \<open>
  C37. A list queue is first in, first out: for any sequence of enqueues and claims of one kind on a
  store that the operations can produce, the jobs claimed, followed by those still queued, are
  the jobs queued before, followed by those enqueued, in the order of their enqueueing. An
  enqueue counts when the job is neither queued nor leased and the queue has room.
\<close>
theorem claim_list_fifo:
  assumes "store_reach s" "list_ops cfg k owner ttl now ops s = Inr (added, claimed, t)"
  shows "claimed @ lists t k = lists s k @ added"
proof -
  have "store_ok s" by (rule reach_ok[OF assms(1)])
  then show ?thesis using assms(2)
  proof (induction ops arbitrary: s added claimed)
    case (Cons p ops)
    show ?case
    proof (cases p)
      case (Put i)
      from Cons.prems(2) obtain d s1 where e: "enqueue_list cfg k i True s = Inr (d, s1)"
        by (auto simp: Put enqueue_list_job_def bindE_Inr_iff)
      then show ?thesis using Cons.IH[OF enqueue_list_ok[OF Cons.prems(1) e]] Cons.prems(2) enqueue_list_back[OF Cons.prems(1) e]
        by (auto simp: Put enqueue_list_job_def bindE_Inr_iff split: if_splits)
    next
      case Take
      from Cons.prems(2) obtain j s1 where c: "claim_list cfg k owner ttl now s = Inr (j, s1)"
        by (auto simp: Take claim_list_job_def bindE_Inr_iff)
      then show ?thesis using Cons.IH[OF claim_list_ok[OF Cons.prems(1) c]] Cons.prems(2) claim_list_head[OF Cons.prems(1) c]
        by (cases j) (auto simp: Take claim_list_job_def bindE_Inr_iff)
    qed
  qed simp
qed

theorem claim_list_fifo_witness:
  "\<exists>t. list_ops sample_cfg ''append'' ''w'' (Some 60) (Fin 0) [Put ''a'', Put ''b'', Take, Put ''a'', Put ''c'', Take] new_store =
      Inr ([''a'', ''b'', ''c''], [''a'', ''b''], t) \<and> lists t ''append'' = [''c'']"
proof -
  define x where "x = list_ops sample_cfg ''append'' ''w'' (Some 60) (Fin 0) [Put ''a'', Put ''b'', Take, Put ''a'', Put ''c'', Take] new_store"
  have "map_sum id (\<lambda>(a, c, t). (a, c)) x = Inr ([''a'', ''b'', ''c''], [''a'', ''b''])" unfolding x_def by code_simp
  then obtain t where "x = Inr ([''a'', ''b'', ''c''], [''a'', ''b''], t)" by (cases x) auto
  then show ?thesis using claim_list_fifo[OF reach_new, of sample_cfg "''append''" "''w''" "Some 60" "Fin 0"
      "[Put ''a'', Put ''b'', Take, Put ''a'', Put ''c'', Take]" "[''a'', ''b'', ''c'']" "[''a'', ''b'']" t]
    by (simp add: x_def new_store_def del: list_ops.simps)
qed

definition reap_due :: "f64 \<Rightarrow> string \<times> inflight_entry \<Rightarrow> bool" where
  "reap_due cutoff e \<longleftrightarrow> \<not> flt cutoff (fst (snd e))"

lemma reap_loop_exact:
  assumes "store_ok s" "distinct (keys items)"
    and "\<And>i e. (i, e) \<in> set items \<Longrightarrow> dget (inflight s k) i = Some e \<and> entry_ok k e"
  shows "fst (reap_loop items k cutoff want out s) = out @ take (want - length out) (keys (filter (reap_due cutoff) items)) \<and>
    (\<forall>j e. (j, e) \<in> set items \<longrightarrow> j \<in> set (take (want - length out) (keys (filter (reap_due cutoff) items))) \<longrightarrow>
       job_view (snd (reap_loop items k cutoff want out s)) k j = Queued (requeue_score k (Some (reap_score (snd (snd e)))))) \<and>
    (\<forall>k' j. k' \<noteq> k \<or> j \<notin> set (take (want - length out) (keys (filter (reap_due cutoff) items))) \<longrightarrow>
       job_view (snd (reap_loop items k cutoff want out s)) k' j = job_view s k' j)"
  using assms
proof (induction items arbitrary: out s)
  case (Cons x items)
  obtain i d owner sc where x: "x = (i, (d, owner, sc))" by (cases x) auto
  have e: "dget (inflight s k) i = Some (d, owner, sc)" "entry_ok k (d, owner, sc)"
    using Cons.prems(3)[of i "(d, owner, sc)"] x by auto
  have o: "owner \<noteq> []" using e(2) by (simp add: entry_ok_def)
  have own: "owned_by s k i owner" using e(1) by (simp add: owned_by_def)
  have dist: "distinct (keys items)" "i \<notin> set (keys items)" using Cons.prems(2) x by auto
  define s' where "s' = snd (requeue k i owner (Some (reap_score sc)) s)"
  have ok': "store_ok s'"
    unfolding s'_def using reap_score_integral[OF entry_score_arg[OF e(2)]]
    by (intro requeue_ok Cons.prems(1)) (simp add: score_arg_ok_def)
  have rest: "dget (inflight t k) j = Some e' \<and> entry_ok k e'"
    if "(j, e') \<in> set items" "t = s \<or> t = s'" for j e' t
    using reap_items_rest[OF Cons.prems(3,2) x that(1)] Cons.prems(3)[of j e'] that unfolding s'_def by auto
  have v': "job_view s' k' j = (if k' = k \<and> j = i then Queued (requeue_score k (Some (reap_score sc))) else job_view s k' j)" for k' j
    using o own by (simp add: s'_def view_requeue)
  have nokey: "(i, e') \<notin> set items" for e' using dist(2) by force
  have taken_key: "i \<notin> set (take n (keys (filter (reap_due cutoff) items)))" for n
    using dist(2) in_set_takeD[of i n "keys (filter (reap_due cutoff) items)"] by auto
  consider (full) "want \<le> length out" | (skip) "\<not> want \<le> length out" "\<not> reap_due cutoff x" | (take) "\<not> want \<le> length out" "reap_due cutoff x"
    by blast
  then show ?case
  proof cases
    case full
    then show ?thesis by (simp add: x)
  next
    case skip
    then have st: "reap_loop (x # items) k cutoff want out s = reap_loop items k cutoff want out s"
      unfolding x reap_loop_requeue[OF e(1) o] by (simp add: reap_due_def)
    have n: "i \<notin> set (take (want - length out) (keys (filter (reap_due cutoff) items)))"
      using taken_key by blast
    show ?thesis
      using Cons.IH[OF Cons.prems(1) dist(1) rest, of out] skip(2) n unfolding st by (auto simp: x)
  next
    case take
    then have st: "reap_loop (x # items) k cutoff want out s = reap_loop items k cutoff want (out @ [i]) s'"
      unfolding x reap_loop_requeue[OF e(1) o] by (simp add: reap_due_def s'_def)
    have w: "want - length out = Suc (want - length (out @ [i]))" using take(1) by simp
    have n: "i \<notin> set (take (want - length (out @ [i])) (keys (filter (reap_due cutoff) items)))"
      using taken_key by blast
    show ?thesis
      using Cons.IH[OF ok' dist(1) rest, of "out @ [i]"] take(2) n nokey unfolding st w by (auto simp: x v')
  qed
qed simp

text \<open>
  C35. The reaper returns expired jobs to their queues: it releases, oldest claim first, the
  first \<^verbatim>\<open>limit\<close> (at least one) leases of the kind whose deadline is more than the grace of
  30 seconds in the past, and no other; a released ingest job is queued again at its old
  score plus the conflict penalty, a list job at the end of its queue.
\<close>
theorem reap_expired_exact:
  assumes "store_reach s"
  shows "let due = take (nat (max 1 limit))
        (keys (filter (reap_due (fsub now (of_int_f64 INFLIGHT_REAP_GRACE_FLOOR_S))) (inflight s k)));
      t = snd (reap_expired_inflight k now limit s)
    in fst (reap_expired_inflight k now limit s) = due \<and>
       (\<forall>i e. dget (inflight s k) i = Some e \<longrightarrow> i \<in> set due \<longrightarrow>
          job_view t k i = Queued (requeue_score k (Some (reap_score (snd (snd e)))))) \<and>
       (\<forall>k' i. k' \<noteq> k \<or> i \<notin> set due \<longrightarrow> job_view t k' i = job_view s k' i)"
proof -
  note ok = reach_ok[OF assms]
  show ?thesis
    using reap_loop_exact[OF ok inflight_items(1)[OF ok] inflight_items(2)[OF ok], where k = k and out = "[]"]
    unfolding reap_expired_inflight_def Let_def by (auto dest: map_of_SomeD)
qed

theorem reap_expired_exact_witness:
  "fst (reap_expired_inflight JOB_KIND_INGEST (Fin 1000) 1 sample_leased) = [''b''] \<and>
   job_view (snd (reap_expired_inflight JOB_KIND_INGEST (Fin 1000) 1 sample_leased)) JOB_KIND_INGEST ''b'' =
     Queued (Some (Fin 1000003))"
proof -
  have c: "fsub (Fin 1000) (of_int_f64 INFLIGHT_REAP_GRACE_FLOOR_S) = Fin 970"
    using fsub_int[of 1000 30] of_int_f64_exact[of 30] by (simp add: INFLIGHT_REAP_GRACE_FLOOR_S_def)
  have p: "reap_score (Some (Fin 3)) = Fin 1000003"
    using fadd_int[of 3 1000000] of_int_f64_exact[of 1000000] by (simp add: reap_score_def score_consts)
  show ?thesis
    using reap_expired_exact[OF sample_leased_reach, of 1 "Fin 1000" JOB_KIND_INGEST]
    by (simp add: Let_def sample_leased_inflight c reap_due_def requeue_score_def p)
qed

end
