(* ===== verification/Job_Queries.thy ===== *)
theory Job_Queries
  imports Job_Lifecycle
begin

text \<open>
  The read side of \<^verbatim>\<open>sync_timedb_job_store.py\<close>: counts, slices, the queue census and its log
  line, inflight reads, and the queue dead-letter document. Shown here: the counter
  shortcut of \<open>ingest_count_in_score_range\<close> agrees with counting the scores, the census
  adds up, attempts count up by one, and a dead-lettered job is found again.
\<close>

definition ingest_identities :: "job_store \<Rightarrow> string list" where
  "ingest_identities s = keys (sort_key snd (ingest s))"

definition inflight_count :: "job_store \<Rightarrow> string \<Rightarrow> int" where
  "inflight_count s kd = int (length (inflight s kd))"

definition snapshot_is_empty :: "job_store \<Rightarrow> bool" where
  "snapshot_is_empty s = (if ingest s \<noteq> [] then False else list_all (\<lambda>kd. lists s kd = []) JOB_KINDS_LIST)"

definition queued_count :: "job_store \<Rightarrow> string \<Rightarrow> int" where
  "queued_count s kd =
     (if kd = JOB_KIND_INGEST then int (length (ingest s))
      else if kd \<in> set JOB_KINDS_LIST then int (length (lists s kd)) else 0)"

datatype bound = NoBound | TextBound string | NumBound f64

definition bound_to_float :: "bound \<Rightarrow> f64 \<Rightarrow> f64 res" where
  "bound_to_float value def = (case value of
       NoBound \<Rightarrow> Inr def
     | TextBound t \<Rightarrow> if t = [] then Inr def
         else if t = ''-inf'' then Inr NInf
         else if t = ''+inf'' then Inr PInf
         else raise_none ValueError (py_float t)
     | NumBound v \<Rightarrow> Inr v)"

definition feq :: "f64 \<Rightarrow> f64 \<Rightarrow> bool" where
  \<comment> \<open>\<^verbatim>\<open>==\<close> of floats: NaN equals nothing.\<close>
  "feq a b = (a \<noteq> NaN \<and> a = b)"

definition in_range :: "f64 \<Rightarrow> f64 \<Rightarrow> f64 \<Rightarrow> bool" where
  "in_range low high v = (fle low v \<and> fle v high)"

definition ingest_count_in_score_range :: "job_store \<Rightarrow> bound \<Rightarrow> bound \<Rightarrow> int res" where
  "ingest_count_in_score_range s lo hi =
     bindE (bound_to_float lo NInf) (\<lambda>low.
     bindE (bound_to_float hi PInf) (\<lambda>high.
     bindE (ingest_score_range ''hot'') (\<lambda>(hot_lo, hot_hi).
     bindE (ingest_score_range ''catchup'') (\<lambda>(catch_lo, catch_hi).
       Inr (if feq low hot_lo \<and> feq high hot_hi then ingest_hot_n s
            else if feq low catch_lo \<and> feq high catch_hi then ingest_catchup_n s
            else int (length (filter (\<lambda>(_, v). in_range low high v) (ingest s))))))))"

definition ingest_score :: "job_store \<Rightarrow> string \<Rightarrow> f64 option" where
  "ingest_score s ident = dget (ingest s) ident"

definition list_slice :: "job_store \<Rightarrow> string \<Rightarrow> int \<Rightarrow> int \<Rightarrow> string list" where
  "list_slice s kd start_i end_i =
     (let dq = lists s kd; n = int (length dq) in
      if dq = [] then []
      else let e0 = (if end_i = - 1 then n - 1 else end_i);
               b = (if start_i < 0 then max 0 (n + start_i) else start_i);
               e = (if e0 < 0 then max (- 1) (n + e0) else e0)
           in if b > e \<or> b \<ge> n then [] else take (nat (e + 1 - b)) (drop (nat b) dq))"

definition lease_token :: "job_store \<Rightarrow> string \<Rightarrow> string \<Rightarrow> string option" where
  "lease_token s kd ident = dget (leases s) (kd, ident)"

definition inflight_contains :: "job_store \<Rightarrow> string \<Rightarrow> string \<Rightarrow> bool" where
  "inflight_contains s kd ident = (dget (inflight s kd) ident \<noteq> None)"

definition read_inflight_entry :: "job_store \<Rightarrow> string \<Rightarrow> string \<Rightarrow> inflight_entry option" where
  "read_inflight_entry s kd ident = dget (inflight s kd) ident"

definition read_inflight_entries :: "job_store \<Rightarrow> string \<Rightarrow> (string \<times> inflight_entry) list" where
  "read_inflight_entries s kd = inflight s kd"

definition count_inflight_by_band :: "job_store \<Rightarrow> int \<times> int" where
  "count_inflight_by_band s =
     fold (\<lambda>(_, (_, _, sc)) (hot, catchup).
         (case sc of None \<Rightarrow> (hot + 1, catchup)
          | Some v \<Rightarrow> if decode_ingest_band v = ''hot'' then (hot + 1, catchup) else (hot, catchup + 1)))
       (read_inflight_entries s JOB_KIND_INGEST) (0, 0)"

definition ingest_queue_census :: "job_store option \<Rightarrow> (int \<times> int \<times> int) res" where
  "ingest_queue_census store = (case store of None \<Rightarrow> Inr (0, 0, 0)
     | Some s \<Rightarrow>
         bindE (ingest_score_range ''hot'') (\<lambda>(hot_lo, hot_hi).
         bindE (ingest_score_range ''catchup'') (\<lambda>(catch_lo, catch_hi).
         bindE (ingest_count_in_score_range s (NumBound hot_lo) (NumBound hot_hi)) (\<lambda>h.
         bindE (ingest_count_in_score_range s (NumBound catch_lo) (NumBound catch_hi)) (\<lambda>c.
           Inr (h, c, queued_count s JOB_KIND_INGEST))))))"

definition queue_depth :: "job_store option \<Rightarrow> string \<Rightarrow> int" where
  "queue_depth store kd = (case store of None \<Rightarrow> 0 | Some s \<Rightarrow> queued_count s kd)"

definition queue_has_capacity :: "job_cfg \<Rightarrow> job_store option \<Rightarrow> string \<Rightarrow> int option \<Rightarrow> bool" where
  "queue_has_capacity cfg store kd limit =
     (queue_depth store kd < (case limit of None \<Rightarrow> queue_capacity_limit (cfg_members cfg) | Some l \<Rightarrow> l))"

type_synonym census = "(string \<times> (string \<times> int) list) list"

definition queue_census :: "job_store \<Rightarrow> census" where
  "queue_census s = fold (\<lambda>kd. dset kd [(''queued'', queue_depth (Some s) kd), (''inflight'', inflight_count s kd)])
     JOB_KINDS_ALL []"

definition census_part :: "census \<Rightarrow> string \<Rightarrow> string list" where
  "census_part census kd = (case dget census kd of
       None \<Rightarrow> []
     | Some entry \<Rightarrow> if entry = [] then []
         else [kd @ ''='' @ str_int (get_or 0 entry ''inflight'') @ ''/'' @ str_int (get_or 0 entry ''queued'')])"

definition format_queue_census :: "census \<Rightarrow> string" where
  "format_queue_census census = join_on (CHR '' '') (concat (map (census_part census) JOB_KINDS_ALL))"

subsection \<open>The queue dead-letter document\<close>

record dead_letter =
  dl_kind :: string
  dl_identity :: string
  dl_attempt :: int
  dl_reason :: string
  dl_recorded_at :: f64

datatype dead_letter_doc = DocList "dead_letter option list" | DocOther
  \<comment> \<open>The loaded JSON document: a list whose entries are objects or something else (\<open>None\<close>),
    or no list at all.\<close>

definition doc_entries :: "dead_letter_doc \<Rightarrow> dead_letter option list" where
  "doc_entries doc = (case doc of DocList es \<Rightarrow> es | DocOther \<Rightarrow> [])"

definition keep_last :: "int \<Rightarrow> 'a list \<Rightarrow> 'a list" where
  \<comment> \<open>\<^verbatim>\<open>xs[-n:]\<close>, where \<open>-0\<close> and negative \<open>n\<close> index from the front.\<close>
  "keep_last n xs = (if 0 < n then drop (length xs - nat n) xs else drop (nat (- n)) xs)"

definition append_queue_dead_letter :: "dead_letter_doc \<Rightarrow> string \<Rightarrow> string \<Rightarrow> int \<Rightarrow> string \<Rightarrow> f64 \<Rightarrow> int \<Rightarrow> bool
    \<Rightarrow> bool \<times> dead_letter_doc" where
  \<comment> \<open>The last argument says whether the write raises \<^verbatim>\<open>OSError\<close>.\<close>
  "append_queue_dead_letter doc kd ident attempt reason now max_entries write_fails =
     (let entries = doc_entries doc @ [Some \<lparr>dl_kind = kd, dl_identity = ident, dl_attempt = attempt,
            dl_reason = take 500 reason, dl_recorded_at = now\<rparr>];
          kept = (if int (length entries) > max_entries then keep_last max_entries entries else entries)
      in if write_fails then (False, doc) else (True, DocList kept))"

definition identity_in_queue_dead_letter :: "string \<Rightarrow> dead_letter_doc \<Rightarrow> string \<Rightarrow> string \<Rightarrow> bool" where
  "identity_in_queue_dead_letter archive_dir doc kd ident =
     (if archive_dir = [] \<or> ident = [] then False
      else list_ex (\<lambda>e. case e of None \<Rightarrow> False | Some d \<Rightarrow> dl_kind d = kd \<and> dl_identity d = ident) (doc_entries doc))"

subsection \<open>Counting\<close>

lemma in_hot_range: "integral v \<Longrightarrow> in_range NInf (Fin (10 ^ 15 - 1)) v \<longleftrightarrow> decode_ingest_band v = ''hot''"
proof
  assume v: "integral v" "in_range NInf (Fin (10 ^ 15 - 1)) v"
  then have "v \<le> Fin (10 ^ 15 - 1)" "v \<noteq> NaN" by (simp_all add: in_range_def fle_def)
  moreover have "Fin (10 ^ 15 - 1) < Fin (10 ^ 15)" by simp
  ultimately have "flt v (Fin (10 ^ 15))" unfolding flt_def by (metis f64.distinct order_le_less_trans)
  then show "decode_ingest_band v = ''hot''" by (simp add: decode_ingest_band_def)
next
  assume "integral v" "decode_ingest_band v = ''hot''"
  from integral_in_range[OF this refl] show "in_range NInf (Fin (10 ^ 15 - 1)) v" by (simp add: in_range_def)
qed

lemma in_catchup_range: "integral v \<Longrightarrow> in_range (Fin (10 ^ 15)) PInf v \<longleftrightarrow> decode_ingest_band v = ''catchup''"
proof
  assume v: "integral v" "in_range (Fin (10 ^ 15)) PInf v"
  then have "\<not> flt v (Fin (10 ^ 15))" by (auto simp: in_range_def fle_def flt_def not_less)
  then show "decode_ingest_band v = ''catchup''" by (simp add: decode_ingest_band_def)
next
  assume "integral v" "decode_ingest_band v = ''catchup''"
  from integral_in_range[OF this refl] show "in_range (Fin (10 ^ 15)) PInf v" by (simp add: in_range_def)
qed

lemma band_n_range:
  assumes "store_ok s" "b = ''hot'' \<or> b = ''catchup''"
  shows "band_n s b = int (length (filter (\<lambda>(_, v). in_range
      (fst (if b = ''hot'' then (NInf, Fin (10 ^ 15 - 1)) else (Fin (10 ^ 15), PInf)))
      (snd (if b = ''hot'' then (NInf, Fin (10 ^ 15 - 1)) else (Fin (10 ^ 15), PInf))) v) (ingest s)))"
proof -
  have i: "integral (snd e)" if "e \<in> set (ingest s)" for e
    using store_okD(1)[OF assms(1)] that by (simp add: ingest_ok_def)
  show ?thesis
    unfolding band_n_def
    using assms(2) in_hot_range[OF i] in_catchup_range[OF i]
    by (intro arg_cong[where f = int] arg_cong[where f = length] filter_cong) auto
qed

text \<open>
  Counting ingest jobs in a score range is exact: the counters the store keeps for the
  hot and the catch-up band are what counting the queued scores gives, for those two ranges
  as for any other; a bound that is no number is the \<^verbatim>\<open>ValueError\<close> of the code.
\<close>
theorem score_range_count_exact:
  assumes "store_reach s"
  shows "ingest_count_in_score_range s lo hi =
    bindE (bound_to_float lo NInf) (\<lambda>low. bindE (bound_to_float hi PInf) (\<lambda>high.
      Inr (int (length (filter (\<lambda>(_, v). in_range low high v) (ingest s))))))"
proof -
  note ok = reach_ok[OF assms]
  have r: "ingest_score_range ''hot'' = Inr (NInf, Fin (10 ^ 15 - 1))" "ingest_score_range ''catchup'' = Inr (Fin (10 ^ 15), PInf)"
    using range_of_band by simp_all
  have n: "ingest_hot_n s = band_n s ''hot''" "ingest_catchup_n s = band_n s ''catchup''"
    using store_okD(3)[OF ok] by (simp_all add: counts_ok_def)
  show ?thesis
    unfolding ingest_count_in_score_range_def r n
    using band_n_range[OF ok, of "''hot''"] band_n_range[OF ok, of "''catchup''"]
    by (intro bindE_cong) (auto simp: feq_def)
qed

theorem score_range_count_exact_witness:
  "ingest_count_in_score_range sample_queued (TextBound ''-inf'') (NumBound (Fin (10 ^ 15 - 1))) = Inr 2"
  unfolding score_range_count_exact[OF sample_reach]
  by (simp add: bound_to_float_def sample_ingest in_range_def fle_def less_eq_f64_def)

text \<open>
  The ingest census adds up: the hot and the catch-up count are the lengths of the two
  band queues, and together they are the number of queued ingest jobs.
\<close>
theorem ingest_census_partition:
  assumes "store_reach s"
  shows "ingest_queue_census (Some s) =
      Inr (int (length (band_queue s ''hot'')), int (length (band_queue s ''catchup'')), queued_count s JOB_KIND_INGEST) \<and>
    length (band_queue s ''hot'') + length (band_queue s ''catchup'') = length (ingest s)"
proof -
  note ok = reach_ok[OF assms]
  have r: "ingest_score_range ''hot'' = Inr (NInf, Fin (10 ^ 15 - 1))" "ingest_score_range ''catchup'' = Inr (Fin (10 ^ 15), PInf)"
    using range_of_band by simp_all
  have q: "band_n s b = int (length (band_queue s b))" for b
    by (simp add: band_n_def band_queue_def band_items_def)
  have c: "ingest_hot_n s = band_n s ''hot''" "ingest_catchup_n s = band_n s ''catchup''"
    using store_okD(3)[OF ok] by (simp_all add: counts_ok_def)
  have "length (filter (\<lambda>(_, v). decode_ingest_band v = ''hot'') xs) +
      length (filter (\<lambda>(_, v). decode_ingest_band v = ''catchup'') xs) = length xs" for xs :: "(string \<times> f64) list"
    using decode_band_cases by (induction xs) auto
  then have "length (band_queue s ''hot'') + length (band_queue s ''catchup'') = length (ingest s)"
    by (simp add: band_queue_def band_items_def)
  moreover have "ingest_queue_census (Some s) =
      Inr (int (length (band_queue s ''hot'')), int (length (band_queue s ''catchup'')), queued_count s JOB_KIND_INGEST)"
    unfolding ingest_queue_census_def ingest_count_in_score_range_def
    by (simp only: option.case r bindE_simps prod.case bound_to_float_def bound.case feq_def q[symmetric] c) simp
  ultimately show ?thesis by blast
qed

theorem ingest_census_partition_witness:
  "ingest_queue_census (Some sample_queued) = Inr (2, 1, 3)"
proof -
  have "band_queue sample_queued ''hot'' = [(Fin 3, ''b''), (Fin 5, ''a'')]" "length (band_queue sample_queued ''catchup'') = 1"
    by (simp_all add: band_queue_def band_items_def sample_ingest decode_ingest_band_def)
  then show ?thesis
    using ingest_census_partition[OF sample_reach] by (simp add: queued_count_def sample_ingest)
qed

text \<open>
  A dead-lettered job is remembered: after a successful append, with room for at least
  one entry, the lookup finds the job, and the document never holds more than
  \<^verbatim>\<open>max_entries\<close> entries; a failed write leaves the document as it was.
\<close>
theorem dead_letter_found:
  assumes "1 \<le> max_entries" "archive_dir \<noteq> []" "ident \<noteq> []"
  shows "case append_queue_dead_letter doc kd ident attempt reason now max_entries write_fails of (ok, doc') \<Rightarrow>
    (if ok then identity_in_queue_dead_letter archive_dir doc' kd ident \<and> int (length (doc_entries doc')) \<le> max_entries
     else write_fails \<and> doc' = doc)"
proof -
  define e where "e = Some \<lparr>dl_kind = kd, dl_identity = ident, dl_attempt = attempt, dl_reason = take 500 reason, dl_recorded_at = now\<rparr>"
  define es where "es = doc_entries doc @ [e]"
  define kept where "kept = (if int (length es) > max_entries then keep_last max_entries es else es)"
  have len: "int (length kept) \<le> max_entries"
    using assms(1) by (auto simp: kept_def keep_last_def)
  have "e \<in> set kept"
  proof -
    have "length es - nat max_entries \<le> length (doc_entries doc)" using assms(1) by (simp add: es_def)
    then have "e \<in> set (drop (length es - nat max_entries) es)" by (simp add: es_def)
    then show ?thesis using assms(1) by (simp add: kept_def keep_last_def es_def)
  qed
  then have "identity_in_queue_dead_letter archive_dir (DocList kept) kd ident"
    using assms(2,3) by (force simp: identity_in_queue_dead_letter_def doc_entries_def list_ex_iff e_def)
  then show ?thesis
    using len by (simp add: append_queue_dead_letter_def Let_def e_def[symmetric] es_def[symmetric] kept_def[symmetric])
      (simp add: doc_entries_def)
qed

theorem dead_letter_found_witness:
  "identity_in_queue_dead_letter ''/d'' (snd (append_queue_dead_letter (DocList [None]) ''append'' ''p'' 5 ''x'' (Fin 0) 1 False)) ''append'' ''p''"
  using dead_letter_found[where max_entries = 1 and archive_dir = "''/d''" and ident = "''p''" and doc = "DocList [None]"
      and kd = "''append''" and attempt = 5 and reason = "''x''" and now = "Fin 0" and write_fails = False]
  by (simp add: append_queue_dead_letter_def Let_def)

subsection \<open>Attempts and fingerprints\<close>

lemma payload_field_put:
  "payload_field (sync_if_queued k i (put_payload k i nm v s)) k i nm' = (if nm' = nm then v else payload_field s k i nm')"
  by (simp add: payload_field_def sync_if_queued_def put_payload_def mark_dirty_def shadow_sync_payload_def get_or_def
      split: option.split)

text \<open>
  Attempts count up by one and survive being read back: \<^verbatim>\<open>bump_job_attempt\<close> returns one
  more than the recorded attempt and \<^verbatim>\<open>read_job_attempt\<close> then reads that value (printed and
  parsed as a decimal string), while the job's fingerprint stays; a recorded attempt that is
  no integer makes the bump raise \<^verbatim>\<open>ValueError\<close> and reads as zero.
\<close>
theorem attempt_counts_up:
  "case bump_job_attempt k i s of
     Inl e \<Rightarrow> e = ValueError \<and> read_job_attempt k i s = 0
   | Inr (n, t) \<Rightarrow> n = read_job_attempt k i s + 1 \<and> read_job_attempt k i t = n \<and>
       read_job_fingerprint k i t = read_job_fingerprint k i s"
proof -
  have "str_int n \<noteq> []" for n by (simp add: str_int_def nat_digits_ne)
  then show ?thesis
    by (simp add: bump_job_attempt_def read_job_attempt_def read_job_fingerprint_def payload_field_put attempt_of_def
        py_int_str_int split: option.split)
qed

end
