(* ===== verification/Job_Persist.thy ===== *)
theory Job_Persist
  imports Job_Queries
begin

text \<open>
  The durable snapshot of the job store: \<^verbatim>\<open>_persist_writer_flush_once\<close> and \<^verbatim>\<open>load\<close>.
  A flush has two critical sections: the first prunes and copies the shadows with the
  generation they belong to, the second, after the write, clears the dirty flag only if the
  generation is still the same. \<open>flush_begin\<close> and \<open>flush_commit\<close> are those two sections, and
  \<open>world_step\<close> interleaves them with every other operation of the store; a write replaces the
  document at once or fails. \<open>restart\<close> is a new process that loads the document.
  The document is the parsed payload of the snapshot file; its JSON text form is not modelled.
\<close>

record store_doc =
  doc_ingest :: "(string \<times> f64) list"
  doc_lists :: "string \<Rightarrow> string list"
  doc_pending :: "string \<Rightarrow> string list"
  doc_payloads :: "(string \<times> fields) list"

definition snapshot_doc :: "job_store \<Rightarrow> store_doc" where
  \<comment> \<open>The document as a dict: the file is written with sorted keys, the order of \<open>doc_ingest\<close> has no meaning.\<close>
  "snapshot_doc s = \<lparr>doc_ingest = shadow_ingest s, doc_lists = shadow_lists s,
     doc_pending = (\<lambda>k. sorted_list_of_set (shadow_pending s k)),
     doc_payloads = fold (\<lambda>((k, i), fs). dset (k @ ''|'' @ i) fs) (shadow_payloads s) []\<rparr>"

definition flush_begin :: "f64 \<Rightarrow> bool \<Rightarrow> f64 \<Rightarrow> job_store \<Rightarrow> (store_doc \<times> int \<times> f64) option \<times> job_store" where
  "flush_begin persist_interval_s force now s =
     (if \<not> dirty s \<and> \<not> force then (None, s)
      else if \<not> force \<and> flt (fsub now (last_persist s)) persist_interval_s then (None, s)
      else let queued = queued_identities s;
               s1 = prune_orphan_payloads (queued \<union> inflight_identities s) s;
               s2 = prune_shadow_payloads queued s1
           in (Some (snapshot_doc s2, persist_gen s2, now), s2))"

definition flush_commit :: "int \<Rightarrow> f64 \<Rightarrow> job_store \<Rightarrow> job_store" where
  "flush_commit gen now s =
     (if persist_gen s = gen then s\<lparr>last_persist := now, dirty := False\<rparr> else s\<lparr>last_persist := now\<rparr>)"

definition flush_fail :: "job_store \<Rightarrow> job_store" where
  "flush_fail s = s\<lparr>dirty := True\<rparr>"

definition payloads_from_doc :: "(string \<times> fields) list \<Rightarrow> (job_key \<times> fields) list" where
  "payloads_from_doc ps = fold (\<lambda>(key, fs) acc.
       (case split_once (CHR ''|'') key of (k, Some i) \<Rightarrow> dset (k, i) fs acc | (_, None) \<Rightarrow> acc)) ps []"

definition load_store :: "store_doc \<Rightarrow> job_store \<Rightarrow> job_store" where
  "load_store doc s =
     (let s1 = ingest_rebuild_heaps (s\<lparr>ingest := doc_ingest doc\<rparr>);
          s2 = s1\<lparr>lists := (\<lambda>k. if k \<in> set JOB_KINDS_LIST then doc_lists doc k else lists s1 k),
                  pending := (\<lambda>k. if k \<in> set JOB_KINDS_LIST then set (doc_pending doc k) else pending s1 k),
                  payloads := payloads_from_doc (doc_payloads doc),
                  inflight := (\<lambda>k. if k \<in> set JOB_KINDS_ALL then [] else inflight s1 k),
                  leases := []\<rparr>;
          s3 = prune_orphan_payloads (queued_identities s2) s2
      in (rebuild_ingest_band_counts (rebuild_shadow s3))\<lparr>dirty := False\<rparr>)"

record store_world =
  wstore :: job_store
  disk :: store_doc
  writing :: "(store_doc \<times> int \<times> f64) option"

definition empty_doc :: store_doc where
  \<comment> \<open>The default of \<^verbatim>\<open>load_persistence_document\<close>: no file yet.\<close>
  "empty_doc = \<lparr>doc_ingest = [], doc_lists = (\<lambda>_. []), doc_pending = (\<lambda>_. []), doc_payloads = []\<rparr>"

definition new_world :: store_world where
  "new_world = \<lparr>wstore = load_store empty_doc new_store, disk = empty_doc, writing = None\<rparr>"

definition restart :: "store_world \<Rightarrow> store_world" where
  "restart w = w\<lparr>wstore := load_store (disk w) new_store, writing := None\<rparr>"

inductive world_step :: "store_world \<Rightarrow> (string \<times> string \<times> string) option \<Rightarrow> store_world \<Rightarrow> bool" where
  oper: "store_step (wstore w) l t \<Longrightarrow> world_step w l (w\<lparr>wstore := t\<rparr>)"
| begin_write: "writing w = None \<Longrightarrow> flush_begin ivl force now (wstore w) = (Some x, t) \<Longrightarrow>
    world_step w None (w\<lparr>wstore := t, writing := Some x\<rparr>)"
| commit: "writing w = Some (doc, gen, now) \<Longrightarrow>
    world_step w None (w\<lparr>wstore := flush_commit gen now (wstore w), disk := doc, writing := None\<rparr>)"
| fail: "writing w = Some x \<Longrightarrow> world_step w None (w\<lparr>wstore := flush_fail (wstore w), writing := None\<rparr>)"

inductive world_reach :: "store_world \<Rightarrow> bool" where
  start: "world_reach new_world"
| step: "world_reach w \<Longrightarrow> world_step w l v \<Longrightarrow> world_reach v"
| crash: "world_reach w \<Longrightarrow> world_reach (restart w)"

subsection \<open>Loading a snapshot\<close>

lemma fold_dset_fresh:
  "distinct (keys acc @ map f xs) \<Longrightarrow> fold (\<lambda>x. dset (f x) (g x)) xs acc = acc @ map (\<lambda>x. (f x, g x)) xs"
proof (induction xs arbitrary: acc)
  case (Cons x xs)
  have "dset (f x) (g x) acc = acc @ [(f x, g x)]" using Cons.prems by (intro dset_new) simp
  then show ?case using Cons.IH[of "acc @ [(f x, g x)]"] Cons.prems by simp
qed simp

lemma split_kind_key:
  assumes "CHR ''|'' \<notin> set k"
  shows "split_once (CHR ''|'') (k @ ''|'' @ i) = (k, Some i)"
proof -
  have "takeWhile (\<lambda>x. x \<noteq> CHR ''|'') (k @ ''|'' @ i) = k" "dropWhile (\<lambda>x. x \<noteq> CHR ''|'') (k @ ''|'' @ i) = CHR ''|'' # i"
    using assms by (induction k) auto
  then show ?thesis by (simp only: split_once_def list.case)
qed

definition doc_key :: "job_key \<times> fields \<Rightarrow> string" where
  "doc_key e = fst (fst e) @ ''|'' @ snd (fst e)"

lemma doc_payloads_map:
  assumes "distinct (keys ps)" "\<And>e. e \<in> set ps \<Longrightarrow> CHR ''|'' \<notin> set (fst (fst e))"
  shows "fold (\<lambda>((k, i), fs). dset (k @ ''|'' @ i) fs) ps [] = map (\<lambda>e. (doc_key e, snd e)) ps"
    and "payloads_from_doc (map (\<lambda>e. (doc_key e, snd e)) ps) = ps"
proof -
  have split: "split_once (CHR ''|'') (doc_key e) = (fst (fst e), Some (snd (fst e)))" if "e \<in> set ps" for e
    unfolding doc_key_def using assms(2)[OF that] by (rule split_kind_key)
  have "inj_on doc_key (set ps)"
  proof (rule inj_onI)
    fix x y assume xy: "x \<in> set ps" "y \<in> set ps" "doc_key x = doc_key y"
    then have "fst x = fst y" using split[of x] split[of y] by (simp add: prod_eq_iff)
    then show "x = y" using xy assms(1) by (metis eq_key_imp_eq_value prod.collapse)
  qed
  then have dk: "distinct (map doc_key ps)" using assms(1) by (simp add: distinct_map)
  have "(\<lambda>((k, i), fs). dset (k @ ''|'' @ i) fs) = (\<lambda>e :: job_key \<times> fields. dset (doc_key e) (snd e))"
    by (auto simp: doc_key_def)
  then show "fold (\<lambda>((k, i), fs). dset (k @ ''|'' @ i) fs) ps [] = map (\<lambda>e. (doc_key e, snd e)) ps"
    using fold_dset_fresh[of "[]" doc_key ps snd] dk by simp
  have "payloads_from_doc (map (\<lambda>e. (doc_key e, snd e)) ps) = fold (\<lambda>e. dset (fst e) (snd e)) ps []"
    unfolding payloads_from_doc_def fold_map
    by (rule fold_cong) (auto simp: split)
  also have "\<dots> = ps" using fold_dset_fresh[of "[]" fst ps snd] assms(1) by simp
  finally show "payloads_from_doc (map (\<lambda>e. (doc_key e, snd e)) ps) = ps" .
qed

definition heaps_pure :: "job_store \<Rightarrow> bool" where
  "heaps_pure s \<longleftrightarrow> (\<forall>b \<in> {''hot'', ''catchup''}. sorted (ingest_heap_for_band s b) \<and>
     (\<forall>e \<in> set (ingest_heap_for_band s b). decode_ingest_band (fst e) = b))"

lemma push_pure:
  assumes "heaps_pure s"
  shows "heaps_pure (ingest_heap_push i v s)"
  using assms decode_band_cases[of v] by (auto simp: heaps_pure_def store_fields sorted_insort set_insort_key)

lemma push_frame: "\<exists>h c. ingest_heap_push i v s = s\<lparr>ingest_heap_hot := h, ingest_heap_catchup := c\<rparr>"
  by (cases s) (simp add: ingest_heap_push_def set_heap_for_band_def Let_def)

lemma fold_push_pure: "heaps_pure s \<Longrightarrow> heaps_pure (fold (\<lambda>(i, v). ingest_heap_push i v) xs s)"
  by (induction xs arbitrary: s) (auto simp: push_pure)

lemma fold_push_frame: "\<exists>h c. fold (\<lambda>(i, v). ingest_heap_push i v) xs s = s\<lparr>ingest_heap_hot := h, ingest_heap_catchup := c\<rparr>"
proof (induction xs arbitrary: s)
  case Nil
  show ?case by (rule exI[of _ "ingest_heap_hot s"], rule exI[of _ "ingest_heap_catchup s"]) simp
next
  case (Cons x xs)
  obtain i v where x: "x = (i, v)" by (cases x)
  obtain h c where "ingest_heap_push i v s = s\<lparr>ingest_heap_hot := h, ingest_heap_catchup := c\<rparr>" using push_frame by blast
  then show ?case using Cons.IH[of "ingest_heap_push i v s"] x by auto
qed

lemma fold_push_mem:
  "e \<in> set (ingest_heap_for_band s b) \<or> (snd e, fst e) \<in> set xs \<and> decode_ingest_band (fst e) = b \<Longrightarrow>
   e \<in> set (ingest_heap_for_band (fold (\<lambda>(i, v). ingest_heap_push i v) xs s) b)"
proof (induction xs arbitrary: s)
  case (Cons x xs)
  obtain i v where x: "x = (i, v)" by (cases x)
  have "e \<in> set (ingest_heap_for_band (ingest_heap_push i v s) b) \<or> (snd e, fst e) \<in> set xs \<and> decode_ingest_band (fst e) = b"
    using Cons.prems x by (cases e) (auto simp: store_fields set_insort_key)
  then show ?case using Cons.IH x by simp
qed simp

lemma rebuild_heaps_facts:
  "heaps_pure (ingest_rebuild_heaps s)"
  "(i, v) \<in> set (ingest s) \<Longrightarrow> (v, i) \<in> set (ingest_heap_for_band (ingest_rebuild_heaps s) (decode_ingest_band v))"
  "\<exists>h c. ingest_rebuild_heaps s = s\<lparr>ingest_heap_hot := h, ingest_heap_catchup := c\<rparr>"
proof -
  have p: "heaps_pure (s\<lparr>ingest_heap_hot := [], ingest_heap_catchup := []\<rparr>)"
    by (simp add: heaps_pure_def ingest_heap_for_band_def)
  show "heaps_pure (ingest_rebuild_heaps s)" unfolding ingest_rebuild_heaps_def by (rule fold_push_pure[OF p])
  show "(i, v) \<in> set (ingest s) \<Longrightarrow> (v, i) \<in> set (ingest_heap_for_band (ingest_rebuild_heaps s) (decode_ingest_band v))"
    unfolding ingest_rebuild_heaps_def by (rule fold_push_mem) simp
  show "\<exists>h c. ingest_rebuild_heaps s = s\<lparr>ingest_heap_hot := h, ingest_heap_catchup := c\<rparr>"
    using fold_push_frame[of "ingest s" "s\<lparr>ingest_heap_hot := [], ingest_heap_catchup := []\<rparr>"]
    by (auto simp: ingest_rebuild_heaps_def)
qed

lemma queued_identities_iff:
  assumes "lists_ok s"
  shows "(k, i) \<in> queued_identities s \<longleftrightarrow> identity_is_queued s k i"
  using assms by (auto simp: queued_identities_def identity_is_queued_def lists_ok_def dget_None_iff image_iff)

lemma kind_no_bar: "k \<in> set JOB_KINDS_ALL \<Longrightarrow> CHR ''|'' \<notin> set k"
  by (auto simp: job_kind_defs)

lemma queued_kind: "identity_is_queued s k i \<Longrightarrow> k \<in> set JOB_KINDS_ALL"
  by (auto simp: identity_is_queued_def split: if_splits)

lemma shadow_payload_queued:
  assumes "store_ok s" "((k, i), fs) \<in> set (shadow_payloads s)"
  shows "identity_is_queued s k i"
proof (rule ccontr)
  assume "\<not> identity_is_queued s k i"
  then have "dget (shadow_payloads s) (k, i) = None" using store_okD(6)[OF assms(1)] by (simp add: payload_ok_def)
  then show False using assms(2) by (auto simp: dget_None_iff image_iff)
qed

lemma snapshot_facts:
  assumes ok: "store_ok s"
  shows "doc_ingest (snapshot_doc s) = ingest s" "doc_lists (snapshot_doc s) = lists s"
    "set (doc_pending (snapshot_doc s) k) = pending s k"
    "payloads_from_doc (doc_payloads (snapshot_doc s)) = shadow_payloads s"
proof -
  note D = store_okD[OF ok]
  show "doc_ingest (snapshot_doc s) = ingest s" "doc_lists (snapshot_doc s) = lists s"
    using D(7) by (simp_all add: snapshot_doc_def shadow_ok_def)
  have "shadow_pending s k = set (lists s k)" using D(4,7) by (simp add: shadow_ok_def lists_ok_def)
  then show "set (doc_pending (snapshot_doc s) k) = pending s k"
    using D(4) by (simp add: snapshot_doc_def lists_ok_def)
  have nb: "CHR ''|'' \<notin> set (fst (fst e))" if "e \<in> set (shadow_payloads s)" for e
    using shadow_payload_queued[OF ok, of "fst (fst e)" "snd (fst e)" "snd e"] that queued_kind kind_no_bar by simp
  have "distinct (keys (shadow_payloads s))" using D(6) by (simp add: payload_ok_def)
  from doc_payloads_map[OF this nb] show "payloads_from_doc (doc_payloads (snapshot_doc s)) = shadow_payloads s"
    by (simp add: snapshot_doc_def)
qed

lemma load_snapshot_fields:
  assumes ok: "store_ok s"
  defines "t \<equiv> load_store (snapshot_doc s) new_store"
  shows "ingest t = ingest s" "lists t = lists s" "pending t = pending s" "inflight t = (\<lambda>_. [])" "leases t = []"
    "payloads t = shadow_payloads s" "shadow_ingest t = ingest s" "shadow_lists t = lists s"
    "shadow_pending t = pending s" "shadow_payloads t = shadow_payloads s" "\<not> dirty t"
    "ingest_hot_n t = band_n s ''hot''" "ingest_catchup_n t = band_n s ''catchup''" "persist_gen t = 0"
    "ingest_heap_for_band t b = ingest_heap_for_band (ingest_rebuild_heaps (new_store\<lparr>ingest := ingest s\<rparr>)) b"
proof -
  note D = store_okD[OF ok] and F = snapshot_facts[OF ok]
  obtain h c where r: "ingest_rebuild_heaps (new_store\<lparr>ingest := ingest s\<rparr>) =
      new_store\<lparr>ingest := ingest s, ingest_heap_hot := h, ingest_heap_catchup := c\<rparr>"
    using rebuild_heaps_facts(3)[of "new_store\<lparr>ingest := ingest s\<rparr>"] by auto
  have l: "(\<lambda>k. if k \<in> set JOB_KINDS_LIST then lists s k else []) = lists s"
    "(\<lambda>k. if k \<in> set JOB_KINDS_LIST then pending s k else {}) = pending s"
    using D(4) by (auto simp: lists_ok_def fun_eq_iff)
  define s2 where "s2 = new_store\<lparr>ingest := ingest s, ingest_heap_hot := h, ingest_heap_catchup := c,
    lists := lists s, pending := pending s, payloads := shadow_payloads s, inflight := (\<lambda>_. []), leases := []\<rparr>"
  have fn: "lists (new_store\<lparr>ingest := x, ingest_heap_hot := y, ingest_heap_catchup := z\<rparr>) k = []"
    "pending (new_store\<lparr>ingest := x, ingest_heap_hot := y, ingest_heap_catchup := z\<rparr>) k = {}"
    "inflight (new_store\<lparr>ingest := x, ingest_heap_hot := y, ingest_heap_catchup := z\<rparr>) k = []" for x y z k
    by (simp_all add: new_store_def)
  have lk: "lists_ok s2" using D(4) by (simp add: lists_ok_def s2_def)
  have q: "identity_is_queued s2 = identity_is_queued s" by (intro queued_cong) (simp_all add: s2_def)
  have keep: "filter (\<lambda>(k, _). k \<in> queued_identities s2) (shadow_payloads s) = shadow_payloads s"
  proof (rule filter_True, clarify)
    fix k i fs assume "((k, i), fs) \<in> set (shadow_payloads s)"
    then show "(k, i) \<in> queued_identities s2"
      using shadow_payload_queued[OF ok] by (simp add: queued_identities_iff[OF lk] q)
  qed
  have "filter (\<lambda>(_, v). decode_ingest_band v \<noteq> ''hot'') (ingest s) = filter (\<lambda>(_, v). decode_ingest_band v = ''catchup'') (ingest s)"
    using decode_band_cases by (intro filter_cong) auto
  then have n: "rebuild_ingest_band_counts (rebuild_shadow s2) = (rebuild_shadow s2)\<lparr>ingest_hot_n := band_n s ''hot'',
      ingest_catchup_n := band_n s ''catchup''\<rparr>"
    by (simp add: rebuild_ingest_band_counts_def Let_def rebuild_shadow_def band_n_def s2_def)
  have "prune_orphan_payloads (queued_identities s2) s2 = s2"
    using keep by (simp add: prune_orphan_payloads_def) (simp add: s2_def)
  moreover have "t = (rebuild_ingest_band_counts (rebuild_shadow (prune_orphan_payloads (queued_identities s2) s2)))\<lparr>dirty := False\<rparr>"
    unfolding t_def load_store_def Let_def F(1,2,3,4) r s2_def by (simp only: fn l if_cancel)
  ultimately have t: "t = (rebuild_shadow s2)\<lparr>ingest_hot_n := band_n s ''hot'', ingest_catchup_n := band_n s ''catchup'', dirty := False\<rparr>"
    using n by simp
  show "ingest t = ingest s" "lists t = lists s" "pending t = pending s" "inflight t = (\<lambda>_. [])" "leases t = []"
    "payloads t = shadow_payloads s" "shadow_ingest t = ingest s" "shadow_lists t = lists s"
    "shadow_pending t = pending s" "\<not> dirty t" "ingest_hot_n t = band_n s ''hot''"
    "ingest_catchup_n t = band_n s ''catchup''" "persist_gen t = 0"
    by (simp_all add: t rebuild_shadow_def) (simp_all add: s2_def new_store_def)
  show "shadow_payloads t = shadow_payloads s"
    using keep by (simp add: t rebuild_shadow_def) (simp add: s2_def)
  show "ingest_heap_for_band t b = ingest_heap_for_band (ingest_rebuild_heaps (new_store\<lparr>ingest := ingest s\<rparr>)) b"
    unfolding r by (simp add: t rebuild_shadow_def s2_def ingest_heap_for_band_def)
qed

lemma load_snapshot_ok:
  assumes ok: "store_ok s"
  shows "store_ok (load_store (snapshot_doc s) new_store)"
proof (rule store_okI)
  note D = store_okD[OF ok] and L = load_snapshot_fields[OF ok]
  define t where "t = load_store (snapshot_doc s) new_store"
  note L = L[folded t_def]
  have q: "identity_is_queued t = identity_is_queued s" by (rule queued_cong) (simp_all add: L)
  have n: "band_n t = band_n s" by (simp add: band_n_def L fun_eq_iff)
  show "ingest_ok (load_store (snapshot_doc s) new_store)" unfolding t_def[symmetric] using D(1) by (simp add: ingest_ok_def L)
  show "lists_ok (load_store (snapshot_doc s) new_store)" unfolding t_def[symmetric] using D(4) by (simp add: lists_ok_def L)
  show "flight_ok (load_store (snapshot_doc s) new_store)" unfolding t_def[symmetric] by (simp add: flight_ok_def L)
  show "shadow_ok (load_store (snapshot_doc s) new_store)" unfolding t_def[symmetric] by (simp add: shadow_ok_def L)
  show "counts_ok (load_store (snapshot_doc s) new_store)" unfolding t_def[symmetric] by (simp add: counts_ok_def L n)
  show "payload_ok (load_store (snapshot_doc s) new_store)"
    unfolding t_def[symmetric] using D(6) by (auto simp: payload_ok_def L q)
  show "heaps_ok (load_store (snapshot_doc s) new_store)"
    unfolding t_def[symmetric] heaps_ok_def L(15)
    using rebuild_heaps_facts(1,2)[where s = "new_store\<lparr>ingest := ingest s\<rparr>"] by (auto simp: heaps_pure_def L)
qed

lemma snapshot_cong:
  "shadow_ingest s = shadow_ingest t \<Longrightarrow> shadow_lists s = shadow_lists t \<Longrightarrow> shadow_pending s = shadow_pending t \<Longrightarrow>
   shadow_payloads s = shadow_payloads t \<Longrightarrow> snapshot_doc s = snapshot_doc t"
  by (simp add: snapshot_doc_def)

lemma snapshot_load:
  assumes "store_ok s"
  shows "snapshot_doc (load_store (snapshot_doc s) new_store) = snapshot_doc s"
  using store_okD(7)[OF assms] by (intro snapshot_cong) (simp_all add: load_snapshot_fields[OF assms] shadow_ok_def)

subsection \<open>Every change of the queues is tracked by the generation\<close>

definition tracked :: "job_store \<Rightarrow> job_store \<Rightarrow> bool" where
  "tracked s t \<longleftrightarrow> (persist_gen t = persist_gen s \<and> dirty t = dirty s \<and> snapshot_doc t = snapshot_doc s) \<or>
     (persist_gen s < persist_gen t \<and> dirty t)"

lemma tracked_refl [simp]: "tracked s s"
  by (simp add: tracked_def)

lemma tracked_dirty: "persist_gen t = persist_gen s \<Longrightarrow> tracked s (mark_dirty t)"
  by (simp add: tracked_def mark_dirty_def)

lemma tracked_same:
  "persist_gen t = persist_gen s \<Longrightarrow> dirty t = dirty s \<Longrightarrow> shadow_ingest t = shadow_ingest s \<Longrightarrow> shadow_lists t = shadow_lists s \<Longrightarrow>
   shadow_pending t = shadow_pending s \<Longrightarrow> shadow_payloads t = shadow_payloads s \<Longrightarrow> tracked s t"
  by (simp add: tracked_def snapshot_doc_def)

lemma tracked_trans: "tracked s t \<Longrightarrow> tracked t u \<Longrightarrow> tracked s u"
  by (auto simp: tracked_def)

lemma release_gen: "persist_gen (release k i s) = persist_gen s"
  by (simp add: release_def)

lemma tracked_requeue: "tracked s (snd (requeue k i owner sc s))"
  by (auto simp: requeue_def Let_def intro!: tracked_dirty simp: store_fields release_gen)

lemma tracked_requeue_after: "tracked s t \<Longrightarrow> tracked s (snd (requeue k i owner sc t))"
  by (rule tracked_trans[OF _ tracked_requeue])

lemma tracked_ops:
  assumes ok: "store_ok s"
  shows "tracked s (snd (reap_expired_inflight k now limit s))"
    "tracked s (snd (steal_dead_owner_leases alive host boot s))"
    "tracked s (snd (reconcile_this_owner_orphan_leases k idents owner s))"
    "tracked s (snd (steal_job_lease_if_owner_dead alive host boot k i s))"
proof -
  show "tracked s (snd (reap_expired_inflight k now limit s))"
    unfolding reap_expired_inflight_def
    by (rule reap_loop_invariant) (auto intro: tracked_requeue_after simp: inflight_items[OF ok])
  show "tracked s (snd (steal_dead_owner_leases alive host boot s))"
    by (rule steal_invariant[where P = "tracked s"]) (simp_all add: tracked_requeue_after)
  show "tracked s (snd (reconcile_this_owner_orphan_leases k idents owner s))"
    by (rule reconcile_invariant[where P = "tracked s"]) (auto intro: tracked_requeue_after simp: inflight_items[OF ok])
  show "tracked s (snd (steal_job_lease_if_owner_dead alive host boot k i s))"
    by (simp add: steal_job_requeue[OF ok] tracked_requeue split: option.split)
qed

lemma tracked_sync: "tracked s (sync_if_queued k i (put_payload k i nm v s))"
  by (auto simp: sync_if_queued_def intro!: tracked_dirty tracked_same) (simp_all add: put_payload_def store_fields)

lemma tracked_claim_ingest:
  assumes ok: "store_ok s" and b: "band = ''hot'' \<or> band = ''catchup''"
    and c: "claim_ingest fuel cfg band owner ttl now max_n s = Some (Inr (jobs, t))"
  shows "tracked s t"
proof -
  obtain u where "t = (if take (nat max_n) (band_queue s band) = [] then u else mark_dirty u)"
    "claim_post owner (fadd now (of_int_f64 (lease_ttl cfg ttl))) (take (nat max_n) (band_queue s band)) s u"
    using claim_ingest_some(2)[OF ok b c] by blast
  then show ?thesis
    by (cases "take (nat max_n) (band_queue s band) = []")
      (auto simp: claim_post_def intro: tracked_same tracked_dirty)
qed

lemma tracked_claim_list:
  assumes ok: "store_ok s" and c: "claim_list cfg k owner ttl now s = Inr (r, t)"
  shows "tracked s t"
proof -
  have k: "k \<in> set JOB_KINDS_LIST" "owner \<noteq> []" using c by (auto simp: claim_list_def split: if_splits)
  show ?thesis
  proof (cases "lists s k")
    case Nil
    then show ?thesis using c k by (simp add: claim_list_def)
  next
    case (Cons i l)
    then show ?thesis
      using c k claim_list_front[OF ok k(1) Cons] by (auto simp: claim_list_def store_fields intro!: tracked_dirty)
  qed
qed

lemma tracked_zadd: "tracked s (snd (zadd_ingest cfg i v fp s))"
proof -
  have "persist_gen (put_payload k' i' n w s') = persist_gen s'" for k' i' n w s' by (simp add: put_payload_def)
  then show ?thesis by (auto simp: zadd_ingest_def Let_def store_fields intro!: tracked_dirty)
qed

lemma store_step_tracked:
  assumes "store_step s l t" "store_ok s"
  shows "tracked s t"
  using assms(1)
proof cases
  case (zadd v cfg i fp n)
  then show ?thesis using tracked_zadd[of s cfg i v fp] by (simp add: zadd_ingest_job_def)
next
  case (enqueue cfg k i d)
  then show ?thesis
    by (auto simp: enqueue_list_job_def enqueue_list_def Let_def store_fields split: if_splits intro!: tracked_dirty)
next
  case (claim_ingest band fuel cfg owner max_n ttl now jobs)
  then show ?thesis using tracked_claim_ingest[OF assms(2)] by (simp add: claim_ingest_jobs_def)
next
  case (claim_list cfg k owner ttl now j)
  then show ?thesis using tracked_claim_list[OF assms(2)] by (simp add: claim_list_job_def)
next
  case (ack k i owner)
  then show ?thesis
    by (auto simp: ack_job_def ack_def Let_def release_def split: if_splits intro!: tracked_same)
next
  case (requeue sc k i owner r)
  then show ?thesis using tracked_requeue[of s k i owner sc] by (simp add: requeue_job_def)
next
  case (extend k i ext now r)
  then show ?thesis
    by (auto simp: extend_inflight_deadline_def split: option.splits intro!: tracked_same)
next
  case (renew cfg k i owner ttl now r)
  then show ?thesis
    by (auto simp: renew_job_lease_def store_fields split: option.splits if_splits intro!: tracked_same)
next
  case (reorder k desired current r)
  then show ?thesis by (auto simp: reorder_list_def split: if_splits intro!: tracked_dirty)
next
  case (fingerprint k i fp)
  then show ?thesis by (auto simp: write_job_fingerprint_def tracked_sync)
next
  case (attempt k i n)
  then show ?thesis by (auto simp: bump_job_attempt_def tracked_sync split: option.splits)
next
  case (reap k now limit out)
  then show ?thesis using tracked_ops(1)[OF assms(2), of k now limit] by simp
next
  case (steal alive host boot n)
  then show ?thesis using tracked_ops(2)[OF assms(2), of alive host boot] by simp
next
  case (reconcile k idents owner n)
  then show ?thesis using tracked_ops(3)[OF assms(2), of k idents owner] by simp
next
  case (steal_job alive host boot k i r)
  then show ?thesis using tracked_ops(4)[OF assms(2), of alive host boot k i] by simp
qed


subsection \<open>The world invariant\<close>

definition doc_of_store :: "store_doc \<Rightarrow> bool" where
  "doc_of_store d \<longleftrightarrow> (\<exists>s. store_ok s \<and> d = snapshot_doc s)"

definition world_ok :: "store_world \<Rightarrow> bool" where
  "world_ok w \<longleftrightarrow> store_ok (wstore w) \<and> doc_of_store (disk w) \<and>
     (\<not> dirty (wstore w) \<longrightarrow> disk w = snapshot_doc (wstore w)) \<and>
     (case writing w of None \<Rightarrow> True
      | Some (doc, gen, _) \<Rightarrow> doc_of_store doc \<and> gen \<le> persist_gen (wstore w) \<and>
          (if gen = persist_gen (wstore w) then doc = snapshot_doc (wstore w) else dirty (wstore w)))"

lemma flush_begin_frame:
  assumes ok: "store_ok s" and f: "flush_begin ivl force now s = (Some x, t)"
  shows "store_ok t" "x = (snapshot_doc t, persist_gen t, now)" "snapshot_doc t = snapshot_doc s"
    "persist_gen t = persist_gen s" "dirty t = dirty s" "job_view t = job_view s"
proof -
  note D = store_okD[OF ok]
  have q: "(k, i) \<in> queued_identities s \<longleftrightarrow> identity_is_queued s k i" for k i by (rule queued_identities_iff[OF D(4)])
  have sp: "filter (\<lambda>(k, _). k \<in> queued_identities s) (shadow_payloads s) = shadow_payloads s"
    using shadow_payload_queued[OF ok] by (intro filter_True) (auto simp: q)
  define live where "live = queued_identities s \<union> inflight_identities s"
  have t: "t = s\<lparr>payloads := filter (\<lambda>(k, _). k \<in> live) (payloads s)\<rparr>"
    using f by (simp add: flush_begin_def Let_def prune_orphan_payloads_def prune_shadow_payloads_def sp live_def split: if_splits)
  show "x = (snapshot_doc t, persist_gen t, now)"
    using f by (auto simp: flush_begin_def Let_def split: if_splits)
  show "snapshot_doc t = snapshot_doc s" "persist_gen t = persist_gen s" "dirty t = dirty s"
    by (simp_all add: t snapshot_doc_def)
  show "job_view t = job_view s" by (rule view_frame) (simp_all add: t)
  have g: "dget (filter (\<lambda>(k, _). k \<in> live) ps) key = (if key \<in> live then dget ps key else None)" for ps :: "(job_key \<times> fields) list" and key
    by (induction ps) auto
  have lq: "(k, i) \<in> live" if "identity_is_queued s k i" for k i using that by (simp add: live_def q)
  show "store_ok t"
  proof (rule store_okI)
    show "payload_ok t"
      using D(6) lq by (auto simp: payload_ok_def t store_fields g distinct_map_filter)
  qed (use D in \<open>simp_all add: t ingest_ok_def heaps_ok_def counts_ok_def lists_ok_def flight_ok_def shadow_ok_def store_fields\<close>)
qed

lemma store_ok_flags:
  "store_ok (s\<lparr>last_persist := x, dirty := y\<rparr>) \<longleftrightarrow> store_ok s" "store_ok (s\<lparr>last_persist := x\<rparr>) \<longleftrightarrow> store_ok s"
  "store_ok (s\<lparr>dirty := y\<rparr>) \<longleftrightarrow> store_ok s"
  by (simp_all add: store_ok_defs store_fields)

lemma flush_end_frame:
  "store_ok (flush_commit gen now s) \<longleftrightarrow> store_ok s" "store_ok (flush_fail s) \<longleftrightarrow> store_ok s"
  "snapshot_doc (flush_commit gen now s) = snapshot_doc s" "snapshot_doc (flush_fail s) = snapshot_doc s"
  "job_view (flush_commit gen now s) = job_view s" "job_view (flush_fail s) = job_view s"
proof -
  show "job_view (flush_commit gen now s) = job_view s" "job_view (flush_fail s) = job_view s"
    by (rule view_frame; simp add: flush_commit_def flush_fail_def)+
qed (simp_all add: flush_commit_def flush_fail_def store_ok_flags snapshot_doc_def)

lemma world_step_ok:
  assumes "world_step w l v" "world_ok w"
  shows "world_ok v"
  using assms
proof cases
  case (oper t)
  have ok: "store_ok (wstore w)" using assms(2) by (simp add: world_ok_def)
  have "store_ok t" by (rule store_step_ok[OF oper(2) ok])
  moreover have "tracked (wstore w) t" by (rule store_step_tracked[OF oper(2) ok])
  ultimately show ?thesis
    using assms(2) oper(1) by (auto simp: world_ok_def tracked_def split: option.splits if_splits)
next
  case (begin_write ivl force now x t)
  have ok: "store_ok (wstore w)" using assms(2) by (simp add: world_ok_def)
  note F = flush_begin_frame[OF ok begin_write(4)]
  show ?thesis
    using assms(2) F unfolding begin_write(2) by (auto simp: world_ok_def doc_of_store_def)
next
  case (commit doc gen now)
  then show ?thesis
    using assms(2) by (auto simp: world_ok_def flush_end_frame) (auto simp: flush_commit_def split: if_splits)
next
  case (fail x)
  then show ?thesis
    using assms(2) by (auto simp: world_ok_def flush_end_frame) (auto simp: flush_fail_def)
qed

lemma snapshot_new: "snapshot_doc new_store = empty_doc"
  by (simp add: snapshot_doc_def new_store_def empty_doc_def)

lemma world_ok_new: "world_ok new_world"
  using load_snapshot_ok[OF new_store_ok] snapshot_load[OF new_store_ok] new_store_ok
  by (auto simp: world_ok_def new_world_def snapshot_new doc_of_store_def)

lemma restart_ok:
  assumes "world_ok w"
  shows "world_ok (restart w)"
proof -
  obtain s where s: "store_ok s" "disk w = snapshot_doc s" using assms by (auto simp: world_ok_def doc_of_store_def)
  show ?thesis
    using load_snapshot_ok[OF s(1)] snapshot_load[OF s(1)] s by (auto simp: world_ok_def restart_def doc_of_store_def)
qed

lemma world_reach_ok: "world_reach w \<Longrightarrow> world_ok w"
  by (induction rule: world_reach.induct) (auto intro: world_ok_new world_step_ok restart_ok)

interpretation world: leased_jobs world_ok world_step "\<lambda>w. job_view (wstore w)"
proof
  show "world_ok w \<Longrightarrow> world_step w l v \<Longrightarrow> world_ok v" for w l v by (rule world_step_ok)
  show "job_view (wstore v) k i = job_view (wstore w) k i \<or>
      (job_step (job_view (wstore w) k i) (job_view (wstore v) k i) \<and>
       (job_view (wstore v) k i = Absent \<longrightarrow>
         (\<exists>d owner sc. job_view (wstore w) k i = Leased d owner sc \<and> l = Some (k, i, owner))))"
    if "world_ok w" "world_step w l v" for w l v k i
  proof -
    have ok: "store_ok (wstore w)" using that(1) by (simp add: world_ok_def)
    show ?thesis
      using that(2)
    proof cases
      case (oper t)
      then show ?thesis using store.step_legal[OF ok oper(2), of k i] by simp
    next
      case (begin_write ivl force now x t)
      then show ?thesis using flush_begin_frame(6)[OF ok begin_write(4)] by simp
    qed (simp_all add: flush_end_frame)
  qed
qed

lemma load_view:
  assumes "store_ok s"
  shows "job_view (load_store (snapshot_doc s) new_store) k i =
    (case job_view s k i of Queued sc \<Rightarrow> Queued sc | _ \<Rightarrow> Absent)"
proof -
  define t where "t = load_store (snapshot_doc s) new_store"
  have f: "ingest t = ingest s" "lists t = lists s" "inflight t = (\<lambda>_. [])"
    using load_snapshot_fields[OF assms] by (simp_all add: t_def)
  show ?thesis
  proof (cases "dget (inflight s k) i")
    case None
    then show ?thesis unfolding t_def[symmetric] job_view_def f by (simp split: option.split)
  next
    case (Some e)
    then have "\<not> identity_is_queued s k i" by (rule leased_not_queued[OF assms])
    then have "dget (ingest s) i = None" if "k = JOB_KIND_INGEST" using that by (simp add: queued_ingest)
    moreover have "i \<notin> set (lists s k)" if "k \<noteq> JOB_KIND_INGEST"
      using that \<open>\<not> identity_is_queued s k i\<close> store_okD(4)[OF assms]
      by (auto simp: identity_is_queued_def lists_ok_def split: if_splits)
    ultimately show ?thesis unfolding t_def[symmetric] job_view_def f using Some by (cases e) simp
  qed
qed

subsection \<open>Properties of the snapshot\<close>

text \<open>
  C34. Saving and loading is a round trip: the store loaded from a snapshot of any reachable
  store has the same ingest scores, the same list queues in the same order and the same
  payloads of queued jobs, nothing in flight, exact counters and complete heaps (the store
  invariant), is clean, and would be saved as the same document.
\<close>
theorem snapshot_load_roundtrip:
  assumes "store_reach s"
  shows "let t = load_store (snapshot_doc s) new_store in
    ingest t = ingest s \<and> lists t = lists s \<and> pending t = pending s \<and> inflight t = (\<lambda>_. []) \<and> leases t = [] \<and>
    (\<forall>k i. dget (payloads t) (k, i) = (if identity_is_queued s k i then dget (payloads s) (k, i) else None)) \<and>
    store_ok t \<and> \<not> dirty t \<and> snapshot_doc t = snapshot_doc s"
proof -
  note ok = reach_ok[OF assms]
  show ?thesis
    unfolding Let_def
    using load_snapshot_fields[OF ok] load_snapshot_ok[OF ok] snapshot_load[OF ok] store_okD(6)[OF ok]
    by (simp add: payload_ok_def)
qed

theorem snapshot_load_roundtrip_witness:
  "ingest (load_store (snapshot_doc sample_leased) new_store) = ingest sample_leased \<and>
   inflight (load_store (snapshot_doc sample_leased) new_store) JOB_KIND_INGEST = []"
  using snapshot_load_roundtrip[OF sample_leased_reach] by (simp add: Let_def)

text \<open>
  C5. A clean store is durable: however the two critical sections of the snapshot writer are
  interleaved with claims, acknowledgements and additions, and across write failures and
  earlier restarts, whenever the dirty flag is down a restart brings back exactly the queued
  jobs, with their scores; leased jobs are not in the snapshot. In particular a change made
  while a snapshot was being written keeps the store dirty.
\<close>
theorem clean_store_durable:
  assumes "world_reach w" "\<not> dirty (wstore w)"
  shows "job_view (wstore (restart w)) k i = (case job_view (wstore w) k i of Queued sc \<Rightarrow> Queued sc | _ \<Rightarrow> Absent)
    \<and> lists (wstore (restart w)) k = lists (wstore w) k"
proof -
  have ok: "store_ok (wstore w)" and d: "disk w = snapshot_doc (wstore w)"
    using world_reach_ok[OF assms(1)] assms(2) by (simp_all add: world_ok_def)
  show ?thesis
    using load_view[OF ok, of k i] load_snapshot_fields(2)[OF ok] d by (simp add: restart_def)
qed

lemma sample_world:
  defines "s \<equiv> snd (zadd_ingest_job sample_cfg ''a'' (Fin 5) [] (wstore new_world))"
  defines "f \<equiv> flush_begin (Fin 60) True (Fin 9) s"
  defines "w \<equiv> \<lparr>wstore = flush_commit (persist_gen s) (Fin 9) (snd f), disk = fst (the (fst f)), writing = None\<rparr>"
  shows "world_reach w" "\<not> dirty (wstore w)" "job_view (wstore w) JOB_KIND_INGEST ''a'' = Queued (Some (Fin 5))"
proof -
  have st: "store_step (wstore new_world) None s"
    unfolding s_def by (rule store_step.zadd[where v = "Fin 5" and n = "fst (zadd_ingest_job sample_cfg ''a'' (Fin 5) [] (wstore new_world))"])
      (simp_all add: integral_def)
  have ok: "store_ok (wstore new_world)" using world_ok_new by (simp add: world_ok_def)
  have oks: "store_ok s" by (rule store_step_ok[OF st ok])
  define w1 where "w1 = new_world\<lparr>wstore := s\<rparr>"
  have w1: "world_reach w1" unfolding w1_def by (rule world_reach.step[OF world_reach.start world_step.oper[OF st]])
  have f: "f = (Some (snapshot_doc (snd f), persist_gen (snd f), Fin 9), snd f)"
    by (simp add: f_def flush_begin_def Let_def)
  note F = flush_begin_frame[OF oks f[unfolded f_def], folded f_def]
  define w2 where "w2 = w1\<lparr>wstore := snd f, writing := Some (snapshot_doc (snd f), persist_gen (snd f), Fin 9)\<rparr>"
  have "world_step w1 None w2"
    unfolding w2_def using f by (intro world_step.begin_write[where ivl = "Fin 60" and force = True and now = "Fin 9"])
      (simp_all add: w1_def new_world_def f_def)
  then have w2: "world_reach w2" by (rule world_reach.step[OF w1])
  have "world_step w2 None (w2\<lparr>wstore := flush_commit (persist_gen (snd f)) (Fin 9) (wstore w2),
      disk := snapshot_doc (snd f), writing := None\<rparr>)"
    by (rule world_step.commit) (simp add: w2_def)
  moreover have "fst (the (fst f)) = snapshot_doc (snd f)" by (subst f) simp
  ultimately have "world_step w2 None w"
    using F(4) by (simp add: w_def w2_def w1_def new_world_def)
  then show "world_reach w" by (rule world_reach.step[OF w2])
  show "\<not> dirty (wstore w)" using F(4) by (simp add: w_def flush_commit_def)
  have "job_view s JOB_KIND_INGEST ''a'' = Queued (Some (Fin 5))"
    using load_snapshot_fields(4)[OF new_store_ok]
    unfolding s_def zadd_ingest_job_def view_zadd[OF ok] by (simp add: new_world_def snapshot_new decode_ingest_band_def)
  then show "job_view (wstore w) JOB_KIND_INGEST ''a'' = Queued (Some (Fin 5))"
    using F(6) by (simp add: w_def flush_end_frame)
qed

theorem clean_store_durable_witness:
  "\<exists>w. world_reach w \<and> \<not> dirty (wstore w) \<and> job_view (wstore (restart w)) JOB_KIND_INGEST ''a'' = Queued (Some (Fin 5))"
  using clean_store_durable[OF sample_world(1,2), of JOB_KIND_INGEST "''a''"] sample_world(1,2,3) by auto

end
