(* ===== verification/Frame_Ops.thy ===== *)
theory Frame_Ops
  imports Stats_Schema "HOL-Library.Multiset" "HOL-Library.List_Lexorder" "HOL-Library.Product_Lexorder" "HOL-Library.Char_ord"
begin

text \<open>
  The operations of numpy and pandas that the counter pipeline of
  \<^verbatim>\<open>dbload/lib/sync_timedb_parsing.py\<close> calls, as one record of parameters \<open>frame_ops\<close>, and the
  part of their documented behaviour the pipeline relies on (\<open>sorting_ok\<close>, \<open>coding_ok\<close>,
  \<open>neighbours_ok\<close>, \<open>grouping_ok\<close>, \<open>single_ok\<close>): stable sorting, factorisation into codes, C-order flat indices,
  groups in order of first appearance, aggregates of a single value.
  Then the generic facts the pipeline shares: stable sorts are determined by their classes,
  a scan that gives every row the previous row of its key, groups by first appearance.
  \<open>model_ops\<close> is a concrete choice of the parameters that satisfies the laws.
\<close>

type_synonym group_key = "string list \<times> f64"

record frame_ops =
  lexsort :: "f64 list \<Rightarrow> int list \<Rightarrow> nat list"
  ravel_multi_index :: "int list list \<Rightarrow> int list \<Rightarrow> int list"
  factorize_ptrs :: "int list \<Rightarrow> nat list \<times> int list"
  factorize_sorted :: "string list \<Rightarrow> nat list \<times> string list"
  astype_category :: "string list \<Rightarrow> nat list \<times> string list"
  sort_values :: "group_key list \<Rightarrow> nat list"
  group_prev :: "string list list \<Rightarrow> nat option list"
  group_heads :: "string list list \<Rightarrow> nat list"
  group_tails :: "string list list \<Rightarrow> nat list"
  groupby :: "group_key list \<Rightarrow> (group_key \<times> nat list) list"
  sum_min_count1 :: "f64 list \<Rightarrow> f64"
  agg_sum :: "f64 list \<Rightarrow> f64"
  agg_mean :: "f64 list \<Rightarrow> f64"
  agg_max :: "f64 list \<Rightarrow> f64"
  series_sum_min_count1 :: "f64 list \<Rightarrow> f64"
  series_mean :: "f64 list \<Rightarrow> f64"
  series_max :: "f64 list \<Rightarrow> f64"
  sort_f64 :: "f64 list \<Rightarrow> f64 list"
  add_reduceat :: "f64 list \<Rightarrow> nat list \<Rightarrow> f64 list"
  np_sum :: "f64 list \<Rightarrow> f64"
  astype_uint64 :: "f64 \<Rightarrow> int"

subsection \<open>What the pipeline relies on\<close>

definition codes_of :: "'a list \<Rightarrow> nat list \<times> 'a list \<Rightarrow> bool" where
  \<comment> \<open>Codes index the distinct values, each of which occurs.\<close>
  "codes_of xs cu \<longleftrightarrow> length (fst cu) = length xs \<and> distinct (snd cu) \<and> set (snd cu) = set xs \<and>
     (\<forall>i < length xs. fst cu ! i < length (snd cu) \<and> snd cu ! (fst cu ! i) = xs ! i)"

definition flat_index :: "(int \<times> int) list \<Rightarrow> int" where
  \<comment> \<open>The C-order index of digits in a mixed radix, most significant first.\<close>
  "flat_index = foldl (\<lambda>acc (c, n). acc * n + c) 0"

definition sorting_ok :: "frame_ops \<Rightarrow> bool" where
  \<comment> \<open>\<^verbatim>\<open>np.lexsort\<close> and \<^verbatim>\<open>sort_values\<close> return the positions in stable order; \<^verbatim>\<open>ndarray.sort\<close> sorts.\<close>
  "sorting_ok ops \<longleftrightarrow>
     (\<forall>times gid. length times = length gid \<longrightarrow>
        lexsort ops times gid = sort_key (\<lambda>i. (gid ! i, times ! i)) [0..<length gid]) \<and>
     (\<forall>ks. sort_values ops ks = sort_key (\<lambda>i. ks ! i) [0..<length ks]) \<and>
     (\<forall>vs. sort_f64 ops vs = sort vs)"

definition coding_ok :: "frame_ops \<Rightarrow> bool" where
  \<comment> \<open>\<^verbatim>\<open>pd.factorize\<close> with and without sorting, \<^verbatim>\<open>np.ravel_multi_index\<close> below \<open>2 ^ 63\<close>.\<close>
  "coding_ok ops \<longleftrightarrow>
     (\<forall>ps. codes_of ps (factorize_ptrs ops ps)) \<and>
     (\<forall>xs. codes_of xs (factorize_sorted ops xs) \<and> sorted (snd (factorize_sorted ops xs))) \<and>
     (\<forall>xs. codes_of xs (astype_category ops xs) \<and> sorted (snd (astype_category ops xs))) \<and>
     (\<forall>cols sizes n. prod_list sizes < 2 ^ 63 \<longrightarrow> length cols = length sizes \<longrightarrow> cols \<noteq> [] \<longrightarrow>
        (\<forall>(c, s) \<in> set (zip cols sizes). length c = n \<and> (\<forall>x \<in> set c. 0 \<le> x \<and> x < s)) \<longrightarrow>
        ravel_multi_index ops cols sizes = map (\<lambda>i. flat_index (zip (map (\<lambda>c. c ! i) cols) sizes)) [0..<n])"

fun first_seen :: "'a list \<Rightarrow> 'a list" where
  "first_seen [] = []"
| "first_seen (x # xs) = x # filter (\<lambda>y. y \<noteq> x) (first_seen xs)"

definition prev_position :: "'k list \<Rightarrow> nat \<Rightarrow> nat option" where
  "prev_position ks i = (let js = filter (\<lambda>j. ks ! j = ks ! i) [0..<i] in if js = [] then None else Some (last js))"

definition neighbours_ok :: "frame_ops \<Rightarrow> bool" where
  \<comment> \<open>\<^verbatim>\<open>groupby(...).diff()\<close> subtracts the previous row of the group; \<^verbatim>\<open>head(1)\<close> and \<^verbatim>\<open>tail(1)\<close> are the
    first and last row of every group.\<close>
  "neighbours_ok ops \<longleftrightarrow> (\<forall>ks. group_prev ops ks = map (prev_position ks) [0..<length ks] \<and>
     group_heads ops ks = filter (\<lambda>i. ks ! i \<notin> set (take i ks)) [0..<length ks] \<and>
     group_tails ops ks = filter (\<lambda>i. ks ! i \<notin> set (drop (Suc i) ks)) [0..<length ks])"

definition grouping_ok :: "frame_ops \<Rightarrow> bool" where
  \<comment> \<open>\<^verbatim>\<open>groupby(..., sort=False)\<close>: groups by first appearance, rows in their order; keys have no NaN.\<close>
  "grouping_ok ops \<longleftrightarrow> (\<forall>ks. (\<forall>k \<in> set ks. snd k \<noteq> NaN) \<longrightarrow>
     groupby ops ks = map (\<lambda>k. (k, filter (\<lambda>i. ks ! i = k) [0..<length ks])) (first_seen ks))"

definition single_ok :: "frame_ops \<Rightarrow> bool" where
  \<comment> \<open>The aggregate of one value is the value; \<^verbatim>\<open>sum(min_count=1)\<close> is the sum unless all are NaN.\<close>
  "single_ok ops \<longleftrightarrow> (\<forall>v. sum_min_count1 ops [v] = v \<and> agg_mean ops [v] = v \<and> agg_max ops [v] = v) \<and>
     (\<forall>v. v \<noteq> NaN \<longrightarrow> agg_sum ops [v] = v) \<and>
     (\<forall>vs. sum_min_count1 ops vs = (if \<exists>v \<in> set vs. v \<noteq> NaN then agg_sum ops vs else NaN))"

definition drop_nan :: "f64 list \<Rightarrow> f64 list" where
  "drop_nan vs = filter (\<lambda>v. v \<noteq> NaN) vs"

definition whole_value :: "f64 \<Rightarrow> bool" where
  \<comment> \<open>Missing or an integer.\<close>
  "whole_value v = (case v of Fin q \<Rightarrow> q = of_int \<lfloor>q\<rfloor> | NaN \<Rightarrow> True | _ \<Rightarrow> False)"

definition whole_values :: "f64 list \<Rightarrow> bool" where
  \<comment> \<open>Every partial sum, in whatever order, is an integer a double holds exactly.\<close>
  "whole_values vs \<longleftrightarrow> list_all whole_value vs \<and> (\<Sum>v \<leftarrow> drop_nan vs. \<bar>f64_val v\<bar>) < 2 ^ 53"

definition exact_sum :: "f64 list \<Rightarrow> rat" where
  "exact_sum vs = (\<Sum>v \<leftarrow> drop_nan vs. f64_val v)"

definition nan_max :: "f64 list \<Rightarrow> f64" where
  "nan_max vs = (if drop_nan vs = [] then NaN else fold max (tl (drop_nan vs)) (hd (drop_nan vs)))"

definition sums_whole :: "(f64 list \<Rightarrow> f64) \<Rightarrow> bool" where
  "sums_whole f \<longleftrightarrow> (\<forall>vs. whole_values vs \<longrightarrow> f vs = (if drop_nan vs = [] then NaN else Fin (exact_sum vs)))"

definition means_whole :: "(f64 list \<Rightarrow> f64) \<Rightarrow> bool" where
  "means_whole f \<longleftrightarrow> (\<forall>vs. whole_values vs \<longrightarrow>
     f vs = (if drop_nan vs = [] then NaN else fdiv (Fin (exact_sum vs)) (of_int_f64 (int (length (drop_nan vs))))))"

definition series_ok :: "frame_ops \<Rightarrow> bool" where
  \<comment> \<open>The reductions of a group-by and those of a series add up in different orders: both are exact
    on integers of bounded sum, skip NaN, and their maxima agree.\<close>
  "series_ok ops \<longleftrightarrow> sums_whole (sum_min_count1 ops) \<and> sums_whole (series_sum_min_count1 ops) \<and>
     means_whole (agg_mean ops) \<and> means_whole (series_mean ops) \<and> agg_max ops = nan_max \<and> series_max ops = nan_max"

definition casting_ok :: "frame_ops \<Rightarrow> bool" where
  \<comment> \<open>\<^verbatim>\<open>astype(np.uint64)\<close> gives 64-bit values and truncates a value in range.\<close>
  "casting_ok ops \<longleftrightarrow> (\<forall>v. 0 \<le> astype_uint64 ops v \<and> astype_uint64 ops v < 2 ^ 64) \<and>
     (\<forall>q. 0 \<le> q \<longrightarrow> q < 2 ^ 64 \<longrightarrow> astype_uint64 ops (Fin q) = \<lfloor>q\<rfloor>)"

subsection \<open>Stable sorting\<close>

lemma insort_key_cong:
  "(\<And>y. y \<in> set xs \<Longrightarrow> f x \<le> f y \<longleftrightarrow> g x \<le> g y) \<Longrightarrow> insort_key f x xs = insort_key g x xs"
  by (induction xs) auto

lemma sort_key_order_iso:
  "(\<And>x y. x \<in> set xs \<Longrightarrow> y \<in> set xs \<Longrightarrow> f x \<le> f y \<longleftrightarrow> g x \<le> g y) \<Longrightarrow> sort_key f xs = sort_key g xs"
proof (induction xs)
  case (Cons x xs)
  then have "sort_key f xs = sort_key g xs" by simp
  moreover have "insort_key f x (sort_key g xs) = insort_key g x (sort_key g xs)"
    by (rule insort_key_cong) (use Cons.prems in simp)
  ultimately show ?case by simp
qed simp

lemma sort_positions: "map ((!) xs) (sort_key (\<lambda>i. f (xs ! i)) [0..<length xs]) = sort_key f xs"
  using sort_key_map[of f "(!) xs" "[0..<length xs]"] by (simp add: map_nth)

lemma sorted_fst: "sorted (map (\<lambda>x. (f x, g x)) xs) \<Longrightarrow> sorted (map f xs)"
  by (simp add: sorted_map) (rule sorted_wrt_mono_rel, auto simp: less_eq_prod_def intro: less_imp_le)

definition same_classes :: "('a \<Rightarrow> 'k) \<Rightarrow> 'a list \<Rightarrow> 'a list \<Rightarrow> bool" where
  "same_classes f xs ys \<longleftrightarrow> (\<forall>k. filter (\<lambda>x. f x = k) xs = filter (\<lambda>x. f x = k) ys)"

lemma same_classes_mset:
  assumes "same_classes f xs ys"
  shows "mset xs = mset ys"
proof (rule multiset_eqI)
  fix x
  have c: "count (mset zs) x = count (mset (filter (\<lambda>y. f y = f x) zs)) x" for zs by simp
  show "count (mset xs) x = count (mset ys) x"
    unfolding c[of xs] c[of ys] using assms by (simp only: same_classes_def)
qed

lemma same_classes_sort:
  assumes "same_classes f xs ys"
  shows "sort_key f xs = sort_key f ys"
proof (rule properties_for_sort_key)
  show "mset (sort_key f ys) = mset xs" using same_classes_mset[OF assms] by simp
  show "filter (\<lambda>x. f k = f x) (sort_key f ys) = filter (\<lambda>x. f k = f x) xs" for k
    using assms unfolding same_classes_def eq_commute[of "f k"] by (simp only: sort_key_stable)
  show "sorted (map f (sort_key f ys))" by simp
qed

lemma sorted_is_sort:
  assumes "sorted (map f zs)" "same_classes f zs xs"
  shows "zs = sort_key f xs"
  using same_classes_sort[OF assms(2)] sort_key_id_if_sorted[OF assms(1)] by simp

lemma same_classes_finer:
  assumes "same_classes f xs ys" "\<And>x y. g x = g y \<Longrightarrow> f x = f y"
  shows "same_classes g xs ys"
  unfolding same_classes_def
proof
  fix k
  show "filter (\<lambda>x. g x = k) xs = filter (\<lambda>x. g x = k) ys"
  proof (cases "\<exists>z. g z = k")
    case True
    then obtain z where z: "g z = k" by blast
    have "filter (\<lambda>x. g x = k) zs = filter (\<lambda>x. g x = k) (filter (\<lambda>x. f x = f z) zs)" for zs
      by (auto simp: filter_filter z[symmetric] intro!: filter_cong dest: assms(2))
    then show ?thesis using assms(1) by (metis same_classes_def)
  qed simp
qed

lemma same_classes_trans: "same_classes f xs ys \<Longrightarrow> same_classes f ys zs \<Longrightarrow> same_classes f xs zs"
  by (simp add: same_classes_def)

lemma same_classes_sort_key: "same_classes f (sort_key f xs) xs"
  by (simp add: same_classes_def sort_key_stable)

lemma same_classes_concat:
  "list_all2 (same_classes f) xss yss \<Longrightarrow> same_classes f (concat xss) (concat yss)"
  by (induction rule: list_all2_induct) (auto simp: same_classes_def)

lemma same_classes_parts:
  assumes "distinct cs" "cl ` set xs \<subseteq> set cs" "\<And>x y. f x = f y \<Longrightarrow> cl x = cl y"
  shows "same_classes f (concat (map (\<lambda>c. filter (\<lambda>x. cl x = c) xs) cs)) xs"
  unfolding same_classes_def
proof
  fix k
  show "filter (\<lambda>x. f x = k) (concat (map (\<lambda>c. filter (\<lambda>x. cl x = c) xs) cs)) = filter (\<lambda>x. f x = k) xs"
  proof (cases "\<exists>x \<in> set xs. f x = k")
    case True
    then obtain x where x: "x \<in> set xs" "f x = k" by blast
    have p: "filter (\<lambda>y. f y = k) (filter (\<lambda>y. cl y = c) xs) = (if c = cl x then filter (\<lambda>y. f y = k) xs else [])" for c
    proof (cases "c = cl x")
      case True
      then have "filter (\<lambda>y. f y = k) (filter (\<lambda>y. cl y = c) xs) = filter (\<lambda>y. f y = k) xs"
        using assms(3) x(2) by (intro filter_filter_imp) metis
      then show ?thesis using True by simp
    next
      case False
      moreover have "cl y = cl x" if "f y = k" for y using assms(3)[of y x] that x(2) by simp
      ultimately have "filter (\<lambda>y. f y = k) (filter (\<lambda>y. cl y = c) xs) = []" by (fastforce simp: filter_empty_conv)
      then show ?thesis using False by simp
    qed
    have "filter (\<lambda>y. f y = k) (concat (map (\<lambda>c. filter (\<lambda>y. cl y = c) xs) ds)) =
        (if cl x \<in> set ds then filter (\<lambda>y. f y = k) xs else [])" if "distinct ds" for ds
      using that by (induction ds) (auto simp: p simp del: filter_filter)
    then show ?thesis using assms(1,2) x(1) by auto
  next
    case False
    then show ?thesis by (auto simp: filter_empty_conv)
  qed
qed

lemma same_classes_filter: "same_classes f xs ys \<Longrightarrow> same_classes f (filter P xs) (filter P ys)"
  unfolding same_classes_def filter_filter conj_commute[of "P _"] by (simp only: flip: filter_filter) simp

lemma foldl_updates:
  assumes "\<And>i a. f i (f i a) = f i a"
  shows "length (foldl (\<lambda>as i. as[i := f i (as ! i)]) as is) = length as"
    and "i < length as \<Longrightarrow> foldl (\<lambda>as i. as[i := f i (as ! i)]) as is ! i = (if i \<in> set is then f i (as ! i) else as ! i)"
proof -
  have "length (foldl (\<lambda>as i. as[i := f i (as ! i)]) as is) = length as \<and> (i < length as \<longrightarrow>
      foldl (\<lambda>as i. as[i := f i (as ! i)]) as is ! i = (if i \<in> set is then f i (as ! i) else as ! i))"
  proof (induction "is" arbitrary: as)
    case (Cons j js)
    then show ?case using assms by (cases "i = j") auto
  qed simp
  then show "length (foldl (\<lambda>as i. as[i := f i (as ! i)]) as is) = length as"
    "i < length as \<Longrightarrow> foldl (\<lambda>as i. as[i := f i (as ! i)]) as is ! i = (if i \<in> set is then f i (as ! i) else as ! i)" by auto
qed

subsection \<open>The previous row of the same key\<close>

fun with_prev :: "('r \<Rightarrow> 'k) \<Rightarrow> ('r \<Rightarrow> 's) \<Rightarrow> ('k \<Rightarrow> 's option) \<Rightarrow> 'r list \<Rightarrow> ('s option \<times> 'r) list" where
  "with_prev key val st [] = []"
| "with_prev key val st (r # rs) = (st (key r), r) # with_prev key val (st(key r \<mapsto> val r)) rs"

definition last_vals :: "('r \<Rightarrow> 'k) \<Rightarrow> ('r \<Rightarrow> 's) \<Rightarrow> ('k \<Rightarrow> 's option) \<Rightarrow> 'r list \<Rightarrow> 'k \<Rightarrow> 's option" where
  "last_vals key val st rs = foldl (\<lambda>st r. st(key r \<mapsto> val r)) st rs"

lemma last_vals_simps [simp]:
  "last_vals key val st [] = st"
  "last_vals key val st (r # rs) = last_vals key val (st(key r \<mapsto> val r)) rs"
  by (simp_all add: last_vals_def)

lemma length_with_prev [simp]: "length (with_prev key val st rs) = length rs"
  by (induction rs arbitrary: st) auto

lemma map_snd_with_prev [simp]: "map snd (with_prev key val st rs) = rs"
  by (induction rs arbitrary: st) auto

lemma with_prev_append:
  "with_prev key val st (xs @ ys) = with_prev key val st xs @ with_prev key val (last_vals key val st xs) ys"
  by (induction xs arbitrary: st) auto

lemma with_prev_cong:
  "(\<And>r. r \<in> set rs \<Longrightarrow> st (key r) = st' (key r)) \<Longrightarrow> with_prev key val st rs = with_prev key val st' rs"
proof (induction rs arbitrary: st st')
  case (Cons r rs)
  have "with_prev key val (st(key r \<mapsto> val r)) rs = with_prev key val (st'(key r \<mapsto> val r)) rs"
    by (rule Cons.IH) (use Cons.prems in simp)
  then show ?case using Cons.prems by simp
qed simp

lemma last_vals_key:
  "last_vals key val st rs k = (if k \<in> key ` set rs then Some (val (last (filter (\<lambda>r. key r = k) rs))) else st k)"
proof (induction rs arbitrary: st)
  case (Cons r rs)
  have "(\<exists>x\<in>set rs. key x = k) \<longleftrightarrow> filter (\<lambda>r. key r = k) rs \<noteq> []" by (auto simp: filter_empty_conv)
  then show ?case by (auto simp: Cons.IH image_iff)
qed simp

lemma filter_with_prev:
  "filter (\<lambda>p. key (snd p) = k) (with_prev key val st rs) = with_prev key val st (filter (\<lambda>r. key r = k) rs)"
proof (induction rs arbitrary: st)
  case (Cons r rs)
  have "key r \<noteq> k \<Longrightarrow> with_prev key val (st(key r \<mapsto> val r)) (filter (\<lambda>r. key r = k) rs)
      = with_prev key val st (filter (\<lambda>r. key r = k) rs)"
    by (rule with_prev_cong) auto
  then show ?case using Cons.IH[of "st(key r \<mapsto> val r)"] by (cases "key r = k") (simp_all del: fun_upd_apply)
qed simp

lemma with_prev_nth:
  assumes "sorted (map key rs)" "i < length rs"
  shows "with_prev key val st rs ! i =
    ((if i = 0 \<or> key (rs ! i) \<noteq> key (rs ! (i - 1)) then st (key (rs ! i)) else Some (val (rs ! (i - 1)))), rs ! i)"
  using assms
proof (induction rs arbitrary: st i)
  case (Cons r rs)
  show ?case
  proof (cases i)
    case (Suc j)
    have j: "j < length rs" using Cons.prems(2) Suc by simp
    have s: "sorted (map key rs)" using Cons.prems(1) by simp
    have "key r \<le> key (rs ! j)" using Cons.prems(1) j by simp
    moreover have "key (rs ! (j - 1)) \<le> key (rs ! j)" if "0 < j"
      using sorted_nth_mono[OF s, of "j - 1" j] j by simp
    moreover have "key r \<le> key (rs ! (j - 1))" using Cons.prems(1) j by (simp add: less_imp_diff_less)
    ultimately have "key r \<noteq> key (rs ! j)" if "0 < j" "key (rs ! j) \<noteq> key (rs ! (j - 1))" using that by auto
    moreover define st' where "st' = st(key r \<mapsto> val r)"
    then have "st' (key (rs ! j)) = (if key (rs ! j) = key r then Some (val r) else st (key (rs ! j)))" by simp
    ultimately show ?thesis
      using Cons.IH[OF s j, where st = st'] Suc by (cases "j = 0") (auto simp flip: st'_def)
  qed simp
qed simp

text \<open>In a sorted list the previous row of a key is the neighbour.\<close>

lemma sorted_neighbour:
  assumes "sorted ks" "i < length ks" "j < i" "ks ! j = ks ! i" "j \<le> m" "m \<le> i"
  shows "ks ! m = ks ! i"
  using sorted_nth_mono[OF assms(1), of j m] sorted_nth_mono[OF assms(1), of m i] assms by simp

lemma prev_position_sorted:
  assumes "sorted ks" "i < length ks"
  shows "prev_position ks i = (if 0 < i \<and> ks ! i = ks ! (i - 1) then Some (i - 1) else None)"
proof (cases "0 < i \<and> ks ! i = ks ! (i - 1)")
  case True
  then have "filter (\<lambda>j. ks ! j = ks ! i) [0..<i] = filter (\<lambda>j. ks ! j = ks ! i) [0..<i - 1] @ [i - 1]"
    by (cases i) auto
  then show ?thesis using True by (simp add: prev_position_def)
next
  case False
  then have "filter (\<lambda>j. ks ! j = ks ! i) [0..<i] = []"
    using sorted_neighbour[OF assms, of _ "i - 1"] by (fastforce simp: filter_empty_conv)
  then show ?thesis using False by (auto simp: prev_position_def)
qed

lemma head_sorted:
  assumes "sorted ks" "i < length ks"
  shows "ks ! i \<notin> set (take i ks) \<longleftrightarrow> i = 0 \<or> ks ! i \<noteq> ks ! (i - 1)"
proof
  assume "ks ! i \<notin> set (take i ks)"
  then show "i = 0 \<or> ks ! i \<noteq> ks ! (i - 1)"
    using assms(2) by (cases i) (auto simp: in_set_conv_nth)
next
  assume "i = 0 \<or> ks ! i \<noteq> ks ! (i - 1)"
  then show "ks ! i \<notin> set (take i ks)"
    using sorted_neighbour[OF assms, of _ "i - 1"] assms(2) by (fastforce simp: in_set_conv_nth)
qed

lemma tail_sorted:
  assumes "sorted ks" "i < length ks"
  shows "ks ! i \<notin> set (drop (Suc i) ks) \<longleftrightarrow> Suc i = length ks \<or> ks ! i \<noteq> ks ! Suc i"
proof -
  have "ks ! i = ks ! Suc i" if "j < length ks - Suc i" "ks ! (Suc i + j) = ks ! i" for j
    using sorted_nth_mono[OF assms(1), of i "Suc i"] sorted_nth_mono[OF assms(1), of "Suc i" "Suc i + j"] that
    by (simp add: less_diff_conv)
  then show ?thesis using assms(2) by (fastforce simp: in_set_conv_nth intro: exI[of _ 0])
qed

lemma heads_filter:
  assumes "sorted ks"
  shows "filter (\<lambda>i. ks ! i \<notin> set (take i ks)) [0..<length ks] = filter (\<lambda>i. i = 0 \<or> ks ! i \<noteq> ks ! (i - 1)) [0..<length ks]"
  by (rule filter_cong[OF refl], subst head_sorted[OF assms]) auto

lemma tails_filter:
  assumes "sorted ks"
  shows "filter (\<lambda>i. ks ! i \<notin> set (drop (Suc i) ks)) [0..<length ks] =
    filter (\<lambda>i. Suc i = length ks \<or> ks ! i \<noteq> ks ! Suc i) [0..<length ks]"
  by (rule filter_cong[OF refl], subst tail_sorted[OF assms]) auto

subsection \<open>Groups by first appearance\<close>

lemma set_first_seen [simp]: "set (first_seen xs) = set xs"
  by (induction xs) auto

lemma distinct_first_seen [simp]: "distinct (first_seen xs)"
  by (induction xs) auto

lemma first_seen_filter: "first_seen (filter P xs) = filter P (first_seen xs)"
  by (induction xs) (auto simp: filter_filter conj_commute intro: filter_cong)

lemma first_seen_distinct: "distinct xs \<Longrightarrow> first_seen xs = xs"
  by (induction xs) (auto simp: filter_id_conv)

definition groups :: "('r \<Rightarrow> 'k) \<Rightarrow> 'r list \<Rightarrow> ('k \<times> 'r list) list" where
  "groups key rs = map (\<lambda>k. (k, filter (\<lambda>r. key r = k) rs)) (first_seen (map key rs))"

lemma groups_filter:
  "groups key (filter (\<lambda>r. P (key r)) rs) = filter (\<lambda>kg. P (fst kg)) (groups key rs)"
proof -
  have "first_seen (map key (filter (\<lambda>r. P (key r)) rs)) = filter P (first_seen (map key rs))"
    by (simp flip: first_seen_filter add: filter_map o_def)
  then show ?thesis
    by (auto simp: groups_def filter_map o_def intro!: map_cong filter_cong)
qed

lemma groups_distinct:
  assumes "distinct (map key rs)"
  shows "groups key rs = map (\<lambda>r. (key r, [r])) rs"
proof -
  have "filter (\<lambda>x. key x = key r) rs = [r]" if "r \<in> set rs" for r
    using assms that by (induction rs) (auto simp: filter_empty_conv image_iff)
  then show ?thesis using first_seen_distinct[OF assms] by (simp add: groups_def)
qed

lemma groups_map:
  "(\<And>r. key (h r) = key r) \<Longrightarrow> groups key (map h rs) = map (\<lambda>(k, g). (k, map h g)) (groups key rs)"
  by (simp add: groups_def filter_map o_def)

lemma groups_nonempty: "(k, g) \<in> set (groups key rs) \<Longrightarrow> g \<noteq> [] \<and> set g \<subseteq> set rs \<and> (\<forall>r \<in> set g. key r = k)"
  by (auto simp: groups_def filter_empty_conv)

definition group_rows_by :: "frame_ops \<Rightarrow> ('r \<Rightarrow> group_key) \<Rightarrow> 'r list \<Rightarrow> (group_key \<times> 'r list) list" where
  \<comment> \<open>\<^verbatim>\<open>df.groupby(cols, observed=True, sort=False)\<close>: every key with its rows.\<close>
  "group_rows_by ops key rs = map (\<lambda>(k, ps). (k, map ((!) rs) ps)) (groupby ops (map key rs))"

lemma group_rows_by_groups:
  assumes "grouping_ok ops" "\<forall>r \<in> set rs. snd (key r) \<noteq> NaN"
  shows "group_rows_by ops key rs = groups key rs"
proof -
  have "map ((!) rs) (filter (\<lambda>i. map key rs ! i = k) [0..<length rs]) = filter (\<lambda>r. key r = k) rs" for k
  proof -
    have "filter (\<lambda>i. map key rs ! i = k) [0..<length rs] = filter ((\<lambda>r. key r = k) \<circ> (!) rs) [0..<length rs]"
      by (rule filter_cong) auto
    then show ?thesis by (simp only: filter_map[symmetric] map_nth)
  qed
  moreover have "groupby ops (map key rs) =
      map (\<lambda>k. (k, filter (\<lambda>i. map key rs ! i = k) [0..<length rs])) (first_seen (map key rs))"
    using assms by (simp add: grouping_ok_def)
  ultimately show ?thesis by (simp add: group_rows_by_def groups_def)
qed

subsection \<open>A concrete choice of the operations\<close>

definition position_of :: "'a \<Rightarrow> 'a list \<Rightarrow> nat" where
  "position_of x xs = length (takeWhile (\<lambda>y. y \<noteq> x) xs)"

definition sum_f64 :: "f64 list \<Rightarrow> f64" where
  "sum_f64 vs = (case vs of [] \<Rightarrow> Fin 0 | v # vs' \<Rightarrow> foldl fadd v vs')"

definition model_ops :: frame_ops where
  "model_ops = \<lparr>lexsort = (\<lambda>times gid. sort_key (\<lambda>i. (gid ! i, times ! i)) [0..<length gid]),
     ravel_multi_index = (\<lambda>cols sizes. map (\<lambda>i. flat_index (zip (map (\<lambda>c. c ! i) cols) sizes))
        [0..<(case cols of [] \<Rightarrow> 0 | c # _ \<Rightarrow> length c)]),
     factorize_ptrs = (\<lambda>ps. (map (\<lambda>p. position_of p (first_seen ps)) ps, first_seen ps)),
     factorize_sorted = (\<lambda>xs. let u = sort (remdups xs) in (map (\<lambda>x. position_of x u) xs, u)),
     astype_category = (\<lambda>xs. let u = sort (remdups xs) in (map (\<lambda>x. position_of x u) xs, u)),
     sort_values = (\<lambda>ks. sort_key (\<lambda>i. ks ! i) [0..<length ks]),
     group_prev = (\<lambda>ks. map (prev_position ks) [0..<length ks]),
     group_heads = (\<lambda>ks. filter (\<lambda>i. ks ! i \<notin> set (take i ks)) [0..<length ks]),
     group_tails = (\<lambda>ks. filter (\<lambda>i. ks ! i \<notin> set (drop (Suc i) ks)) [0..<length ks]),
     groupby = (\<lambda>ks. map (\<lambda>k. (k, filter (\<lambda>i. ks ! i = k) [0..<length ks])) (first_seen ks)),
     sum_min_count1 = (\<lambda>vs. if drop_nan vs = [] then NaN else sum_f64 (drop_nan vs)),
     agg_sum = (\<lambda>vs. sum_f64 (drop_nan vs)),
     agg_mean = (\<lambda>vs. if drop_nan vs = [] then NaN else if length (drop_nan vs) = 1 then hd (drop_nan vs)
        else fdiv (sum_f64 (drop_nan vs)) (of_int_f64 (int (length (drop_nan vs))))),
     agg_max = nan_max,
     series_sum_min_count1 = (\<lambda>vs. if drop_nan vs = [] then NaN else sum_f64 (rev (drop_nan vs))),
     series_mean = (\<lambda>vs. if drop_nan vs = [] then NaN
        else fdiv (sum_f64 (rev (drop_nan vs))) (of_int_f64 (int (length (drop_nan vs))))),
     series_max = nan_max,
     sort_f64 = sort,
     add_reduceat = (\<lambda>v starts. map (\<lambda>(a, b). sum_f64 (take (b - a) (drop a v))) (zip starts (tl starts @ [length v]))),
     np_sum = sum_f64,
     astype_uint64 = (\<lambda>v. case v of Fin q \<Rightarrow> \<lfloor>q\<rfloor> mod 2 ^ 64 | _ \<Rightarrow> 0)\<rparr>"

lemma position_of_nth: "x \<in> set xs \<Longrightarrow> position_of x xs < length xs \<and> xs ! position_of x xs = x"
  by (induction xs) (auto simp: position_of_def)

lemma model_ops_ok:
  "sorting_ok model_ops" "coding_ok model_ops" "neighbours_ok model_ops" "grouping_ok model_ops" "single_ok model_ops"
  "casting_ok model_ops"
proof -
  show "casting_ok model_ops"
    by (auto simp: casting_ok_def model_ops_def floor_less_iff intro!: mod_pos_pos_trivial split: f64.split)
  show "neighbours_ok model_ops" by (simp add: neighbours_ok_def model_ops_def)
  show "sorting_ok model_ops" by (simp add: sorting_ok_def model_ops_def)
  show "grouping_ok model_ops" by (simp add: grouping_ok_def model_ops_def)
  show "single_ok model_ops" by (auto simp: single_ok_def model_ops_def drop_nan_def nan_max_def sum_f64_def filter_empty_conv)
  have p: "codes_of ps (map (\<lambda>p. position_of p (first_seen ps)) ps, first_seen ps)" for ps :: "int list"
    using position_of_nth[of _ "first_seen ps"] by (simp add: codes_of_def)
  have x: "codes_of xs (map (\<lambda>p. position_of p (sort (remdups xs))) xs, sort (remdups xs))" for xs :: "string list"
    using position_of_nth[of _ "sort (remdups xs)"] by (simp add: codes_of_def)
  show "coding_ok model_ops"
    using p x by (auto simp: coding_ok_def model_ops_def Let_def Suc_length_conv split: list.splits)
qed

lemma foldl_fadd_whole:
  "\<bar>of_int a :: rat\<bar> + (\<Sum>v \<leftarrow> vs. \<bar>f64_val v\<bar>) < 2 ^ 53 \<Longrightarrow> \<forall>v \<in> set vs. \<exists>n. v = Fin (of_int n) \<Longrightarrow>
   foldl fadd (Fin (of_int a)) vs = Fin (of_int a + (\<Sum>v \<leftarrow> vs. f64_val v))"
proof (induction vs arbitrary: a)
  case (Cons v vs)
  then obtain n where n: "v = Fin (of_int n)" by auto
  have nonneg: "0 \<le> (\<Sum>v \<leftarrow> vs. \<bar>f64_val v\<bar>)" by (intro sum_list_nonneg) auto
  have b: "\<bar>of_int (a + n) :: rat\<bar> + (\<Sum>v \<leftarrow> vs. \<bar>f64_val v\<bar>) < 2 ^ 53" using Cons.prems(1) n by simp
  then have "\<bar>of_int (a + n) :: rat\<bar> < of_int (2 ^ 53)" using nonneg by simp
  then have "\<bar>a + n\<bar> < 2 ^ 53" by (simp only: of_int_abs[symmetric] of_int_less_iff)
  then show ?case using Cons.IH[OF b] Cons.prems(2) n fadd_int[of a n] by simp
qed simp

lemma sum_f64_whole:
  assumes "(\<Sum>v \<leftarrow> vs. \<bar>f64_val v\<bar>) < 2 ^ 53" "\<forall>v \<in> set vs. \<exists>n. v = Fin (of_int n)"
  shows "sum_f64 vs = Fin (\<Sum>v \<leftarrow> vs. f64_val v)"
  using assms foldl_fadd_whole[of _ "tl vs"] by (cases vs) (auto simp: sum_f64_def)

lemma whole_value_int: "whole_value v \<Longrightarrow> v \<noteq> NaN \<Longrightarrow> \<exists>n. v = Fin (of_int n)"
  by (cases v) (auto simp: whole_value_def)

lemma whole_valuesD:
  assumes "whole_values vs"
  shows "(\<Sum>v \<leftarrow> drop_nan vs. \<bar>f64_val v\<bar>) < 2 ^ 53" "\<forall>v \<in> set (drop_nan vs). \<exists>n. v = Fin (of_int n)"
  using assms whole_value_int by (auto simp: whole_values_def drop_nan_def list_all_iff)

lemma model_sum_exact:
  assumes "whole_values vs"
  shows "sum_f64 (drop_nan vs) = Fin (exact_sum vs)" "sum_f64 (rev (drop_nan vs)) = Fin (exact_sum vs)"
  using sum_f64_whole[of "drop_nan vs"] sum_f64_whole[of "rev (drop_nan vs)"] whole_valuesD[OF assms]
  by (simp_all add: exact_sum_def rev_map[symmetric])

lemma fdiv_one: "\<bar>n\<bar> < 2 ^ 53 \<Longrightarrow> fdiv (Fin (of_int n)) (of_int_f64 1) = Fin (of_int n)"
  using round_f64_int[of n] of_int_f64_exact[of 1] by simp

lemma model_mean_single:
  assumes "whole_values vs" "length (drop_nan vs) = 1"
  shows "hd (drop_nan vs) = fdiv (Fin (exact_sum vs)) (of_int_f64 1)"
proof -
  obtain v where v: "drop_nan vs = [v]" using assms(2) by (auto simp: length_Suc_conv)
  then obtain n where n: "v = Fin (of_int n)" using whole_valuesD(2)[OF assms(1)] by auto
  then have "\<bar>of_int n :: rat\<bar> < of_int (2 ^ 53)" using whole_valuesD(1)[OF assms(1)] v by simp
  then have "\<bar>n\<bar> < 2 ^ 53" by (simp only: of_int_abs[symmetric] of_int_less_iff)
  then show ?thesis using fdiv_one[of n] v n by (simp add: exact_sum_def)
qed

lemma model_series_ok: "series_ok model_ops"
  using model_sum_exact model_mean_single
  by (auto simp: series_ok_def sums_whole_def means_whole_def model_ops_def)

end
