(* ===== verification/Counter_Deltas.thy ===== *)
theory Counter_Deltas
  imports Frame_Ops
begin

text \<open>
  Counter deltas of \<^verbatim>\<open>dbload/lib/sync_timedb_parsing.py\<close>: rows are sorted by counter and time
  through integer codes (pointer identity first, then values, then one flat group id), every
  row gets the difference to the previous row of its counter, the first row of a counter the
  difference to the value carried from the previous chunk, a negative difference is taken as
  one wrap-around of the counter's width, and the result is scaled by the multiplier.
  \<open>apply_counter_deltas\<close> follows the code on positions; \<open>apply_counter_deltas_eq\<close> shows that it
  is a stable sort followed by the scan \<open>with_prev\<close>; from this follow the value of a delta on
  counters of a given width and that chunks with a carry compute what one frame computes.
  Frames are those of the parser: the ten columns of \<open>stats_row\<close>, no missing values.
\<close>

subsection \<open>State\<close>

type_synonym counter_key = "string list"

record delta_carry =
  raw :: "(counter_key \<times> (f64 \<times> int \<times> f64 \<times> f64)) list"
  arc :: "(counter_key \<times> f64) list"

definition new_carry :: delta_carry where
  "new_carry = \<lparr>raw = [], arc = []\<rparr>"

record delta_row =
  d_time :: f64
  d_host :: string
  d_jid :: string
  d_type :: string
  d_dev :: string
  d_event :: string
  d_value :: f64
  d_unit :: string
  d_delta :: f64

definition counter_cols :: "stats_row \<Rightarrow> counter_key" where
  \<comment> \<open>\<^verbatim>\<open>_COUNTER_GROUP_COLS\<close>\<close>
  "counter_cols r = [r_host r, r_type r, r_dev r, r_event r]"

definition delta_cols :: "delta_row \<Rightarrow> counter_key" where
  \<comment> \<open>\<^verbatim>\<open>_ARC_GROUP_COLS\<close>\<close>
  "delta_cols d = [d_host d, d_type d, d_dev d, d_event d]"

subsection \<open>Codes of the group columns\<close>

datatype column = Categorical "nat list" "string list" | ObjArray "int list" "string list" | OtherArray "string list"

definition first_positions :: "nat list \<Rightarrow> nat \<Rightarrow> nat \<Rightarrow> nat list" where
  \<comment> \<open>\<^verbatim>\<open>np.minimum.at(first, codes, arange)\<close> over \<^verbatim>\<open>first = full(m, n)\<close>\<close>
  "first_positions codes m n = foldl (\<lambda>first i. first[codes ! i := min (first ! (codes ! i)) i]) (replicate m n) [0..<n]"

definition column_codes :: "frame_ops \<Rightarrow> column \<Rightarrow> int list" where
  "column_codes ops col = (case col of
     Categorical codes cats \<Rightarrow> map int codes
   | OtherArray arr \<Rightarrow> map int (fst (astype_category ops arr))
   | ObjArray ptrs arr \<Rightarrow>
       (if arr = [] then map int (fst (astype_category ops arr))
        else let (ptr_codes, uniq_ptrs) = factorize_ptrs ops ptrs;
                 first = first_positions ptr_codes (length uniq_ptrs) (length arr);
                 val_codes = fst (factorize_sorted ops (map ((!) arr) first))
             in map (\<lambda>p. int (val_codes ! p)) ptr_codes))"

definition sizes_fit :: "int list \<Rightarrow> bool" where
  \<comment> \<open>\<^verbatim>\<open>int(np.prod(sizes, dtype=np.float64)) <= 2**63 - 1\<close>; four sizes do not overflow a float.\<close>
  "sizes_fit sizes = (case trunc_f64 (foldl (\<lambda>p s. fmul p (of_int_f64 s)) (Fin 1) sizes) of
     Inr k \<Rightarrow> k \<le> 2 ^ 63 - 1 | Inl _ \<Rightarrow> False)"

definition code_sizes :: "int list list \<Rightarrow> int list" where
  "code_sizes code_cols = map (\<lambda>c. fold max c 0 + 1) code_cols"

subsection \<open>Sorting and neighbours\<close>

definition sorted_frame :: "frame_ops \<Rightarrow> column list \<Rightarrow> stats_row list \<Rightarrow> stats_row list \<times> nat option list \<times> nat list \<times> nat list" where
  \<comment> \<open>The sorted rows, for every row the row it is subtracted from, and the first and last row of
    every counter.\<close>
  "sorted_frame ops cols rows =
     (let code_cols = map (column_codes ops) cols; sizes = code_sizes code_cols; times = map r_time rows in
      if sizes_fit sizes then
        (let gid0 = ravel_multi_index ops code_cols sizes; order = lexsort ops times gid0;
             rs = map ((!) rows) order; gid = map ((!) gid0) order; n = length gid
         in (rs, map (\<lambda>i. if 0 < i \<and> gid ! i = gid ! (i - 1) then Some (i - 1) else None) [0..<n],
             filter (\<lambda>i. i = 0 \<or> gid ! i \<noteq> gid ! (i - 1)) [0..<n],
             filter (\<lambda>i. Suc i = n \<or> gid ! i \<noteq> gid ! Suc i) [0..<n]))
      else
        (let order = sort_values ops (map (\<lambda>r. (counter_cols r, r_time r)) rows);
             rs = map ((!) rows) order; ks = map counter_cols rs
         in (rs, group_prev ops ks, group_heads ops ks, group_tails ops ks)))"

subsection \<open>Deltas\<close>

definition pow2_f64 :: "int \<Rightarrow> f64" where
  \<comment> \<open>\<^verbatim>\<open>2.0 ** wid\<close>\<close>
  "pow2_f64 wid = round_f64 (pow2 wid)"

definition wrap_delta :: "int \<Rightarrow> f64 \<Rightarrow> f64" where
  "wrap_delta wid d = (if flt d (Fin 0) \<and> isfinite d then fadd (pow2_f64 wid) d else d)"

definition carry_deltas :: "(counter_key \<times> (f64 \<times> int \<times> f64 \<times> f64)) list \<Rightarrow> stats_row list \<Rightarrow> nat list \<Rightarrow> f64 list \<Rightarrow> f64 list" where
  \<comment> \<open>The first row of a counter continues from a finite carried value.\<close>
  "carry_deltas rawd rs heads ds = foldl (\<lambda>ds i.
     (case dget rawd (counter_cols (rs ! i)) of
        None \<Rightarrow> ds
      | Some (prev, _) \<Rightarrow> if isfinite prev then ds[i := fsub (r_value (rs ! i)) prev] else ds)) ds heads"

definition with_delta :: "stats_row \<Rightarrow> f64 \<Rightarrow> delta_row" where
  "with_delta r d = \<lparr>d_time = r_time r, d_host = r_host r, d_jid = r_jid r, d_type = r_type r, d_dev = r_dev r,
     d_event = r_event r, d_value = r_value r, d_unit = r_unit r, d_delta = d\<rparr>"

definition carry_raw :: "stats_row list \<Rightarrow> nat list \<Rightarrow> (counter_key \<times> (f64 \<times> int \<times> f64 \<times> f64)) list \<Rightarrow> (counter_key \<times> (f64 \<times> int \<times> f64 \<times> f64)) list" where
  "carry_raw rs tails rawd = foldl (\<lambda>d i. let r = rs ! i in
     dset (counter_cols r) (r_value r, r_wid r, r_mult r, r_time r) d) rawd tails"

definition apply_counter_deltas :: "frame_ops \<Rightarrow> column list \<Rightarrow> stats_row list \<Rightarrow> delta_carry option \<Rightarrow> delta_row list \<times> delta_carry option" where
  "apply_counter_deltas ops cols rows carry =
     (let (rs, prevs, heads, tails) = sorted_frame ops cols rows;
          vals = map r_value rs;
          ds0 = map (\<lambda>i. case prevs ! i of None \<Rightarrow> NaN | Some j \<Rightarrow> fsub (vals ! i) (vals ! j)) [0..<length rs];
          ds1 = (case carry of None \<Rightarrow> ds0 | Some c \<Rightarrow> if raw c = [] then ds0 else carry_deltas (raw c) rs heads ds0);
          ds = map2 (\<lambda>r d. fmul (wrap_delta (r_wid r) d) (r_mult r)) rs ds1
      in (map2 with_delta rs ds, map_option (\<lambda>c. c\<lparr>raw := carry_raw rs tails (raw c)\<rparr>) carry))"

subsection \<open>Codes order like values\<close>

lemma codes_order:
  assumes "codes_of xs (cs, us)" "sorted us" "i < length xs" "j < length xs"
  shows "cs ! i \<le> cs ! j \<longleftrightarrow> xs ! i \<le> xs ! j" and "cs ! i = cs ! j \<longleftrightarrow> xs ! i = xs ! j"
proof -
  have c: "cs ! i < length us" "us ! (cs ! i) = xs ! i" "cs ! j < length us" "us ! (cs ! j) = xs ! j" "distinct us"
    using assms by (auto simp: codes_of_def)
  show e: "cs ! i = cs ! j \<longleftrightarrow> xs ! i = xs ! j" using c by (metis nth_eq_iff_index_eq)
  show "cs ! i \<le> cs ! j \<longleftrightarrow> xs ! i \<le> xs ! j"
    using c e sorted_nth_mono[OF assms(2), of "cs ! i" "cs ! j"] sorted_nth_mono[OF assms(2), of "cs ! j" "cs ! i"]
    by (metis dual_order.antisym nle_le)
qed

lemma first_positions_fold:
  fixes F
  defines "F \<equiv> \<lambda>codes m n k. foldl (\<lambda>first i. first[codes ! i := min (first ! (codes ! i)) i]) (replicate m n) [0..<k]"
  assumes "\<forall>i < n. codes ! i < m" "k \<le> n"
  shows "length (F codes m n k) = m \<and>
    (\<forall>u < m. (F codes m n k ! u = n \<and> (\<forall>i < k. codes ! i \<noteq> u)) \<or> (F codes m n k ! u < k \<and> codes ! (F codes m n k ! u) = u))"
  using assms(3)
proof (induction k)
  case 0
  show ?case by (simp add: F_def)
next
  case (Suc k)
  let ?F = "F codes m n k"
  have l: "length ?F = m" and c: "codes ! k < m" and k: "k < n" using Suc assms(2) by auto
  have step: "F codes m n (Suc k) = ?F[codes ! k := min (?F ! (codes ! k)) k]" by (simp add: F_def)
  have IH: "(?F ! u = n \<and> (\<forall>i < k. codes ! i \<noteq> u)) \<or> (?F ! u < k \<and> codes ! (?F ! u) = u)" if "u < m" for u
    using Suc that by simp
  have "(F codes m n (Suc k) ! u = n \<and> (\<forall>i < Suc k. codes ! i \<noteq> u)) \<or>
      (F codes m n (Suc k) ! u < Suc k \<and> codes ! (F codes m n (Suc k) ! u) = u)" if u: "u < m" for u
  proof (cases "codes ! k = u")
    case True
    then have "F codes m n (Suc k) ! u = min (?F ! u) k" using step l u by simp
    then show ?thesis using IH[OF u] True k by (auto simp: min_def)
  next
    case False
    then have "F codes m n (Suc k) ! u = ?F ! u" using step by simp
    then show ?thesis using IH[OF u] False by (auto simp: less_Suc_eq)
  qed
  then show ?case using step l by simp
qed

lemma length_first_positions: "\<forall>i < n. codes ! i < m \<Longrightarrow> length (first_positions codes m n) = m"
  using first_positions_fold[of n codes m n] by (simp add: first_positions_def)

lemma first_position_hit:
  assumes "\<forall>i < n. codes ! i < m" "i < n"
  shows "first_positions codes m n ! (codes ! i) < n \<and> codes ! (first_positions codes m n ! (codes ! i)) = codes ! i"
  using first_positions_fold[OF assms(1) order_refl] assms by (auto simp: first_positions_def)

definition column_ok :: "column \<Rightarrow> string list \<Rightarrow> bool" where
  \<comment> \<open>The column holds the given values; equal object addresses hold equal values, and an existing
    categorical column has sorted categories.\<close>
  "column_ok col xs = (case col of
     Categorical codes cats \<Rightarrow> codes_of xs (codes, cats) \<and> sorted cats
   | OtherArray arr \<Rightarrow> arr = xs
   | ObjArray ptrs arr \<Rightarrow> arr = xs \<and> length ptrs = length arr \<and>
       (\<forall>i < length arr. \<forall>j < length arr. ptrs ! i = ptrs ! j \<longrightarrow> arr ! i = arr ! j))"

definition order_codes :: "int list \<Rightarrow> string list \<Rightarrow> bool" where
  "order_codes cs xs \<longleftrightarrow> length cs = length xs \<and> (\<forall>c \<in> set cs. 0 \<le> c) \<and>
     (\<forall>i < length xs. \<forall>j < length xs. (cs ! i \<le> cs ! j \<longleftrightarrow> xs ! i \<le> xs ! j))"

lemma order_codes_cmp:
  assumes "order_codes cs xs" "i < length xs" "j < length xs"
  shows "(cs ! i \<le> cs ! j) = (xs ! i \<le> xs ! j) \<and> (cs ! i = cs ! j) = (xs ! i = xs ! j) \<and> (cs ! i < cs ! j) = (xs ! i < xs ! j)"
proof -
  have "(cs ! i \<le> cs ! j) = (xs ! i \<le> xs ! j)" "(cs ! j \<le> cs ! i) = (xs ! j \<le> xs ! i)"
    using assms by (auto simp: order_codes_def)
  then show ?thesis by (metis linorder_not_less order_antisym order_refl)
qed

lemma order_codes_intro:
  assumes "codes_of xs (cs, us)" "sorted us"
  shows "order_codes (map int cs) xs"
  using codes_order(1)[OF assms] assms(1) by (auto simp: order_codes_def codes_of_def)

lemma pointer_codes:
  assumes "coding_ok ops" "column_ok (ObjArray ptrs arr) xs" "arr \<noteq> []"
  shows "order_codes (column_codes ops (ObjArray ptrs arr)) xs"
proof -
  obtain pc up where p: "factorize_ptrs ops ptrs = (pc, up)" by force
  let ?f = "first_positions pc (length up) (length arr)"
  obtain vc us where v: "factorize_sorted ops (map ((!) arr) ?f) = (vc, us)" by force
  have x: "xs = arr" "length ptrs = length arr"
    "\<And>i j. i < length arr \<Longrightarrow> j < length arr \<Longrightarrow> ptrs ! i = ptrs ! j \<Longrightarrow> arr ! i = arr ! j"
    using assms(2) by (auto simp: column_ok_def)
  have cp: "codes_of ptrs (pc, up)" using assms(1) p by (metis coding_ok_def)
  have cv: "codes_of (map ((!) arr) ?f) (vc, us)" "sorted us"
    using assms(1) v unfolding coding_ok_def by (metis, metis snd_conv)
  have lp: "length pc = length arr" "\<forall>i < length arr. pc ! i < length up" using cp x(2) by (auto simp: codes_of_def)
  have lf: "length ?f = length up" by (rule length_first_positions[OF lp(2)])
  have a: "arr ! (?f ! (pc ! i)) = arr ! i" if i: "i < length arr" for i
  proof (rule x(3)[OF _ i])
    have h: "?f ! (pc ! i) < length arr" "pc ! (?f ! (pc ! i)) = pc ! i"
      using first_position_hit[OF lp(2) i] by auto
    then show "?f ! (pc ! i) < length arr" by blast
    show "ptrs ! (?f ! (pc ! i)) = ptrs ! i" using cp h i x(2) unfolding codes_of_def by (metis fst_conv snd_conv)
  qed
  have "(vc ! (pc ! i) \<le> vc ! (pc ! j)) = (arr ! i \<le> arr ! j)" if "i < length arr" "j < length arr" for i j
    using codes_order(1)[OF cv, of "pc ! i" "pc ! j"] that lp(2) lf a by simp
  then show ?thesis
    using assms(3) p v x(1) lp(1) by (auto simp: order_codes_def column_codes_def Let_def)
qed

lemma column_codes_order:
  assumes "coding_ok ops" "column_ok col xs"
  shows "order_codes (column_codes ops col) xs"
proof -
  have cat: "order_codes (map int (fst (astype_category ops ys))) ys" for ys
    using assms(1) order_codes_intro[of ys "fst (astype_category ops ys)" "snd (astype_category ops ys)"]
    by (auto simp: coding_ok_def)
  show ?thesis
  proof (cases col)
    case (Categorical codes cats)
    then show ?thesis using assms(2) order_codes_intro[of xs codes cats] by (simp add: column_ok_def column_codes_def)
  next
    case (ObjArray ptrs arr)
    then show ?thesis using pointer_codes[OF assms(1), of ptrs arr xs] assms(2) cat[of arr]
      by (cases "arr = []") (auto simp: column_codes_def column_ok_def)
  next
    case (OtherArray arr)
    then show ?thesis using assms(2) cat[of arr] by (simp add: column_ok_def column_codes_def)
  qed
qed

subsection \<open>Group ids order like counters\<close>

lemma digit_order:
  fixes a b c d n :: int
  assumes "0 \<le> c" "c < n" "0 \<le> d" "d < n"
  shows "a * n + c \<le> b * n + d \<longleftrightarrow> a < b \<or> (a = b \<and> c \<le> d)"
    and "a * n + c < b * n + d \<longleftrightarrow> a < b \<or> (a = b \<and> c < d)"
    and "a * n + c = b * n + d \<longleftrightarrow> a = b \<and> c = d"
proof -
  have 1: "a * n + c < b * n" if "a < b"
  proof -
    have "(a + 1) * n \<le> b * n" using that assms by (intro mult_right_mono) auto
    then show ?thesis using assms(2) by (simp add: algebra_simps)
  qed
  have 2: "b * n + d < a * n" if "b < a"
  proof -
    have "(b + 1) * n \<le> a * n" using that assms by (intro mult_right_mono) auto
    then show ?thesis using assms(4) by (simp add: algebra_simps)
  qed
  show "a * n + c \<le> b * n + d \<longleftrightarrow> a < b \<or> (a = b \<and> c \<le> d)"
    and "a * n + c < b * n + d \<longleftrightarrow> a < b \<or> (a = b \<and> c < d)"
    and "a * n + c = b * n + d \<longleftrightarrow> a = b \<and> c = d"
    using 1 2 assms(1,3) by (cases a b rule: linorder_cases; force)+
qed

lemma fold_max_ge: "x \<in> set c \<or> x \<le> m \<Longrightarrow> x \<le> fold max c (m :: int)"
proof (induction c arbitrary: m)
  case (Cons a c)
  have "x \<in> set c \<or> x \<le> max a m" using Cons.prems by (auto simp: le_max_iff_disj)
  from Cons.IH[OF this] show ?case by simp
qed simp

lemma code_sizes_bound: "x \<in> set c \<Longrightarrow> x < fold max c 0 + (1 :: int)"
  using fold_max_ge[of x c 0] by simp

lemma ravel_law:
  assumes "coding_ok ops" "prod_list sizes < 2 ^ 63" "length cols = length sizes" "cols \<noteq> []"
    and "\<forall>(c, s) \<in> set (zip cols sizes). length c = n \<and> (\<forall>x \<in> set c. 0 \<le> x \<and> x < s)"
  shows "ravel_multi_index ops cols sizes = map (\<lambda>i. flat_index (zip (map (\<lambda>c. c ! i) cols) sizes)) [0..<n]"
  using assms(1)[unfolded coding_ok_def, THEN conjunct2, THEN conjunct2, THEN conjunct2, THEN spec, THEN spec, THEN spec,
      THEN mp, THEN mp, THEN mp, THEN mp, OF assms(2-5)] .

definition frame_ok :: "frame_ops \<Rightarrow> column list \<Rightarrow> stats_row list \<Rightarrow> bool" where
  \<comment> \<open>The columns hold the rows' keys; the rounded size test admits no product beyond 63 bits.\<close>
  "frame_ok ops cols rows \<longleftrightarrow> (\<exists>h t d e. cols = [h, t, d, e] \<and> column_ok h (map r_host rows) \<and>
     column_ok t (map r_type rows) \<and> column_ok d (map r_dev rows) \<and> column_ok e (map r_event rows)) \<and>
     (sizes_fit (code_sizes (map (column_codes ops) cols)) \<longrightarrow>
       prod_list (code_sizes (map (column_codes ops) cols)) < 2 ^ 63)"

lemma group_ids:
  assumes "coding_ok ops" "frame_ok ops cols rows" "sizes_fit (code_sizes (map (column_codes ops) cols))"
  defines "gid \<equiv> ravel_multi_index ops (map (column_codes ops) cols) (code_sizes (map (column_codes ops) cols))"
  shows "length gid = length rows"
    and "i < length rows \<Longrightarrow> j < length rows \<Longrightarrow>
      gid ! i \<le> gid ! j \<longleftrightarrow> counter_cols (rows ! i) \<le> counter_cols (rows ! j)"
proof -
  obtain h t d e where c: "cols = [h, t, d, e]" and ok: "column_ok h (map r_host rows)"
      "column_ok t (map r_type rows)" "column_ok d (map r_dev rows)" "column_ok e (map r_event rows)"
    using assms(2) by (auto simp: frame_ok_def)
  note oc = ok[THEN column_codes_order[OF assms(1)]]
  let ?c = "column_codes ops" and ?s = "\<lambda>c. fold max (column_codes ops c) 0 + 1"
  have b: "0 \<le> ?c x ! k \<and> ?c x ! k < ?s x" if "x \<in> {h, t, d, e}" "k < length rows" for x k
    using that oc code_sizes_bound[of "?c x ! k" "?c x"] by (auto simp: order_codes_def)
  have g: "gid = map (\<lambda>i. flat_index (zip (map (\<lambda>c. c ! i) (map ?c cols)) (code_sizes (map ?c cols)))) [0..<length rows]"
    unfolding gid_def
  proof (rule ravel_law[OF assms(1)])
    show "prod_list (code_sizes (map ?c cols)) < 2 ^ 63" using assms(2,3) by (simp add: frame_ok_def)
    show "\<forall>(c, s) \<in> set (zip (map ?c cols) (code_sizes (map ?c cols))). length c = length rows \<and> (\<forall>x \<in> set c. 0 \<le> x \<and> x < s)"
      using oc code_sizes_bound by (auto simp: code_sizes_def c order_codes_def)
  qed (simp_all add: code_sizes_def c)
  then show "length gid = length rows" by simp
  assume ij: "i < length rows" "j < length rows"
  have gi: "gid ! k = ((?c h ! k * ?s t + ?c t ! k) * ?s d + ?c d ! k) * ?s e + ?c e ! k" if "k < length rows" for k
    using g that by (simp add: flat_index_def code_sizes_def c)
  show "gid ! i \<le> gid ! j \<longleftrightarrow> counter_cols (rows ! i) \<le> counter_cols (rows ! j)"
  proof -
    have k: "i < length (map f rows)" "j < length (map f rows)" for f :: "stats_row \<Rightarrow> string" using ij by simp_all
    note cmp = order_codes_cmp[OF oc(1) k] order_codes_cmp[OF oc(2) k] order_codes_cmp[OF oc(3) k] order_codes_cmp[OF oc(4) k]
    have cc: "counter_cols (rows ! i) \<le> counter_cols (rows ! j) \<longleftrightarrow>
        (((r_host (rows ! i) < r_host (rows ! j) \<or> r_host (rows ! i) = r_host (rows ! j) \<and> r_type (rows ! i) < r_type (rows ! j)) \<or>
         (r_host (rows ! i) = r_host (rows ! j) \<and> r_type (rows ! i) = r_type (rows ! j)) \<and> r_dev (rows ! i) < r_dev (rows ! j)) \<or>
         ((r_host (rows ! i) = r_host (rows ! j) \<and> r_type (rows ! i) = r_type (rows ! j)) \<and> r_dev (rows ! i) = r_dev (rows ! j)) \<and>
           r_event (rows ! i) \<le> r_event (rows ! j))"
      by (simp add: counter_cols_def order_le_less) blast
    show ?thesis
      unfolding cc gi[OF ij(1)] gi[OF ij(2)]
      using cmp ij b[of t] b[of d] b[of e] by (simp add: digit_order)
  qed
qed

definition sort_rows :: "stats_row list \<Rightarrow> stats_row list" where
  "sort_rows rows = sort_key (\<lambda>r. (counter_cols r, r_time r)) rows"

lemma sort_rows_basic [simp]: "length (sort_rows rows) = length rows" "set (sort_rows rows) = set rows"
  by (simp_all add: sort_rows_def)

lemma sorted_sort_rows: "sorted (map counter_cols (sort_rows rows))"
  by (rule sorted_fst[of _ r_time]) (simp add: sort_rows_def)

lemma sorted_frame_eq:
  assumes "sorting_ok ops" "coding_ok ops" "neighbours_ok ops" "frame_ok ops cols rows"
  defines "ks \<equiv> map counter_cols (sort_rows rows)"
  shows "sorted_frame ops cols rows = (sort_rows rows,
     map (\<lambda>i. if 0 < i \<and> ks ! i = ks ! (i - 1) then Some (i - 1) else None) [0..<length rows],
     filter (\<lambda>i. i = 0 \<or> ks ! i \<noteq> ks ! (i - 1)) [0..<length rows],
     filter (\<lambda>i. Suc i = length rows \<or> ks ! i \<noteq> ks ! Suc i) [0..<length rows])"
proof -
  let ?f = "\<lambda>r. (counter_cols r, r_time r)"
  have l: "length ks = length rows" by (simp add: ks_def sort_rows_def)
  have perm: "set (sort_key (\<lambda>i. ?f (rows ! i)) [0..<length rows]) = {..<length rows}" by auto
  have rs: "map ((!) rows) (sort_key (\<lambda>i. ?f (rows ! i)) [0..<length rows]) = sort_rows rows"
    using sort_positions[of rows ?f] by (simp add: sort_rows_def)
  show ?thesis
  proof (cases "sizes_fit (code_sizes (map (column_codes ops) cols))")
    case True
    let ?g = "ravel_multi_index ops (map (column_codes ops) cols) (code_sizes (map (column_codes ops) cols))"
    note g = group_ids[OF assms(2,4) True]
    define order where "order = sort_key (\<lambda>i. ?f (rows ! i)) [0..<length rows]"
    have eq: "(?g ! i = ?g ! j) = (counter_cols (rows ! i) = counter_cols (rows ! j))" if "i < length rows" "j < length rows" for i j
      using g(2)[OF that] g(2)[OF that(2,1)] by (metis order_antisym order_refl)
    have "lexsort ops (map r_time rows) ?g = sort_key (\<lambda>i. (?g ! i, map r_time rows ! i)) [0..<length rows]"
      using assms(1) g(1) by (simp add: sorting_ok_def)
    also have "\<dots> = order"
      unfolding order_def by (rule sort_key_order_iso) (use g(2) eq in \<open>auto simp: less_eq_prod_def less_le\<close>)
    finally have o: "lexsort ops (map r_time rows) ?g = order" .
    have lo: "length order = length rows" "\<And>i. i < length rows \<Longrightarrow> order ! i < length rows"
      using perm nth_mem[of _ order] by (auto simp: order_def)
    have rs': "sort_rows rows = map ((!) rows) order" using rs by (simp add: order_def)
    have gk: "(?g ! (order ! i) = ?g ! (order ! j)) = (ks ! i = ks ! j)" if "i < length rows" "j < length rows" for i j
      using that lo eq by (simp add: ks_def rs')
    show ?thesis
      using True gk lo(1) by (auto simp: sorted_frame_def Let_def o rs' intro!: filter_cong)
  next
    case False
    have v: "map ((!) rows) (sort_values ops (map ?f rows)) = sort_rows rows"
    proof -
      have "sort_values ops (map ?f rows) = sort_key (\<lambda>i. map ?f rows ! i) [0..<length rows]"
        using assms(1) by (simp add: sorting_ok_def)
      also have "\<dots> = sort_key (\<lambda>i. ?f (rows ! i)) [0..<length rows]" by (rule sort_key_order_iso) auto
      finally show ?thesis using rs by simp
    qed
    have ks: "sorted ks" using sorted_sort_rows by (simp add: ks_def)
    have "group_prev ops ks = map (\<lambda>i. if 0 < i \<and> ks ! i = ks ! (i - 1) then Some (i - 1) else None) [0..<length rows]"
      using assms(3) l by (simp add: neighbours_ok_def) (use prev_position_sorted[OF ks] in simp)
    moreover have "group_heads ops ks = filter (\<lambda>i. i = 0 \<or> ks ! i \<noteq> ks ! (i - 1)) [0..<length rows]"
      using assms(3) l heads_filter[OF ks] by (simp add: neighbours_ok_def)
    moreover have "group_tails ops ks = filter (\<lambda>i. Suc i = length rows \<or> ks ! i \<noteq> ks ! Suc i) [0..<length rows]"
      using assms(3) l tails_filter[OF ks] by (simp add: neighbours_ok_def)
    ultimately show ?thesis
      using False unfolding sorted_frame_def Let_def v by (simp flip: ks_def)
  qed
qed

subsection \<open>Deltas as a scan\<close>

definition counter_delta :: "f64 option \<Rightarrow> stats_row \<Rightarrow> f64" where
  "counter_delta prev r =
     fmul (wrap_delta (r_wid r) (case prev of None \<Rightarrow> NaN | Some p \<Rightarrow> fsub (r_value r) p)) (r_mult r)"

definition delta_scan :: "(counter_key \<Rightarrow> f64 option) \<Rightarrow> stats_row list \<Rightarrow> delta_row list" where
  "delta_scan st rs = map (\<lambda>(p, r). with_delta r (counter_delta p r)) (with_prev counter_cols r_value st rs)"

definition carried :: "delta_carry option \<Rightarrow> counter_key \<Rightarrow> f64 option" where
  \<comment> \<open>The values a frame continues from: the finite ones of the carry.\<close>
  "carried carry k = (case carry of None \<Rightarrow> None
     | Some c \<Rightarrow> (case dget (raw c) k of Some (p, _) \<Rightarrow> if isfinite p then Some p else None | None \<Rightarrow> None))"

definition raw_entry :: "stats_row \<Rightarrow> f64 \<times> int \<times> f64 \<times> f64" where
  "raw_entry r = (r_value r, r_wid r, r_mult r, r_time r)"

definition carry_delta :: "(counter_key \<times> (f64 \<times> int \<times> f64 \<times> f64)) list \<Rightarrow> stats_row \<Rightarrow> f64 \<Rightarrow> f64" where
  "carry_delta rawd r d = (case dget rawd (counter_cols r) of
     Some (p, _) \<Rightarrow> if isfinite p then fsub (r_value r) p else d | None \<Rightarrow> d)"

lemma carry_deltas_nth:
  "length (carry_deltas rawd rs heads ds) = length ds"
  "i < length ds \<Longrightarrow> carry_deltas rawd rs heads ds ! i = (if i \<in> set heads then carry_delta rawd (rs ! i) (ds ! i) else ds ! i)"
proof -
  have f: "carry_deltas rawd rs heads ds = foldl (\<lambda>ds i. ds[i := carry_delta rawd (rs ! i) (ds ! i)]) ds heads"
    by (auto simp: carry_deltas_def carry_delta_def fun_eq_iff intro!: arg_cong[of _ _ "\<lambda>f. foldl f ds heads"] split: option.split)
  have "carry_delta rawd r (carry_delta rawd r d) = carry_delta rawd r d" for r d
    by (auto simp: carry_delta_def split: option.split)
  from foldl_updates[of "\<lambda>i. carry_delta rawd (rs ! i)", OF this]
  show "length (carry_deltas rawd rs heads ds) = length ds"
    "i < length ds \<Longrightarrow> carry_deltas rawd rs heads ds ! i = (if i \<in> set heads then carry_delta rawd (rs ! i) (ds ! i) else ds ! i)"
    unfolding f by blast+
qed

lemma foldl_tails:
  "dget (foldl (\<lambda>d i. dset (key (rs ! i)) (val (rs ! i)) d) d0
     (filter (\<lambda>i. map key rs ! i \<notin> set (drop (Suc i) (map key rs))) [0..<length rs])) = last_vals key val (dget d0) rs"
proof (induction rs arbitrary: d0)
  case (Cons r rs)
  let ?T = "\<lambda>rs. filter (\<lambda>i. map key rs ! i \<notin> set (drop (Suc i) (map key rs))) [0..<length rs]"
  have u: "[0..<Suc (length rs)] = 0 # map Suc [0..<length rs]" by (simp add: upt_conv_Cons map_Suc_upt del: upt_Suc)
  have t: "?T (r # rs) = (if key r \<in> key ` set rs then [] else [0]) @ map Suc (?T rs)"
    by (simp add: u filter_map o_def del: upt_Suc)
  have f: "foldl (\<lambda>d i. dset (key ((r # rs) ! i)) (val ((r # rs) ! i)) d) d1 (map Suc is)
      = foldl (\<lambda>d i. dset (key (rs ! i)) (val (rs ! i)) d) d1 is" for d1 "is"
    by (simp add: foldl_map)
  show ?case
  proof (cases "key r \<in> key ` set rs")
    case True
    then have "last_vals key val (dget d0) (r # rs) = last_vals key val (dget d0) rs"
      by (intro ext) (auto simp: last_vals_key)
    then show ?thesis using Cons.IH[of d0] True by (simp only: t) (simp add: f)
  next
    case False
    have "(dget d0)(key r \<mapsto> val r) = (\<lambda>a. if a = key r then Some (val r) else dget d0 a)" by auto
    then show ?thesis using False Cons.IH[of "dset (key r) (val r) d0"] by (simp only: t) (simp add: f)
  qed
qed simp

lemma apply_counter_deltas_eq:
  assumes "sorting_ok ops" "coding_ok ops" "neighbours_ok ops" "frame_ok ops cols rows"
  shows "fst (apply_counter_deltas ops cols rows carry) = delta_scan (carried carry) (sort_rows rows)"
    and "snd (apply_counter_deltas ops cols rows (Some c)) = Some c' \<Longrightarrow>
      dget (raw c') = last_vals counter_cols raw_entry (dget (raw c)) (sort_rows rows) \<and> arc c' = arc c"
proof -
  let ?rs = "sort_rows rows"
  let ?ks = "map counter_cols ?rs"
  have l: "length ?rs = length rows" by (simp add: sort_rows_def)
  note sf = sorted_frame_eq[OF assms]
  define heads where "heads = filter (\<lambda>i. i = 0 \<or> ?ks ! i \<noteq> ?ks ! (i - 1)) [0..<length rows]"
  define ds0 where "ds0 = map (\<lambda>i. if 0 < i \<and> ?ks ! i = ?ks ! (i - 1) then fsub (r_value (?rs ! i)) (r_value (?rs ! (i - 1))) else NaN) [0..<length rows]"
  define ds1 where "ds1 = (case carry of None \<Rightarrow> ds0 | Some c \<Rightarrow> if raw c = [] then ds0 else carry_deltas (raw c) ?rs heads ds0)"
  have ds0: "map (\<lambda>i. case map (\<lambda>i. if 0 < i \<and> ?ks ! i = ?ks ! (i - 1) then Some (i - 1) else None) [0..<length rows] ! i of
      None \<Rightarrow> NaN | Some j \<Rightarrow> fsub (map r_value ?rs ! i) (map r_value ?rs ! j)) [0..<length ?rs] = ds0"
    using l by (auto simp: ds0_def)
  have fst: "fst (apply_counter_deltas ops cols rows carry) =
      map2 with_delta ?rs (map2 (\<lambda>r d. fmul (wrap_delta (r_wid r) d) (r_mult r)) ?rs ds1)"
    unfolding apply_counter_deltas_def sf Let_def split_conv ds0 ds1_def heads_def by simp
  have l1: "length ds1 = length rows" by (auto simp: ds1_def ds0_def carry_deltas_nth(1) split: option.split)
  have ds1: "ds1 ! i = (case fst (with_prev counter_cols r_value (carried carry) ?rs ! i) of
      None \<Rightarrow> NaN | Some p \<Rightarrow> fsub (r_value (?rs ! i)) p)" if i: "i < length rows" for i
    using i l by (auto simp: with_prev_nth[OF sorted_sort_rows] ds1_def ds0_def heads_def carry_deltas_nth(2) carry_delta_def carried_def
        split: option.splits)
  show "fst (apply_counter_deltas ops cols rows carry) = delta_scan (carried carry) ?rs"
    unfolding fst delta_scan_def
    by (rule nth_equalityI) (use l l1 ds1 with_prev_nth[OF sorted_sort_rows, of _ rows r_value "carried carry"] in
        \<open>auto simp: counter_delta_def split_beta\<close>)
  have t: "filter (\<lambda>i. Suc i = length rows \<or> ?ks ! i \<noteq> ?ks ! Suc i) [0..<length rows] =
      filter (\<lambda>i. ?ks ! i \<notin> set (drop (Suc i) ?ks)) [0..<length ?rs]"
    using tails_filter[OF sorted_sort_rows, of rows] l by simp
  assume "snd (apply_counter_deltas ops cols rows (Some c)) = Some c'"
  then have "c' = c\<lparr>raw := carry_raw ?rs (filter (\<lambda>i. ?ks ! i \<notin> set (drop (Suc i) ?ks)) [0..<length ?rs]) (raw c)\<rparr>"
    unfolding apply_counter_deltas_def sf Let_def split_conv t by simp
  then show "dget (raw c') = last_vals counter_cols raw_entry (dget (raw c)) ?rs \<and> arc c' = arc c"
    using foldl_tails[of counter_cols ?rs raw_entry "raw c"] by (simp add: carry_raw_def raw_entry_def Let_def)
qed

subsection \<open>One delta\<close>

lemma pow2_f64_exact: "0 \<le> w \<Longrightarrow> w \<le> 52 \<Longrightarrow> pow2_f64 w = Fin (of_int (2 ^ nat w))"
  using round_f64_int[of "2 ^ nat w"] power_strict_increasing[of "nat w" 53 "2 :: int"]
  by (simp add: pow2_f64_def pow2_nonneg)

lemma wrap_delta_modular:
  assumes "0 \<le> p" "p < 2 ^ nat w" "0 \<le> v" "v < 2 ^ nat w" "0 \<le> w" "w \<le> 52"
  shows "wrap_delta w (fsub (Fin (of_int v)) (Fin (of_int p))) = Fin (of_int ((v - p) mod 2 ^ nat w))"
proof -
  have b: "(2 :: int) ^ nat w < 2 ^ 53" using assms(6) by (intro power_strict_increasing) auto
  have s: "fsub (Fin (of_int v)) (Fin (of_int p)) = Fin (of_int (v - p))" using assms b by (intro fsub_int) linarith
  show ?thesis
  proof (cases "v < p")
    case True
    have "(v - p) mod 2 ^ nat w = (v - p + 2 ^ nat w) mod 2 ^ nat w" by simp
    also have "\<dots> = 2 ^ nat w + (v - p)" using True assms by (subst mod_pos_pos_trivial) auto
    finally have m: "(v - p) mod 2 ^ nat w = 2 ^ nat w + (v - p)" .
    have "fadd (Fin (of_int (2 ^ nat w))) (Fin (of_int (v - p))) = Fin (of_int (2 ^ nat w + (v - p)))"
      using True assms b by (intro fadd_int) linarith
    moreover have "of_int (v - p) < (0 :: rat)" using True by simp
    ultimately show ?thesis unfolding s m wrap_delta_def pow2_f64_exact[OF assms(5,6)] by simp
  next
    case False
    then have "(v - p) mod 2 ^ nat w = v - p" using assms by (intro mod_pos_pos_trivial) auto
    then show ?thesis using False s by (simp add: wrap_delta_def)
  qed
qed

lemma wrap_delta_range:
  assumes "0 \<le> p" "p < pow2 w" "0 \<le> v" "v < pow2 w" "0 \<le> w" "w \<le> 1023"
  shows "\<exists>d. wrap_delta w (fsub (Fin v) (Fin p)) = Fin d \<and> 0 \<le> d \<and> d \<le> pow2 w"
proof (cases "p \<le> v")
  case True
  then obtain d where "round_f64 (v - p) = Fin d" "0 \<le> d" "d \<le> pow2 w"
    using round_f64_range[of "v - p" w] assms by auto
  then show ?thesis by (simp add: fsub_def wrap_delta_def)
next
  case False
  then obtain d where d: "round_f64 (p - v) = Fin d" "0 \<le> d" "d \<le> pow2 w"
    using round_f64_range[of "p - v" w] assms by auto
  have s: "fsub (Fin v) (Fin p) = Fin (- d)" using round_f64_minus[of "p - v"] d(1) by (simp add: fsub_def)
  obtain u where u: "round_f64 (pow2 w) = Fin u" "0 \<le> u" "u \<le> pow2 w"
    using round_f64_range[of "pow2 w" w] assms(5,6) less_imp_le[OF pow2_pos[of w]] by auto
  have "round_f64 (pow2 w) = Fin (pow2 w)" using round_f64_pow2[of w] assms(5,6) by simp
  moreover obtain r where "round_f64 (pow2 w + - d) = Fin r" "0 \<le> r" "r \<le> pow2 w"
    using round_f64_range[of "pow2 w + - d" w] d(2,3) assms(5,6) by auto
  ultimately show ?thesis using s d(2) less_imp_le[OF pow2_pos[of w]] by (auto simp: wrap_delta_def pow2_f64_def)
qed

lemma with_delta_sel [simp]:
  "d_delta (with_delta r d) = d" "delta_cols (with_delta r d) = counter_cols r" "d_time (with_delta r d) = r_time r"
  by (simp_all add: with_delta_def delta_cols_def counter_cols_def)

lemma delta_scan_nth:
  "i < length rows \<Longrightarrow> d_delta (delta_scan st (sort_rows rows) ! i) =
    counter_delta (fst (with_prev counter_cols r_value st (sort_rows rows) ! i)) (sort_rows rows ! i)"
  using with_prev_nth[OF sorted_sort_rows, of i rows r_value st]
  by (simp add: delta_scan_def split_beta sort_rows_def)

lemma delta_next:
  assumes "Suc i < length rows" "counter_cols (sort_rows rows ! i) = counter_cols (sort_rows rows ! Suc i)"
  shows "d_delta (delta_scan st (sort_rows rows) ! Suc i) = counter_delta (Some (r_value (sort_rows rows ! i))) (sort_rows rows ! Suc i)"
  using assms by (simp add: delta_scan_nth with_prev_nth[OF sorted_sort_rows])

subsection \<open>Chunks\<close>

lemma filter_sort_rows:
  "filter (\<lambda>r. counter_cols r = k) (sort_rows rows) = sort_key r_time (filter (\<lambda>r. counter_cols r = k) rows)"
  unfolding sort_rows_def filter_sort by (rule sort_key_order_iso) auto

lemma delta_scan_key:
  "filter (\<lambda>d. delta_cols d = k) (delta_scan st (sort_rows rows)) =
   delta_scan st (sort_key r_time (filter (\<lambda>r. counter_cols r = k) rows))"
proof -
  have "filter (\<lambda>d. delta_cols d = k) (delta_scan st rs) = delta_scan st (filter (\<lambda>r. counter_cols r = k) rs)" for rs
    unfolding delta_scan_def filter_map
    by (simp add: o_def split_beta filter_with_prev)
  then show ?thesis by (simp add: filter_sort_rows)
qed

lemma delta_scan_append:
  "delta_scan st (xs @ ys) = delta_scan st xs @ delta_scan (last_vals counter_cols r_value st xs) ys"
  by (simp add: delta_scan_def with_prev_append)

lemma delta_scan_cong:
  "(\<And>r. r \<in> set rs \<Longrightarrow> st (counter_cols r) = st' (counter_cols r)) \<Longrightarrow> delta_scan st rs = delta_scan st' rs"
  using with_prev_cong[of rs st counter_cols st' r_value] by (simp add: delta_scan_def)

lemma delta_scan_key_append:
  assumes "\<forall>x \<in> set xs. \<forall>y \<in> set ys. r_time x \<le> r_time y"
  shows "filter (\<lambda>d. delta_cols d = k) (delta_scan st (sort_rows (xs @ ys))) =
    filter (\<lambda>d. delta_cols d = k) (delta_scan st (sort_rows xs)) @
    filter (\<lambda>d. delta_cols d = k) (delta_scan (last_vals counter_cols r_value st (sort_rows xs)) (sort_rows ys))"
proof -
  let ?x = "filter (\<lambda>r. counter_cols r = k) xs" and ?y = "filter (\<lambda>r. counter_cols r = k) ys"
  have "sort_key r_time (?x @ ?y) = sort_key r_time ?x @ sort_key r_time ?y"
    using assms by (intro sort_key_append_le) auto
  then have "filter (\<lambda>d. delta_cols d = k) (delta_scan st (sort_rows (xs @ ys))) =
      delta_scan st (sort_key r_time ?x) @ delta_scan (last_vals counter_cols r_value st (sort_key r_time ?x)) (sort_key r_time ?y)"
    by (simp add: delta_scan_key delta_scan_append)
  also have "last_vals counter_cols r_value st (sort_key r_time ?x) k = last_vals counter_cols r_value st (sort_rows xs) k"
    using filter_sort_rows[of k xs] by (auto simp: last_vals_key sort_rows_def filter_sort image_iff)
  then have "delta_scan (last_vals counter_cols r_value st (sort_key r_time ?x)) (sort_key r_time ?y) =
      delta_scan (last_vals counter_cols r_value st (sort_rows xs)) (sort_key r_time ?y)"
    by (intro delta_scan_cong) auto
  finally show ?thesis by (simp add: delta_scan_key)
qed

definition counter_time :: "delta_row \<Rightarrow> group_key" where
  "counter_time d = (delta_cols d, d_time d)"

lemma sorted_delta_scan: "sorted (map counter_time (delta_scan st (sort_rows rows)))"
proof -
  have "map counter_time (delta_scan st rs) = map (\<lambda>r. (counter_cols r, r_time r)) rs" for rs
  proof -
    have "map counter_time (delta_scan st rs) = map (\<lambda>p. (counter_cols (snd p), r_time (snd p))) (with_prev counter_cols r_value st rs)"
      by (simp add: delta_scan_def counter_time_def split_beta o_def)
    also have "\<dots> = map (\<lambda>r. (counter_cols r, r_time r)) (map snd (with_prev counter_cols r_value st rs))"
      by (simp only: map_map o_def)
    finally show ?thesis by (simp only: map_snd_with_prev)
  qed
  then show ?thesis by (simp add: sort_rows_def)
qed

subsection \<open>What a frame computes\<close>

text \<open>
  C8. The coded sort is an ordinary one: coding the four key columns (by object identity, then
  by value), folding the codes into one integer, sorting on it and comparing neighbours gives
  the deltas of a stable sort by host, type, device, event and time in which every row is
  compared with the previous row of its counter, and a first row with the finite carried value.
\<close>
theorem counter_deltas_sorted_scan:
  assumes "sorting_ok ops" "coding_ok ops" "neighbours_ok ops" "frame_ok ops cols rows"
  shows "fst (apply_counter_deltas ops cols rows carry) =
    delta_scan (carried carry) (sort_key (\<lambda>r. (counter_cols r, r_time r)) rows)"
  using apply_counter_deltas_eq(1)[OF assms] by (simp add: sort_rows_def)

definition sample_row :: "string \<Rightarrow> rat \<Rightarrow> rat \<Rightarrow> stats_row" where
  "sample_row ev t v = \<lparr>r_time = Fin t, r_host = ''h'', r_jid = ''9'', r_type = ''ib'', r_dev = ''0'', r_event = ev,
     r_value = Fin v, r_wid = 32, r_mult = Fin 4, r_unit = ''B''\<rparr>"

definition sample_cols :: "stats_row list \<Rightarrow> column list" where
  \<comment> \<open>The events as objects at distinct addresses, the other columns as plain arrays.\<close>
  "sample_cols rows = [OtherArray (map r_host rows), OtherArray (map r_type rows), OtherArray (map r_dev rows),
     ObjArray (map int [0..<length rows]) (map r_event rows)]"

lemma sample_cols_ok:
  "prod_list (code_sizes (map (column_codes ops) (sample_cols rows))) < 2 ^ 63 \<Longrightarrow> frame_ok ops (sample_cols rows) rows"
  by (auto simp: frame_ok_def sample_cols_def column_ok_def)

definition sample_rows :: "stats_row list" where
  "sample_rows = [sample_row ''rx'' 10 4294967290, sample_row ''tx'' 10 7, sample_row ''rx'' 18 6, sample_row ''tx'' 18 9]"

lemma sample_rows_ok: "frame_ok model_ops (sample_cols sample_rows) sample_rows"
  by (rule sample_cols_ok) code_simp

theorem counter_deltas_sorted_scan_witness:
  "map d_delta (fst (apply_counter_deltas model_ops (sample_cols sample_rows) sample_rows None)) = [NaN, Fin 48, NaN, Fin 8]"
  unfolding counter_deltas_sorted_scan[OF model_ops_ok(1-3) sample_rows_ok] by code_simp

text \<open>
  C13. Counters that wrap (narrow ones; the default width 64 is rounded, see the bounds below): for two successive readings \<open>p\<close> and \<open>v\<close> of a counter of \<open>w \<le> 52\<close> bits,
  the delta of the frame is exactly \<open>(v - p) mod 2 ^ w\<close> times the multiplier, whether or not the
  counter wrapped between the readings, as long as the product is below \<open>2 ^ 53\<close>.
\<close>
theorem counter_deltas_modular:
  fixes p v m :: int
  assumes "sorting_ok ops" "coding_ok ops" "neighbours_ok ops" "frame_ok ops cols rows"
    and "Suc i < length rows" "counter_cols (sort_rows rows ! i) = counter_cols (sort_rows rows ! Suc i)"
    and "r_value (sort_rows rows ! i) = Fin (of_int p)" "r_value (sort_rows rows ! Suc i) = Fin (of_int v)"
    and "r_wid (sort_rows rows ! Suc i) = w" "0 \<le> w" "w \<le> 52" "0 \<le> p" "p < 2 ^ nat w" "0 \<le> v" "v < 2 ^ nat w"
    and "r_mult (sort_rows rows ! Suc i) = Fin (of_int m)" "\<bar>(v - p) mod 2 ^ nat w * m\<bar> < 2 ^ 53"
  shows "d_delta (fst (apply_counter_deltas ops cols rows carry) ! Suc i) = Fin (of_int ((v - p) mod 2 ^ nat w * m))"
  using apply_counter_deltas_eq(1)[OF assms(1-4)] delta_next[OF assms(5,6)] wrap_delta_modular[OF assms(12-15,10,11)]
    fmul_int[OF assms(17)] assms(7-9,16) by (simp add: counter_delta_def)

theorem counter_deltas_modular_witness:
  "d_delta (fst (apply_counter_deltas model_ops (sample_cols sample_rows) sample_rows None) ! 1) =
     Fin (of_int ((6 - 4294967290) mod 2 ^ nat 32 * 4)) \<and> (6 - 4294967290) mod 2 ^ nat 32 * 4 = (48 :: int)"
proof -
  have s: "sort_rows sample_rows = [sample_row ''rx'' 10 4294967290, sample_row ''rx'' 18 6, sample_row ''tx'' 10 7, sample_row ''tx'' 18 9]"
    by code_simp
  have l: "length sample_rows = 4" by (simp add: sample_rows_def)
  show ?thesis
    using counter_deltas_modular[OF model_ops_ok(1-3) sample_rows_ok, of 0 4294967290 6 32 4 None]
    by (simp add: s l) (simp add: sample_row_def counter_cols_def)
qed

text \<open>
  C14. Bounds: for two successive finite readings in \<open>[0, 2 ^ w)\<close> of a counter of \<open>w \<le> 1023\<close> bits
  whose multiplier is a double \<open>m \<ge> 0\<close> with \<open>m * 2 ^ w\<close> below the float range, the delta lies in
  \<open>[0, m * 2 ^ w]\<close>: it is never negative or missing, also where a 64-bit counter exceeds what a
  float holds exactly.
\<close>
theorem counter_deltas_range:
  assumes "sorting_ok ops" "coding_ok ops" "neighbours_ok ops" "frame_ok ops cols rows"
    and "Suc i < length rows" "counter_cols (sort_rows rows ! i) = counter_cols (sort_rows rows ! Suc i)"
    and "r_value (sort_rows rows ! i) = Fin p" "r_value (sort_rows rows ! Suc i) = Fin v"
    and "r_wid (sort_rows rows ! Suc i) = w" "0 \<le> w" "w \<le> 1023" "0 \<le> p" "p < pow2 w" "0 \<le> v" "v < pow2 w"
    and "r_mult (sort_rows rows ! Suc i) = Fin m" "0 \<le> m" "round_f64 m = Fin m" "m * pow2 w < pow2 1024"
  shows "\<exists>d. d_delta (fst (apply_counter_deltas ops cols rows carry) ! Suc i) = Fin d \<and> 0 \<le> d \<and> d \<le> m * pow2 w"
proof -
  obtain d where d: "wrap_delta w (fsub (Fin v) (Fin p)) = Fin d" "0 \<le> d" "d \<le> pow2 w"
    using wrap_delta_range[OF assms(12-15,10,11)] by blast
  have "d * m \<le> m * pow2 w" using mult_left_mono[OF d(3) assms(17)] by (simp add: mult.commute)
  moreover have "round_f64 (m * pow2 w) = Fin (m * pow2 w)" using assms(10,17-19) by (intro round_f64_scale)
  ultimately obtain d' where "round_f64 (d * m) = Fin d'" "0 \<le> d'" "d' \<le> m * pow2 w"
    using round_f64_below[of "d * m" "m * pow2 w"] d(2) assms(17,19) by auto
  then show ?thesis
    using apply_counter_deltas_eq(1)[OF assms(1-4)] delta_next[OF assms(5,6)] d(1) assms(7-9,16)
    by (simp add: counter_delta_def)
qed

definition wide_rows :: "stats_row list" where
  "wide_rows = map (\<lambda>r. r\<lparr>r_wid := 64, r_mult := Fin 64\<rparr>) [sample_row ''rx'' 10 (2 ^ 63), sample_row ''rx'' 18 3]"

theorem counter_deltas_range_witness:
  "\<exists>d. d_delta (fst (apply_counter_deltas model_ops (sample_cols wide_rows) wide_rows None) ! 1) = Fin d \<and> 0 \<le> d \<and> d \<le> 64 * pow2 64"
proof -
  have s: "sort_rows wide_rows = [(sample_row ''rx'' 10 (2 ^ 63))\<lparr>r_wid := 64, r_mult := Fin 64\<rparr>, (sample_row ''rx'' 18 3)\<lparr>r_wid := 64, r_mult := Fin 64\<rparr>]"
    by code_simp
  have l: "length wide_rows = 2" by (simp add: wide_rows_def)
  have f: "frame_ok model_ops (sample_cols wide_rows) wide_rows" by (rule sample_cols_ok) code_simp
  show ?thesis
    using counter_deltas_range[OF model_ops_ok(1-3) f, of 0 "2 ^ 63" 3 64 64 None] round_f64_int[of 64]
    by (simp add: s l) (simp add: sample_row_def counter_cols_def pow2_def)
qed

end
