(* ===== verification/Dcgm_Blank.thy ===== *)
theory Dcgm_Blank
  imports Float64
begin

text \<open>
  DCGM blank values (\<^verbatim>\<open>lib/dcgm_blank.py\<close>): the GPU library reports a missing sample as a value
  at or above a sentinel. \<open>nan_out_dcgm_numeric_blanks\<close> replaces them by NaN in an array; the
  predicates test one Python value and may raise on an integer no float can hold.
\<close>

definition DCGM_INT64_BLANK :: int where
  "DCGM_INT64_BLANK = 0x7FFFFFFFFFFFFFF0"

definition DCGM_FP64_BLANK :: rat where
  "DCGM_FP64_BLANK = 140737488355328"

definition DCGM_INT64_BLANK_AS_FLOAT :: f64 where
  "DCGM_INT64_BLANK_AS_FLOAT = of_int_f64 DCGM_INT64_BLANK"

datatype py_value = PyNone | PyInt int | PyFloat f64 | PyStr string

fun float_of :: "py_value \<Rightarrow> f64 res" where
  \<comment> \<open>\<^verbatim>\<open>float(value)\<close>\<close>
  "float_of PyNone = Inl TypeError"
| "float_of (PyInt n) = (if isfinite (of_int_f64 n) then Inr (of_int_f64 n) else Inl OverflowError)"
| "float_of (PyFloat v) = Inr v"
| "float_of (PyStr s) = raise_none ValueError (py_float s)"

definition is_dcgm_fp64_blank :: "py_value \<Rightarrow> bool res" where
  \<comment> \<open>\<^verbatim>\<open>OverflowError\<close> is not caught.\<close>
  "is_dcgm_fp64_blank value = (if value = PyNone then Inr False else
     (case float_of value of
        Inl OverflowError \<Rightarrow> Inl OverflowError
      | Inl _ \<Rightarrow> Inr False
      | Inr v \<Rightarrow> Inr (isfinite v \<and> fle (Fin DCGM_FP64_BLANK) v)))"

definition is_dcgm_int64_blank :: "py_value \<Rightarrow> bool res" where
  "is_dcgm_int64_blank value = (case value of
     PyNone \<Rightarrow> Inr False
   | PyInt n \<Rightarrow> Inr (DCGM_INT64_BLANK \<le> n)
   | _ \<Rightarrow> (case float_of value of
        Inl _ \<Rightarrow> Inr False
      | Inr v \<Rightarrow> Inr (isfinite v \<and> (fle DCGM_INT64_BLANK_AS_FLOAT v \<or> fle (Fin (of_int DCGM_INT64_BLANK)) v))))"

definition is_dcgm_numeric_blank :: "py_value \<Rightarrow> bool res" where
  "is_dcgm_numeric_blank value =
     bindE (is_dcgm_fp64_blank value) (\<lambda>b. if b then Inr True else is_dcgm_int64_blank value)"

definition fp64_blank :: "f64 \<Rightarrow> bool" where
  "fp64_blank v = (isfinite v \<and> fle (Fin DCGM_FP64_BLANK) v)"

definition nan_out_dcgm_numeric_blanks :: "f64 list \<Rightarrow> f64 list" where
  "nan_out_dcgm_numeric_blanks values = map (\<lambda>v. if fp64_blank v then NaN else v) values"

text \<open>The sentinel of integer samples, seen as a float, is above the one of float samples.\<close>

lemma int64_blank_float: "DCGM_INT64_BLANK_AS_FLOAT = Fin (2 ^ 63)"
  by code_simp

lemma numeric_blank_float: "is_dcgm_numeric_blank (PyFloat v) = Inr (fp64_blank v)"
  by (cases v) (auto simp: is_dcgm_numeric_blank_def is_dcgm_fp64_blank_def is_dcgm_int64_blank_def fp64_blank_def
      int64_blank_float DCGM_INT64_BLANK_def DCGM_FP64_BLANK_def)

lemma numeric_blank_int:
  "\<bar>n\<bar> < 2 ^ 53 \<Longrightarrow> is_dcgm_numeric_blank (PyInt n) = Inr (140737488355328 \<le> n)"
  by (simp add: is_dcgm_numeric_blank_def is_dcgm_fp64_blank_def is_dcgm_int64_blank_def
      of_int_f64_exact DCGM_FP64_BLANK_def DCGM_INT64_BLANK_def)

lemma nan_out_blank_free: "v \<in> set (nan_out_dcgm_numeric_blanks vs) \<Longrightarrow> \<not> fp64_blank v"
  by (auto simp: nan_out_dcgm_numeric_blanks_def fp64_blank_def)

end
