(* ===== verification/Sample_Collapse.thy ===== *)
theory Sample_Collapse
  imports Counter_Deltas Dcgm_Blank
begin

text \<open>
  Collapsing the rows of one sample time (\<^verbatim>\<open>_collapse_stats_with_deltas\<close> and its parts in
  \<^verbatim>\<open>dbload/lib/sync_timedb_parsing.py\<close>): host counters are summed over devices unless the device
  is a job stamp \<^verbatim>\<open>j:...\<close>, CPU power gauges are reduced to the sum of the means of their value
  clusters, GPU rows keep their device and are aggregated by event class.
  Shown: the vectorised NVIDIA path with its shortcut for unique keys computes what the
  per-group function computes; a cluster sum does not depend on the order of its rows; the
  collapse of a frame is, time by time, the collapse of the rows of that time.
\<close>

unbundle bit_operations_syntax

subsection \<open>Keys and aggregated rows\<close>

definition gcols :: "delta_row \<Rightarrow> group_key" where
  \<comment> \<open>\<^verbatim>\<open>_COLLAPSE_GROUP_COLS\<close>\<close>
  "gcols d = ([d_host d, d_type d, d_event d, d_unit d], d_time d)"

definition gcols_gpu :: "delta_row \<Rightarrow> group_key" where
  \<comment> \<open>\<^verbatim>\<open>_COLLAPSE_GROUP_COLS_WITH_DEV\<close>\<close>
  "gcols_gpu d = ([d_host d, d_type d, d_dev d, d_event d, d_unit d], d_time d)"

definition row_no_dev :: "group_key \<Rightarrow> f64 \<times> f64 \<Rightarrow> string \<Rightarrow> delta_row" where
  \<comment> \<open>An aggregated row whose key has no device; \<^verbatim>\<open>dev\<close> becomes the empty string.\<close>
  "row_no_dev k vd jid = \<lparr>d_time = snd k, d_host = fst k ! 0, d_jid = jid, d_type = fst k ! 1, d_dev = [],
     d_event = fst k ! 2, d_value = fst vd, d_unit = fst k ! 3, d_delta = snd vd\<rparr>"

definition row_with_dev :: "group_key \<Rightarrow> f64 \<times> f64 \<Rightarrow> string \<Rightarrow> delta_row" where
  "row_with_dev k vd jid = \<lparr>d_time = snd k, d_host = fst k ! 0, d_jid = jid, d_type = fst k ! 1, d_dev = fst k ! 2,
     d_event = fst k ! 3, d_value = fst vd, d_unit = fst k ! 4, d_delta = snd vd\<rparr>"

definition aggregate ::
  "(group_key \<Rightarrow> f64 \<times> f64 \<Rightarrow> string \<Rightarrow> delta_row) \<Rightarrow> (delta_row list \<Rightarrow> f64 \<times> f64) \<Rightarrow> (group_key \<times> delta_row list) list \<Rightarrow> delta_row list"
where
  \<comment> \<open>One row per group; the job id is the first of the group.\<close>
  "aggregate mk f gs = map (\<lambda>(k, g). mk k (f g) (d_jid (hd g))) gs"

subsection \<open>Sums\<close>

definition sum_group :: "frame_ops \<Rightarrow> delta_row list \<Rightarrow> f64 \<times> f64" where
  "sum_group ops g = (sum_min_count1 ops (map d_value g), sum_min_count1 ops (map d_delta g))"

definition groupby_sum_min_count ::
  "frame_ops \<Rightarrow> (delta_row \<Rightarrow> group_key) \<Rightarrow> (group_key \<Rightarrow> f64 \<times> f64 \<Rightarrow> string \<Rightarrow> delta_row) \<Rightarrow> bool \<Rightarrow> delta_row list \<Rightarrow> delta_row list"
where
  \<comment> \<open>\<^verbatim>\<open>cols\<close> and \<^verbatim>\<open>mk\<close> are the key columns and the row they give back; unique keys are kept as they are.\<close>
  "groupby_sum_min_count ops cols mk assume_duplicates df =
     (if df = [] then []
      else if \<not> assume_duplicates \<and> distinct (map cols df) then map (\<lambda>d. mk (cols d) (d_value d, d_delta d) (d_jid d)) df
      else aggregate mk (sum_group ops) (group_rows_by ops cols df))"

subsection \<open>CPU power gauges\<close>

definition cluster_mean_sum_sorted :: "frame_ops \<Rightarrow> f64 list \<Rightarrow> f64 \<Rightarrow> f64" where
  "cluster_mean_sum_sorted ops values gap_threshold =
     (let v = sort_f64 ops (filter isfinite (nan_out_dcgm_numeric_blanks values)) in
      if v = [] then NaN
      else if length v = 1 then hd v
      else let split_idx = map Suc (filter (\<lambda>i. flt gap_threshold (fsub (v ! Suc i) (v ! i))) [0..<length v - 1]);
               starts = 0 # split_idx;
               seg_sums = add_reduceat ops v starts;
               counts = map2 (\<lambda>a b. int b - int a) starts (tl starts @ [length v])
           in np_sum ops (map2 (\<lambda>s c. fdiv s (of_int_f64 c)) seg_sums counts))"

definition f64_abs :: "f64 \<Rightarrow> f64" where
  "f64_abs v = (case v of Fin q \<Rightarrow> Fin \<bar>q\<bar> | NInf \<Rightarrow> PInf | _ \<Rightarrow> v)"

definition dcg_delta_gap_threshold :: "f64 list \<Rightarrow> f64" where
  "dcg_delta_gap_threshold dvals =
     (let finite = filter isfinite dvals in
      if finite = [] then round_f64 (1 / 10 ^ 6)
      else let dabs = fold max (map f64_abs (tl finite)) (f64_abs (hd finite))
           in if isfinite dabs \<and> flt (Fin 0) dabs then max (round_f64 (1 / 10 ^ 9)) (fmul (round_f64 (1 / 20)) dabs)
              else round_f64 (1 / 10 ^ 6))"

definition collapse_dcg_cpu_power_gauge_group :: "frame_ops \<Rightarrow> delta_row list \<Rightarrow> f64 \<times> f64" where
  "collapse_dcg_cpu_power_gauge_group ops g =
     (let dvals = map d_delta g in
      (cluster_mean_sum_sorted ops (map d_value g) (Fin 1),
       cluster_mean_sum_sorted ops dvals (dcg_delta_gap_threshold dvals)))"

definition collapse_dcg_cpu_power_vectorized ::
  "frame_ops \<Rightarrow> (delta_row \<Rightarrow> group_key) \<Rightarrow> (group_key \<Rightarrow> f64 \<times> f64 \<Rightarrow> string \<Rightarrow> delta_row) \<Rightarrow> delta_row list \<Rightarrow> delta_row list"
where
  "collapse_dcg_cpu_power_vectorized ops cols mk ccm_df =
     map (\<lambda>(k, g). let vals = map d_value g; dvals = map d_delta g in
       mk k (cluster_mean_sum_sorted ops vals (Fin 1),
             cluster_mean_sum_sorted ops dvals (dcg_delta_gap_threshold dvals)) (d_jid (hd g)))
     (group_rows_by ops cols ccm_df)"

subsection \<open>NVIDIA GPUs\<close>

datatype agg_class = Class_Sum | Class_Max | Class_Mean | Class_Or

definition NVIDIA_GPU_SUM_EVENTS :: "string list" where
  "NVIDIA_GPU_SUM_EVENTS = [''gpu_util'', ''gpu_io_link_total_bytes'', ''mem_util'', ''mem_used_mb'', ''mem_total_mb'',
     ''gpu_mem_util'', ''gpu_mem_used_mb'', ''gpu_mem_total_mb'', ''fp64_active'', ''fp32_active'', ''fp16_active'',
     ''sm_active'', ''sm_occupancy'', ''tensor_active'', ''power_usage'']"

definition NVIDIA_GPU_MAX_EVENTS :: "string list" where
  "NVIDIA_GPU_MAX_EVENTS = [''module_power_usage'', ''sysio_power_usage'', ''gpu_count'']"

definition NVIDIA_GPU_MEAN_EVENTS :: "string list" where
  "NVIDIA_GPU_MEAN_EVENTS = [''temperature'']"

definition NVIDIA_GPU_OR_EVENTS :: "string list" where
  "NVIDIA_GPU_OR_EVENTS = [''clocks_event_reasons'']"

definition NVIDIA_EVENT_TO_CLASS :: "(string \<times> agg_class) list" where
  "NVIDIA_EVENT_TO_CLASS = map (\<lambda>e. (e, Class_Sum)) NVIDIA_GPU_SUM_EVENTS @ map (\<lambda>e. (e, Class_Max)) NVIDIA_GPU_MAX_EVENTS
     @ map (\<lambda>e. (e, Class_Mean)) NVIDIA_GPU_MEAN_EVENTS @ map (\<lambda>e. (e, Class_Or)) NVIDIA_GPU_OR_EVENTS"

definition event_class :: "string \<Rightarrow> agg_class" where
  "event_class e = (case dget NVIDIA_EVENT_TO_CLASS e of None \<Rightarrow> Class_Sum | Some c \<Rightarrow> c)"

definition or_value :: "f64 \<Rightarrow> bool" where
  "or_value v = (isfinite v \<and> flt v (Fin DCGM_FP64_BLANK))"

definition nvidia_bitwise_or_values :: "frame_ops \<Rightarrow> f64 list \<Rightarrow> f64" where
  "nvidia_bitwise_or_values ops vals =
     (let finite = filter or_value vals in
      if finite = [] then Fin 0
      else of_int_f64 (foldl (OR) (astype_uint64 ops (hd finite)) (map (astype_uint64 ops) (tl finite)) AND (2 ^ 64 - 1)))"

definition nvidia_nan_out_dcgm_blanks :: "delta_row list \<Rightarrow> delta_row list" where
  "nvidia_nan_out_dcgm_blanks nv_df =
     (if nv_df = [] \<or> \<not> (\<exists>d \<in> set nv_df. fp64_blank (d_value d)) then nv_df
      else map2 (\<lambda>d v. d\<lparr>d_value := v\<rparr>) nv_df (nan_out_dcgm_numeric_blanks (map d_value nv_df)))"

definition or_delta :: "frame_ops \<Rightarrow> f64 list \<Rightarrow> f64" where
  \<comment> \<open>The sum, kept where the count of non-missing deltas is positive.\<close>
  "or_delta ops ds = (if filter (\<lambda>v. v \<noteq> NaN) ds \<noteq> [] then agg_sum ops ds else NaN)"

definition class_agg :: "frame_ops \<Rightarrow> agg_class \<Rightarrow> delta_row list \<Rightarrow> f64 \<times> f64" where
  "class_agg ops c g = (let vs = map d_value g; ds = map d_delta g in
     case c of Class_Sum \<Rightarrow> sum_group ops g
     | Class_Max \<Rightarrow> (agg_max ops vs, agg_mean ops ds)
     | Class_Mean \<Rightarrow> (agg_mean ops vs, agg_mean ops ds)
     | Class_Or \<Rightarrow> (nvidia_bitwise_or_values ops vs, or_delta ops ds))"

definition class_rows :: "agg_class \<Rightarrow> delta_row list \<Rightarrow> delta_row list" where
  "class_rows c nv_df = filter (\<lambda>d. event_class (d_event d) = c) nv_df"

definition unique_value :: "frame_ops \<Rightarrow> delta_row \<Rightarrow> f64" where
  \<comment> \<open>The value of a row with a unique key: reasons bits go through the integer cast.\<close>
  "unique_value ops d = (if event_class (d_event d) = Class_Or
     then (if or_value (d_value d) then of_int_f64 (astype_uint64 ops (d_value d)) else Fin 0) else d_value d)"

definition collapse_nvidia_gpu_vectorized ::
  "frame_ops \<Rightarrow> (delta_row \<Rightarrow> group_key) \<Rightarrow> (group_key \<Rightarrow> f64 \<times> f64 \<Rightarrow> string \<Rightarrow> delta_row) \<Rightarrow> delta_row list \<Rightarrow> delta_row list"
where
  "collapse_nvidia_gpu_vectorized ops cols mk nv_df0 =
     (let nv_df = nvidia_nan_out_dcgm_blanks nv_df0 in
      if nv_df = [] then []
      else if distinct (map cols nv_df) then map (\<lambda>d. mk (cols d) (unique_value ops d, d_delta d) (d_jid d)) nv_df
      else groupby_sum_min_count ops cols mk False (class_rows Class_Sum nv_df)
        @ concat (map (\<lambda>c. aggregate mk (class_agg ops c) (group_rows_by ops cols (class_rows c nv_df)))
            [Class_Max, Class_Mean, Class_Or]))"

definition collapse_nvidia_gpu_group :: "frame_ops \<Rightarrow> delta_row list \<Rightarrow> (f64 \<times> f64) res" where
  \<comment> \<open>The per-group function: reasons bits are collected with \<^verbatim>\<open>int(v)\<close>, which raises on an infinity. Its sums, means and
      maxima are those of a series, which are other routines than those of a group-by.\<close>
  "collapse_nvidia_gpu_group ops g =
     (let event_name = d_event (hd g); vs = nan_out_dcgm_numeric_blanks (map d_value g); ds = map d_delta g in
      if event_name \<in> set NVIDIA_GPU_MAX_EVENTS then Inr (series_max ops vs, series_mean ops ds)
      else if event_name \<in> set NVIDIA_GPU_SUM_EVENTS then Inr (series_sum_min_count1 ops vs, series_sum_min_count1 ops ds)
      else if event_name \<in> set NVIDIA_GPU_MEAN_EVENTS then Inr (series_mean ops vs, series_mean ops ds)
      else if event_name \<in> set NVIDIA_GPU_OR_EVENTS then
        bindE (foldE (\<lambda>acc v. if v = NaN then Inr acc
             else bindE (is_dcgm_numeric_blank (PyFloat v)) (\<lambda>b. if b then Inr acc
               else bindE (trunc_f64 v) (\<lambda>n. Inr (acc OR (n AND (2 ^ 64 - 1)))))) 0 vs)
          (\<lambda>acc. Inr (of_int_f64 (acc AND (2 ^ 64 - 1)), series_sum_min_count1 ops ds))
      else Inr (series_sum_min_count1 ops vs, series_sum_min_count1 ops ds))"

subsection \<open>All rows of a frame\<close>

definition HOST_CPU_HW_TYPES :: "string list" where
  "HOST_CPU_HW_TYPES = [''host_cpu_hw'', ''cpu_counter_metrics'']"

definition DCGM_CPU_POWER_SOCKET_GAUGE_EVENTS :: "string list" where
  "DCGM_CPU_POWER_SOCKET_GAUGE_EVENTS =
     [''dcgm_cpu_power_util_w'', ''dcgm_cpu_power_limit_w'', ''DCGM_CPU_POWER_UTIL_W'', ''DCGM_CPU_POWER_LIMIT_W'']"

definition job_stamped :: "delta_row \<Rightarrow> bool" where
  "job_stamped d = startswith (d_dev d) ''j:''"

definition partition_job_stamped_rows :: "delta_row list \<Rightarrow> delta_row list \<times> delta_row list" where
  "partition_job_stamped_rows df =
     (if df = [] then (df, [])
      else if \<not> (\<exists>d \<in> set df. job_stamped d) then (df, [])
      else (filter (\<lambda>d. \<not> job_stamped d) df, filter job_stamped df))"

definition ccm_power :: "delta_row \<Rightarrow> bool" where
  "ccm_power d = (d_type d \<in> set HOST_CPU_HW_TYPES \<and> d_event d \<in> set DCGM_CPU_POWER_SOCKET_GAUGE_EVENTS)"

definition collapse_parts :: "frame_ops \<Rightarrow> delta_row list \<Rightarrow> delta_row list" where
  \<comment> \<open>The concatenated parts before the final sort.\<close>
  "collapse_parts ops df =
     (let nv_df = filter (\<lambda>d. d_type d = ''nvidia_gpu'') df;
          other_gpu_df = filter (\<lambda>d. d_type d \<in> {''amd_gpu'', ''intel_gpu''}) df;
          rest_df = filter (\<lambda>d. d_type d \<notin> set GPU_STATS_TYPES) df;
          (rest_plain, rest_job) = partition_job_stamped_rows (filter (\<lambda>d. \<not> ccm_power d) rest_df);
          (ccm_plain, ccm_job) = partition_job_stamped_rows (filter ccm_power rest_df)
      in groupby_sum_min_count ops gcols row_no_dev True rest_plain
        @ groupby_sum_min_count ops gcols_gpu row_with_dev True rest_job
        @ collapse_dcg_cpu_power_vectorized ops gcols row_no_dev ccm_plain
        @ collapse_dcg_cpu_power_vectorized ops gcols_gpu row_with_dev ccm_job
        @ groupby_sum_min_count ops gcols_gpu row_with_dev False other_gpu_df
        @ collapse_nvidia_gpu_vectorized ops gcols_gpu row_with_dev nv_df)"

definition collapse_stats_with_deltas :: "frame_ops \<Rightarrow> delta_row list \<Rightarrow> delta_row list" where
  "collapse_stats_with_deltas ops df =
     (let collapsed = collapse_parts ops df
      in map ((!) collapsed) (sort_values ops (map counter_time collapsed)))"

subsection \<open>Shortcuts for unique keys\<close>

definition timed :: "delta_row list \<Rightarrow> bool" where
  "timed df \<longleftrightarrow> (\<forall>d \<in> set df. d_time d \<noteq> NaN)"

lemma cols_time [simp]: "snd (gcols d) = d_time d" "snd (gcols_gpu d) = d_time d"
  by (simp_all add: gcols_def gcols_gpu_def)

lemma groupby_sum_groups:
  assumes "grouping_ok ops" "single_ok ops" "\<forall>d \<in> set df. snd (cols d) \<noteq> NaN"
  shows "groupby_sum_min_count ops cols mk assume df = aggregate mk (sum_group ops) (groups cols df)"
proof (cases "\<not> assume \<and> distinct (map cols df)")
  case True
  then show ?thesis using assms(2) groups_distinct[of cols df]
    by (auto simp: groupby_sum_min_count_def aggregate_def sum_group_def single_ok_def groups_def)
next
  case False
  then show ?thesis using group_rows_by_groups[OF assms(1,3)]
    by (auto simp: groupby_sum_min_count_def aggregate_def groups_def)
qed

lemma dcg_vectorized_groups:
  assumes "grouping_ok ops" "\<forall>d \<in> set df. snd (cols d) \<noteq> NaN"
  shows "collapse_dcg_cpu_power_vectorized ops cols mk df =
    aggregate mk (collapse_dcg_cpu_power_gauge_group ops) (groups cols df)"
  by (simp add: collapse_dcg_cpu_power_vectorized_def group_rows_by_groups[OF assms] aggregate_def
      collapse_dcg_cpu_power_gauge_group_def Let_def)

definition clean_row :: "delta_row \<Rightarrow> delta_row" where
  "clean_row d = d\<lparr>d_value := (if fp64_blank (d_value d) then NaN else d_value d)\<rparr>"

lemma clean_row_sel [simp]:
  "d_time (clean_row d) = d_time d" "d_event (clean_row d) = d_event d" "d_delta (clean_row d) = d_delta d"
  "d_jid (clean_row d) = d_jid d" "gcols_gpu (clean_row d) = gcols_gpu d"
  "d_value (clean_row d) = (if fp64_blank (d_value d) then NaN else d_value d)"
  by (simp_all add: clean_row_def gcols_gpu_def)

lemma nan_out_rows: "nvidia_nan_out_dcgm_blanks df = map clean_row df"
proof (cases "\<exists>d \<in> set df. fp64_blank (d_value d)")
  case True
  have "map2 (\<lambda>d v. d\<lparr>d_value := v\<rparr>) df (map f (map d_value df)) = map (\<lambda>d. d\<lparr>d_value := f (d_value d)\<rparr>) df" for f
    by (induction df) auto
  then show ?thesis using True
    by (auto simp: nvidia_nan_out_dcgm_blanks_def nan_out_dcgm_numeric_blanks_def clean_row_def)
next
  case False
  then have "map clean_row df = df" by (intro map_idI) (auto simp: clean_row_def)
  then show ?thesis using False by (auto simp: nvidia_nan_out_dcgm_blanks_def)
qed

lemma mask64: "0 \<le> x \<Longrightarrow> x < 2 ^ 64 \<Longrightarrow> x AND (2 ^ 64 - 1) = (x :: int)"
  using take_bit_eq_mask[of 64 x] take_bit_int_eq_self[of x 64] by (simp add: mask_eq_exp_minus_1)

lemma class_agg_single:
  assumes "single_ok ops" "casting_ok ops"
  shows "class_agg ops (event_class (d_event d)) [d] = (unique_value ops d, d_delta d)"
proof -
  have "or_delta ops [v] = v" for v using assms(1) by (auto simp: or_delta_def single_ok_def)
  moreover have "nvidia_bitwise_or_values ops [v] = (if or_value v then of_int_f64 (astype_uint64 ops v) else Fin 0)" for v
    using assms(2) mask64[of "astype_uint64 ops v"] by (simp add: nvidia_bitwise_or_values_def casting_ok_def)
  ultimately show ?thesis using assms(1)
    by (cases "event_class (d_event d)") (simp_all add: class_agg_def sum_group_def unique_value_def single_ok_def)
qed

definition nv_group :: "frame_ops \<Rightarrow> delta_row list \<Rightarrow> f64 \<times> f64" where
  "nv_group ops g = class_agg ops (event_class (d_event (hd g))) (map clean_row g)"

lemma counter_time_row [simp]:
  "counter_time (row_with_dev k vd j) = ([fst k ! 0, fst k ! 1, fst k ! 2, fst k ! 3], snd k)"
  "counter_time (row_no_dev k vd j) = ([fst k ! 0, fst k ! 1, [], fst k ! 2], snd k)"
  "d_time (row_with_dev k vd j) = snd k" "d_time (row_no_dev k vd j) = snd k"
  by (simp_all add: counter_time_def delta_cols_def row_with_dev_def row_no_dev_def)

lemma aggregate_filter:
  "(\<And>k g. P (mk k (f g) (d_jid (hd g))) = Q k) \<Longrightarrow> filter P (aggregate mk f gs) = aggregate mk f (filter (\<lambda>kg. Q (fst kg)) gs)"
  by (simp add: aggregate_def filter_map o_def split_beta)

lemma class_part:
  "aggregate row_with_dev (class_agg ops c) (groups gcols_gpu (class_rows c (map clean_row df))) =
   filter (\<lambda>d. event_class (d_event d) = c) (aggregate row_with_dev (nv_group ops) (groups gcols_gpu df))"
proof -
  have "class_rows c (map clean_row df) = filter (\<lambda>d. event_class (fst (gcols_gpu d) ! 3) = c) (map clean_row df)"
    by (auto simp: class_rows_def gcols_gpu_def intro: filter_cong)
  then have "groups gcols_gpu (class_rows c (map clean_row df)) =
      filter (\<lambda>kg. event_class (fst (fst kg) ! 3) = c) (map (\<lambda>(k, g). (k, map clean_row g)) (groups gcols_gpu df))"
    using groups_filter[of gcols_gpu "\<lambda>k. event_class (fst k ! 3) = c" "map clean_row df"] by (simp only: groups_map clean_row_sel)
  then have "aggregate row_with_dev (class_agg ops c) (groups gcols_gpu (class_rows c (map clean_row df))) =
      map (\<lambda>(k, g). row_with_dev k (class_agg ops c (map clean_row g)) (d_jid (hd (map clean_row g))))
        (filter (\<lambda>kg. event_class (fst (fst kg) ! 3) = c) (groups gcols_gpu df))"
    by (simp add: aggregate_def filter_map o_def split_beta)
  also have "\<dots> = aggregate row_with_dev (nv_group ops) (filter (\<lambda>kg. event_class (fst (fst kg) ! 3) = c) (groups gcols_gpu df))"
  proof -
    have "event_class (d_event (hd g)) = c \<and> hd (map clean_row g) = clean_row (hd g)"
      if "(k, g) \<in> set (groups gcols_gpu df)" "event_class (fst k ! 3) = c" for k g
      using groups_nonempty[OF that(1)] that(2) by (cases g) (auto simp: gcols_gpu_def)
    then show ?thesis by (auto simp: aggregate_def nv_group_def)
  qed
  also have "\<dots> = filter (\<lambda>d. event_class (d_event d) = c) (aggregate row_with_dev (nv_group ops) (groups gcols_gpu df))"
    by (rule aggregate_filter[symmetric]) (simp add: row_with_dev_def)
  finally show ?thesis .
qed

lemma nvidia_classes:
  assumes "grouping_ok ops" "single_ok ops" "casting_ok ops" "timed df"
  shows "same_classes counter_time (collapse_nvidia_gpu_vectorized ops gcols_gpu row_with_dev df)
    (aggregate row_with_dev (nv_group ops) (groups gcols_gpu df))"
proof (cases "distinct (map gcols_gpu df)")
  case True
  then have d: "distinct (map gcols_gpu (map clean_row df))" by (simp add: o_def)
  have "collapse_nvidia_gpu_vectorized ops gcols_gpu row_with_dev df =
      map (\<lambda>d. row_with_dev (gcols_gpu d) (unique_value ops (clean_row d), d_delta d) (d_jid d)) df"
    using d by (auto simp: collapse_nvidia_gpu_vectorized_def nan_out_rows Let_def)
  also have "\<dots> = aggregate row_with_dev (nv_group ops) (groups gcols_gpu df)"
    using class_agg_single[OF assms(2,3), of "clean_row _"] groups_distinct[OF True]
    by (auto simp: aggregate_def nv_group_def)
  finally show ?thesis by (simp add: same_classes_def)
next
  case False
  then have d: "\<not> distinct (map gcols_gpu (map clean_row df))" "df \<noteq> []" by (auto simp: o_def)
  have t: "\<forall>d \<in> set (class_rows c (map clean_row df)). snd (gcols_gpu d) \<noteq> NaN" for c
    using assms(4) by (auto simp: class_rows_def timed_def)
  have s: "groupby_sum_min_count ops gcols_gpu row_with_dev False (class_rows Class_Sum (map clean_row df)) =
      aggregate row_with_dev (class_agg ops Class_Sum) (groups gcols_gpu (class_rows Class_Sum (map clean_row df)))"
    unfolding groupby_sum_groups[OF assms(1,2) t] by (simp add: aggregate_def class_agg_def)
  have "collapse_nvidia_gpu_vectorized ops gcols_gpu row_with_dev df =
      concat (map (\<lambda>c. filter (\<lambda>d. event_class (d_event d) = c) (aggregate row_with_dev (nv_group ops) (groups gcols_gpu df)))
        [Class_Sum, Class_Max, Class_Mean, Class_Or])"
    using d by (simp add: collapse_nvidia_gpu_vectorized_def nan_out_rows Let_def s class_part group_rows_by_groups[OF assms(1) t]
        del: filter.simps)
  moreover have "same_classes counter_time (concat (map (\<lambda>c. filter (\<lambda>d. event_class (d_event d) = c)
      (aggregate row_with_dev (nv_group ops) (groups gcols_gpu df))) [Class_Sum, Class_Max, Class_Mean, Class_Or]))
      (aggregate row_with_dev (nv_group ops) (groups gcols_gpu df))"
  proof (rule same_classes_parts)
    show "(\<lambda>d. event_class (d_event d)) ` set (aggregate row_with_dev (nv_group ops) (groups gcols_gpu df))
        \<subseteq> set [Class_Sum, Class_Max, Class_Mean, Class_Or]"
    proof (rule image_subsetI)
      fix d
      show "event_class (d_event d) \<in> set [Class_Sum, Class_Max, Class_Mean, Class_Or]"
        by (cases "event_class (d_event d)") simp_all
    qed
  qed (auto simp: counter_time_def delta_cols_def)
  ultimately show ?thesis by simp
qed

subsection \<open>The per-group function\<close>

definition reason_value :: "f64 \<Rightarrow> bool" where
  \<comment> \<open>A missing sample or a non-negative number.\<close>
  "reason_value v = (case v of Fin q \<Rightarrow> 0 \<le> q | NaN \<Rightarrow> True | _ \<Rightarrow> False)"

lemma or_int_bound: "0 \<le> x \<Longrightarrow> 0 \<le> y \<Longrightarrow> x < 2 ^ 64 \<Longrightarrow> y < 2 ^ 64 \<Longrightarrow> 0 \<le> x OR y \<and> x OR y < (2 :: int) ^ 64"
  using OR_upper[of x 64 y] or_nonnegative_int_iff[of x y] by simp

lemma reason_fold:
  assumes "casting_ok ops" "\<forall>v \<in> set vs. reason_value v \<and> \<not> fp64_blank v" "0 \<le> acc" "acc < 2 ^ 64"
  shows "foldE (\<lambda>acc v. if v = NaN then Inr acc
      else bindE (is_dcgm_numeric_blank (PyFloat v)) (\<lambda>b. if b then Inr acc
        else bindE (trunc_f64 v) (\<lambda>n. Inr (acc OR (n AND (2 ^ 64 - 1)))))) acc vs =
      Inr (foldl (OR) acc (map (astype_uint64 ops) (filter or_value vs)))"
    and "0 \<le> foldl (OR) acc (map (astype_uint64 ops) ws) \<and> foldl (OR) acc (map (astype_uint64 ops) ws) < 2 ^ 64"
proof -
  show "0 \<le> foldl (OR) acc (map (astype_uint64 ops) ws) \<and> foldl (OR) acc (map (astype_uint64 ops) ws) < 2 ^ 64"
    using assms(3,4)
  proof (induction ws arbitrary: acc)
    case (Cons w ws)
    show ?case using Cons.IH[of "acc OR astype_uint64 ops w"] or_int_bound[of acc "astype_uint64 ops w"] Cons.prems assms(1)
      by (simp add: casting_ok_def)
  qed simp
  show "foldE (\<lambda>acc v. if v = NaN then Inr acc
      else bindE (is_dcgm_numeric_blank (PyFloat v)) (\<lambda>b. if b then Inr acc
        else bindE (trunc_f64 v) (\<lambda>n. Inr (acc OR (n AND (2 ^ 64 - 1)))))) acc vs =
      Inr (foldl (OR) acc (map (astype_uint64 ops) (filter or_value vs)))"
    using assms(2,3,4)
  proof (induction vs arbitrary: acc)
    case (Cons v vs)
    show ?case
    proof (cases v)
      case (Fin q)
      then have q: "0 \<le> q" "q < DCGM_FP64_BLANK" using Cons.prems(1) by (auto simp: reason_value_def fp64_blank_def)
      then have a: "astype_uint64 ops v = \<lfloor>q\<rfloor>" using assms(1) Fin by (simp add: casting_ok_def DCGM_FP64_BLANK_def)
      have f: "0 \<le> \<lfloor>q\<rfloor>" "\<lfloor>q\<rfloor> < 2 ^ 64" using q by (simp_all add: floor_less_iff DCGM_FP64_BLANK_def)
      have "or_value v" using Fin q by (simp add: or_value_def)
      then show ?thesis
        using Cons.IH[of "acc OR \<lfloor>q\<rfloor>"] or_int_bound[OF Cons.prems(2) f(1) Cons.prems(3) f(2)] Cons.prems(1) Fin q a mask64[OF f]
        by (simp add: numeric_blank_float fp64_blank_def del: power_numeral)
    next
      case NaN
      then show ?thesis using Cons by (simp add: or_value_def)
    qed (use Cons.prems in \<open>auto simp: reason_value_def\<close>)
  qed simp
qed

lemma event_class_cases:
  "e \<in> set NVIDIA_GPU_MAX_EVENTS \<Longrightarrow> event_class e = Class_Max"
  "e \<in> set NVIDIA_GPU_SUM_EVENTS \<Longrightarrow> event_class e = Class_Sum"
  "e \<in> set NVIDIA_GPU_MEAN_EVENTS \<Longrightarrow> event_class e = Class_Mean"
  "e \<in> set NVIDIA_GPU_OR_EVENTS \<Longrightarrow> event_class e = Class_Or"
  "e \<notin> set NVIDIA_GPU_MAX_EVENTS \<Longrightarrow> e \<notin> set NVIDIA_GPU_MEAN_EVENTS \<Longrightarrow> e \<notin> set NVIDIA_GPU_OR_EVENTS \<Longrightarrow>
    event_class e = Class_Sum"
  by (auto simp: event_class_def NVIDIA_EVENT_TO_CLASS_def NVIDIA_GPU_MAX_EVENTS_def NVIDIA_GPU_SUM_EVENTS_def
      NVIDIA_GPU_MEAN_EVENTS_def NVIDIA_GPU_OR_EVENTS_def)

lemma nan_out_values: "nan_out_dcgm_numeric_blanks (map d_value g) = map d_value (map clean_row g)"
  by (simp add: nan_out_dcgm_numeric_blanks_def)

definition whole_group :: "delta_row list \<Rightarrow> bool" where
  \<comment> \<open>What the reductions of the group add up are integers of bounded sum.\<close>
  "whole_group g \<longleftrightarrow> whole_values (map d_delta g) \<and>
     (event_class (d_event (hd g)) \<in> {Class_Sum, Class_Mean} \<longrightarrow> whole_values (nan_out_dcgm_numeric_blanks (map d_value g)))"

lemma series_agree:
  assumes "series_ok ops" "whole_values vs"
  shows "series_sum_min_count1 ops vs = sum_min_count1 ops vs" "series_mean ops vs = agg_mean ops vs"
  using assms by (auto simp: series_ok_def sums_whole_def means_whole_def)

lemma or_group:
  assumes "casting_ok ops" "single_ok ops" "\<forall>d \<in> set g. reason_value (d_value d)" "series_ok ops" "whole_group g"
    and or: "d_event (hd g) \<in> set NVIDIA_GPU_OR_EVENTS"
  shows "collapse_nvidia_gpu_group ops g = Inr (nv_group ops g)"
proof -
  let ?vs = "map d_value (map clean_row g)"
  have e: "d_event (hd g) \<notin> set NVIDIA_GPU_MAX_EVENTS" "d_event (hd g) \<notin> set NVIDIA_GPU_SUM_EVENTS"
      "d_event (hd g) \<notin> set NVIDIA_GPU_MEAN_EVENTS"
    using event_class_cases(1-4)[of "d_event (hd g)"] or by auto
  have v: "\<forall>v \<in> set ?vs. reason_value v \<and> \<not> fp64_blank v"
    using assms(3) by (auto simp: reason_value_def fp64_blank_def)
  note f = reason_fold(1)[OF assms(1) v, of 0] reason_fold(2)[OF assms(1) v, of 0 "filter or_value ?vs"]
  let ?x = "foldl (OR) 0 (map (astype_uint64 ops) (filter or_value ?vs))"
  have "nvidia_bitwise_or_values ops ?vs = of_int_f64 (?x AND (2 ^ 64 - 1))"
  proof (cases "filter or_value ?vs")
    case Nil
    then show ?thesis unfolding nvidia_bitwise_or_values_def Let_def Nil by (simp add: of_int_f64_def round_f64_def)
  next
    case (Cons w ws)
    then show ?thesis unfolding nvidia_bitwise_or_values_def Let_def Cons by simp
  qed
  moreover have "or_delta ops (map d_delta g) = series_sum_min_count1 ops (map d_delta g)"
    using assms(2,5) series_agree(1)[OF assms(4)] by (auto simp: or_delta_def single_ok_def whole_group_def filter_empty_conv)
  moreover have "map d_delta (map clean_row g) = map d_delta g" by simp
  ultimately show ?thesis
    using f(1) e or event_class_cases(4)[OF or]
    by (simp add: collapse_nvidia_gpu_group_def nan_out_values nv_group_def class_agg_def Let_def del: power_numeral o_apply map_map)
qed

lemma nvidia_group_eq:
  assumes "casting_ok ops" "single_ok ops" "\<forall>d \<in> set g. d_event d \<in> set NVIDIA_GPU_OR_EVENTS \<longrightarrow> reason_value (d_value d)"
    and "\<forall>d \<in> set g. d_event d = d_event (hd g)" "series_ok ops" "whole_group g"
  shows "collapse_nvidia_gpu_group ops g = Inr (nv_group ops g)"
proof (cases "d_event (hd g) \<in> set NVIDIA_GPU_OR_EVENTS")
  case True
  then show ?thesis using or_group[OF assms(1,2) _ assms(5,6) True] assms(3,4) by auto
next
  case False
  note d = series_agree[OF assms(5), of "map d_delta g"] and v = series_agree[OF assms(5), of "map d_value (map clean_row g)"]
  have m: "series_max ops = agg_max ops" using assms(5) by (simp add: series_ok_def)
  have c: "map d_delta (map clean_row g) = map d_delta g" by simp
  show ?thesis
    using event_class_cases[of "d_event (hd g)"] assms(6) d v False
    unfolding collapse_nvidia_gpu_group_def nv_group_def class_agg_def sum_group_def whole_group_def Let_def nan_out_values c m
    by (auto simp del: map_map)
qed

text \<open>
  C15. The vectorised collapse of NVIDIA rows is the per-group collapse: with its shortcut for
  unique keys, its single pass over event classes and its separate treatment of missing
  values it produces, up to the order of the rows, exactly one row per group with the value
  and the delta that the per-group function computes; that function does not raise. Reasons
  bits have to be missing or non-negative numbers, and what is summed or averaged in a group
  integers of absolute sum below \<open>2 ^ 53\<close>: on other doubles the group-by and the series
  reductions may round differently.
\<close>
theorem nvidia_collapse_per_group:
  assumes "grouping_ok ops" "single_ok ops" "casting_ok ops" "timed df" "series_ok ops"
    and "\<forall>d \<in> set df. d_event d \<in> set NVIDIA_GPU_OR_EVENTS \<longrightarrow> reason_value (d_value d)"
    and "\<forall>(k, g) \<in> set (group_rows_by ops gcols_gpu df). whole_group g"
  shows "\<exists>rows. mapE (\<lambda>(k, g). bindE (collapse_nvidia_gpu_group ops g) (\<lambda>vd. Inr (row_with_dev k vd (d_jid (hd g)))))
      (group_rows_by ops gcols_gpu df) = Inr rows \<and>
    mset (collapse_nvidia_gpu_vectorized ops gcols_gpu row_with_dev df) = mset rows"
proof -
  have g: "group_rows_by ops gcols_gpu df = groups gcols_gpu df"
    using assms(4) by (intro group_rows_by_groups[OF assms(1)]) (simp add: timed_def)
  have "collapse_nvidia_gpu_group ops g = Inr (nv_group ops g)" if "(k, g) \<in> set (groups gcols_gpu df)" for k g
  proof (rule nvidia_group_eq[OF assms(3,2) _ _ assms(5)])
    show "whole_group g" using assms(7) that unfolding g by blast
    note n = groups_nonempty[OF that]
    show "\<forall>d \<in> set g. d_event d \<in> set NVIDIA_GPU_OR_EVENTS \<longrightarrow> reason_value (d_value d)" using n assms(6) by blast
    have "hd g \<in> set g" using n by simp
    then have "gcols_gpu d = gcols_gpu (hd g)" if "d \<in> set g" for d using n that by metis
    then show "\<forall>d \<in> set g. d_event d = d_event (hd g)" by (auto simp: gcols_gpu_def)
  qed
  then have "mapE (\<lambda>(k, g). bindE (collapse_nvidia_gpu_group ops g) (\<lambda>vd. Inr (row_with_dev k vd (d_jid (hd g)))))
      (group_rows_by ops gcols_gpu df) = Inr (aggregate row_with_dev (nv_group ops) (groups gcols_gpu df))"
    unfolding g aggregate_def by (intro mapE_total) auto
  then show ?thesis using same_classes_mset[OF nvidia_classes[OF assms(1-4)]] by blast
qed

definition sample_gpu_rows :: "delta_row list" where
  "sample_gpu_rows = map (\<lambda>(e, v, x). \<lparr>d_time = Fin 10, d_host = ''h'', d_jid = ''9'', d_type = ''nvidia_gpu'', d_dev = ''0'',
     d_event = e, d_value = Fin v, d_unit = ''#'', d_delta = x\<rparr>)
     [(''temperature'', 41, Fin 1), (''clocks_event_reasons'', 1, NaN), (''temperature'', 44, NaN),
      (''power_usage'', 300, Fin 5), (''clocks_event_reasons'', 6, NaN), (''power_usage'', 140737488355328, Fin 7)]"

theorem nvidia_collapse_per_group_witness:
  "map (\<lambda>d. (d_value d, d_delta d)) (collapse_nvidia_gpu_vectorized model_ops gcols_gpu row_with_dev sample_gpu_rows) =
     [(Fin 300, Fin 12), (Fin (85 / 2), Fin 1), (Fin 7, NaN)] \<and>
   (\<exists>rows. mapE (\<lambda>(k, g). bindE (collapse_nvidia_gpu_group model_ops g) (\<lambda>vd. Inr (row_with_dev k vd (d_jid (hd g)))))
      (group_rows_by model_ops gcols_gpu sample_gpu_rows) = Inr rows \<and>
    mset (collapse_nvidia_gpu_vectorized model_ops gcols_gpu row_with_dev sample_gpu_rows) = mset rows)"
proof -
  have v: "map (\<lambda>d. (d_value d, d_delta d)) (collapse_nvidia_gpu_vectorized model_ops gcols_gpu row_with_dev sample_gpu_rows) =
     [(Fin 300, Fin 12), (Fin (85 / 2), Fin 1), (Fin 7, NaN)]" by code_simp
  have t: "timed sample_gpu_rows"
    and r: "\<forall>d \<in> set sample_gpu_rows. d_event d \<in> set NVIDIA_GPU_OR_EVENTS \<longrightarrow> reason_value (d_value d)"
    by (auto simp: sample_gpu_rows_def timed_def reason_value_def NVIDIA_GPU_OR_EVENTS_def)
  have "list_all (\<lambda>(k, g). whole_group g) (group_rows_by model_ops gcols_gpu sample_gpu_rows)" by code_simp
  then have "\<forall>(k, g) \<in> set (group_rows_by model_ops gcols_gpu sample_gpu_rows). whole_group g" by (simp only: list_all_iff)
  from nvidia_collapse_per_group[OF model_ops_ok(4-6) t model_series_ok r this] v show ?thesis by blast
qed

subsection \<open>Gauges do not depend on the order of rows\<close>

lemma sort_mset: "mset xs = mset ys \<Longrightarrow> sort xs = sort (ys :: 'a :: linorder list)"
  by (metis mset_sort properties_for_sort sorted_sort)

lemma cluster_mset:
  assumes "sorting_ok ops" "mset vs = mset ws"
  shows "cluster_mean_sum_sorted ops vs gap = cluster_mean_sum_sorted ops ws gap"
proof -
  let ?f = "\<lambda>vs. filter isfinite (nan_out_dcgm_numeric_blanks vs)"
  have "mset (?f vs) = mset (?f ws)" using assms(2) by (simp add: nan_out_dcgm_numeric_blanks_def)
  from sort_mset[OF this] have "sort_f64 ops (?f vs) = sort_f64 ops (?f ws)" using assms(1) by (simp add: sorting_ok_def)
  then show ?thesis unfolding cluster_mean_sum_sorted_def by simp
qed

lemma gap_threshold_mset:
  assumes "mset vs = mset ws"
  shows "dcg_delta_gap_threshold vs = dcg_delta_gap_threshold ws"
proof -
  let ?f = "filter isfinite"
  have m: "mset (?f vs) = mset (?f ws)" using assms by simp
  have "fold max (map f64_abs (tl xs)) (f64_abs (hd xs)) = Max (f64_abs ` set xs)" if "xs \<noteq> []" for xs
    using that Max.set_eq_fold[of "f64_abs (hd xs)" "map f64_abs (tl xs)"] by (cases xs) auto
  moreover have "set (?f vs) = set (?f ws)" "?f vs = [] \<longleftrightarrow> ?f ws = []"
    using mset_eq_setD[OF m] by (simp, metis m mset_zero_iff)
  ultimately show ?thesis unfolding dcg_delta_gap_threshold_def Let_def by simp
qed

lemma gauge_group_mset:
  assumes "sorting_ok ops" "mset g = mset g'"
  shows "collapse_dcg_cpu_power_gauge_group ops g = collapse_dcg_cpu_power_gauge_group ops g'"
proof -
  have m: "mset (map f g) = mset (map f g')" for f :: "delta_row \<Rightarrow> f64" using assms(2) by simp
  show ?thesis
    using cluster_mset[OF assms(1) m] gap_threshold_mset[OF m] by (simp add: collapse_dcg_cpu_power_gauge_group_def Let_def)
qed

subsection \<open>The collapse works time by time\<close>

type_synonym collapse_rule =
  "(delta_row \<Rightarrow> bool) \<times> (delta_row \<Rightarrow> group_key) \<times> (group_key \<Rightarrow> f64 \<times> f64 \<Rightarrow> string \<Rightarrow> delta_row) \<times> (delta_row list \<Rightarrow> f64 \<times> f64)"

definition host_rows :: "bool \<Rightarrow> bool \<Rightarrow> delta_row \<Rightarrow> bool" where
  "host_rows ccm job d = (d_type d \<notin> set GPU_STATS_TYPES \<and> ccm_power d = ccm \<and> job_stamped d = job)"

definition collapse_rules :: "frame_ops \<Rightarrow> collapse_rule list" where
  \<comment> \<open>What the collapse promises: which rows, grouped how, aggregated by what.\<close>
  "collapse_rules ops =
     [(host_rows False False, gcols, row_no_dev, sum_group ops),
      (host_rows False True, gcols_gpu, row_with_dev, sum_group ops),
      (host_rows True False, gcols, row_no_dev, collapse_dcg_cpu_power_gauge_group ops),
      (host_rows True True, gcols_gpu, row_with_dev, collapse_dcg_cpu_power_gauge_group ops),
      (\<lambda>d. d_type d \<in> {''amd_gpu'', ''intel_gpu''}, gcols_gpu, row_with_dev, sum_group ops),
      (\<lambda>d. d_type d = ''nvidia_gpu'', gcols_gpu, row_with_dev, nv_group ops)]"

definition collapse_spec :: "frame_ops \<Rightarrow> delta_row list \<Rightarrow> delta_row list" where
  "collapse_spec ops df = concat (map (\<lambda>(p, cols, mk, f). aggregate mk f (groups cols (filter p df))) (collapse_rules ops))"

lemma partition_rows: "partition_job_stamped_rows df = (filter (\<lambda>d. \<not> job_stamped d) df, filter job_stamped df)"
proof (cases "\<exists>d \<in> set df. job_stamped d")
  case False
  then have "filter (\<lambda>d. \<not> job_stamped d) df = df" "filter job_stamped df = []" by (simp_all add: filter_id_conv filter_empty_conv)
  then show ?thesis using False by (simp add: partition_job_stamped_rows_def)
qed (auto simp: partition_job_stamped_rows_def)

lemma collapse_parts_spec:
  assumes "grouping_ok ops" "single_ok ops" "casting_ok ops" "timed df"
  shows "same_classes counter_time (collapse_parts ops df) (collapse_spec ops df)"
proof -
  have t: "\<forall>d \<in> set (filter p df). snd (gcols d) \<noteq> NaN" "\<forall>d \<in> set (filter p df). snd (gcols_gpu d) \<noteq> NaN" "timed (filter p df)" for p
    using assms(4) by (auto simp: timed_def)
  have h: "filter (\<lambda>d. \<not> job_stamped d) (filter (\<lambda>d. \<not> ccm_power d) (filter (\<lambda>d. d_type d \<notin> set GPU_STATS_TYPES) df)) = filter (host_rows False False) df"
    "filter job_stamped (filter (\<lambda>d. \<not> ccm_power d) (filter (\<lambda>d. d_type d \<notin> set GPU_STATS_TYPES) df)) = filter (host_rows False True) df"
    "filter (\<lambda>d. \<not> job_stamped d) (filter ccm_power (filter (\<lambda>d. d_type d \<notin> set GPU_STATS_TYPES) df)) = filter (host_rows True False) df"
    "filter job_stamped (filter ccm_power (filter (\<lambda>d. d_type d \<notin> set GPU_STATS_TYPES) df)) = filter (host_rows True True) df"
    unfolding filter_filter by (rule filter_cong[OF refl], simp only: host_rows_def, blast)+
  let ?nv = "filter (\<lambda>d. d_type d = ''nvidia_gpu'') df"
  have "collapse_parts ops df = concat (map (\<lambda>(p, cols, mk, f). aggregate mk f (groups cols (filter p df))) (butlast (collapse_rules ops)))
      @ collapse_nvidia_gpu_vectorized ops gcols_gpu row_with_dev ?nv"
    unfolding collapse_parts_def Let_def partition_rows split_conv h groupby_sum_groups[OF assms(1,2) t(1)]
      groupby_sum_groups[OF assms(1,2) t(2)] dcg_vectorized_groups[OF assms(1) t(1)] dcg_vectorized_groups[OF assms(1) t(2)]
    by (simp add: collapse_rules_def)
  moreover have "collapse_spec ops df = concat (map (\<lambda>(p, cols, mk, f). aggregate mk f (groups cols (filter p df))) (butlast (collapse_rules ops)))
      @ aggregate row_with_dev (nv_group ops) (groups gcols_gpu ?nv)"
    by (simp add: collapse_spec_def collapse_rules_def)
  ultimately show ?thesis
    using nvidia_classes[OF assms(1-3) t(3)] by (simp add: same_classes_def)
qed

lemma collapse_stats_spec:
  assumes "sorting_ok ops" "grouping_ok ops" "single_ok ops" "casting_ok ops" "timed df"
  shows "collapse_stats_with_deltas ops df = sort_key counter_time (collapse_spec ops df)"
proof -
  let ?c = "collapse_parts ops df"
  have "sort_values ops (map counter_time ?c) = sort_key (\<lambda>i. map counter_time ?c ! i) [0..<length ?c]"
    using assms(1) by (simp add: sorting_ok_def)
  also have "\<dots> = sort_key (\<lambda>i. counter_time (?c ! i)) [0..<length ?c]" by (rule sort_key_order_iso) auto
  finally have "collapse_stats_with_deltas ops df = sort_key counter_time ?c"
    by (simp add: collapse_stats_with_deltas_def Let_def sort_positions)
  then show ?thesis using same_classes_sort[OF collapse_parts_spec[OF assms(2-5)]] by simp
qed

lemma collapse_spec_time:
  "filter (\<lambda>d. d_time d = t) (collapse_spec ops df) = collapse_spec ops (filter (\<lambda>d. d_time d = t) df)"
proof -
  have *: "filter (\<lambda>d. d_time d = t) (aggregate mk f (groups cols (filter p df))) =
      aggregate mk f (groups cols (filter p (filter (\<lambda>d. d_time d = t) df)))"
    if "(p, cols, mk, f) \<in> set (collapse_rules ops)" for p cols mk f
  proof -
    have c: "snd (cols d) = d_time d" "d_time (mk k vd j) = snd k" for d k vd j
      using that by (auto simp: collapse_rules_def)
    have "filter p (filter (\<lambda>d. d_time d = t) df) = filter (\<lambda>d. snd (cols d) = t) (filter p df)"
      by (auto simp: filter_filter c intro!: filter_cong)
    then show ?thesis using groups_filter[of cols "\<lambda>k. snd k = t" "filter p df"]
      by (simp add: aggregate_filter[where Q = "\<lambda>k. snd k = t"] c)
  qed
  show ?thesis
    unfolding collapse_spec_def filter_concat map_map
    by (rule arg_cong[of _ _ concat], rule map_cong[OF refl]) (use * in \<open>auto simp: o_def\<close>)
qed

end
