(* ===== verification/Counter_Arcs.thy ===== *)
theory Counter_Arcs
  imports Sample_Collapse
begin

text \<open>
  Rates of change and the two entry points of the counter pipeline of
  \<^verbatim>\<open>dbload/lib/sync_timedb_parsing.py\<close>: \<^verbatim>\<open>_apply_arc_and_finalize\<close> divides the delta of a collapsed
  row by the time since the previous row of its counter, \<^verbatim>\<open>compute_deltas_and_arc\<close> runs the
  pipeline on a whole frame and \<^verbatim>\<open>compute_deltas_and_arc_chunk\<close> on one chunk with a carry.
  The main result, \<open>chunks_equal_frame\<close>: feeding the chunks of a file one after the other yields,
  up to the final order, the rows the whole frame yields.
\<close>

subsection \<open>Arcs\<close>

record arc_row =
  a_row :: delta_row
  a_arc :: f64

definition carry_arcs :: "(counter_key \<times> f64) list \<Rightarrow> delta_row list \<Rightarrow> nat list \<Rightarrow> f64 list \<Rightarrow> f64 list" where
  "carry_arcs arcd df heads as = foldl (\<lambda>as i.
     (case dget arcd (delta_cols (df ! i)) of
        None \<Rightarrow> as
      | Some prev_time \<Rightarrow>
          (let dt = fsub (d_time (df ! i)) prev_time
           in if flt (Fin 0) dt \<and> isfinite (d_delta (df ! i)) then as[i := fdiv (d_delta (df ! i)) dt] else as))) as heads"

definition carry_times :: "delta_row list \<Rightarrow> nat list \<Rightarrow> (counter_key \<times> f64) list \<Rightarrow> (counter_key \<times> f64) list" where
  "carry_times df tails arcd = foldl (\<lambda>d i. dset (delta_cols (df ! i)) (d_time (df ! i)) d) arcd tails"

definition arc_present :: "arc_row \<Rightarrow> bool" where
  \<comment> \<open>\<^verbatim>\<open>dropna(subset=[host, type, event, time, value])\<close>; the strings are never missing.\<close>
  "arc_present a = (d_time (a_row a) \<noteq> NaN \<and> d_value (a_row a) \<noteq> NaN)"

definition apply_arc_and_finalize :: "frame_ops \<Rightarrow> delta_row list \<Rightarrow> delta_carry option \<Rightarrow> arc_row list \<times> delta_carry option" where
  "apply_arc_and_finalize ops df carry =
     (let ks = map delta_cols df; prevs = group_prev ops ks; times = map d_time df;
          deltat = map (\<lambda>i. case prevs ! i of None \<Rightarrow> NaN | Some j \<Rightarrow> fsub (times ! i) (times ! j)) [0..<length df];
          as0 = map2 (\<lambda>d dt. if flt (Fin 0) dt \<and> isfinite dt then fdiv (d_delta d) dt else NaN) df deltat;
          as = (case carry of None \<Rightarrow> as0 | Some c \<Rightarrow> if arc c = [] then as0 else carry_arcs (arc c) df (group_heads ops ks) as0)
      in (filter arc_present (map2 (\<lambda>d a. \<lparr>a_row = d, a_arc = a\<rparr>) df as),
          map_option (\<lambda>c. c\<lparr>arc := carry_times df (group_tails ops ks) (arc c)\<rparr>) carry))"

subsection \<open>Entry points\<close>

record stats_frame =
  columns :: "string list"
  key_columns :: "column list"
  frame_rows :: "stats_row list"

definition required_delta_cols :: "string list" where
  "required_delta_cols = [''host'', ''type'', ''dev'', ''event'', ''unit'', ''time'', ''value'', ''wid'', ''mult'']"

definition stats_df_has_required_delta_cols :: "stats_frame \<Rightarrow> bool" where
  "stats_df_has_required_delta_cols df = (frame_rows df \<noteq> [] \<and> set required_delta_cols \<subseteq> set (columns df))"

definition compute_deltas_and_arc :: "frame_ops \<Rightarrow> stats_frame \<Rightarrow> arc_row list" where
  "compute_deltas_and_arc ops df =
     (if \<not> stats_df_has_required_delta_cols df then []
      else let deltas = fst (apply_counter_deltas ops (key_columns df) (frame_rows df) None);
               collapsed = collapse_stats_with_deltas ops deltas
           in if collapsed = [] then [] else fst (apply_arc_and_finalize ops collapsed None))"

definition compute_deltas_and_arc_chunk :: "frame_ops \<Rightarrow> stats_frame \<Rightarrow> delta_carry option \<Rightarrow> (arc_row list \<times> delta_carry option) res" where
  "compute_deltas_and_arc_chunk ops df carry =
     (if carry = None then Inl ValueError
      else if \<not> stats_df_has_required_delta_cols df then Inr ([], carry)
      else let (deltas, carry') = apply_counter_deltas ops (key_columns df) (frame_rows df) carry;
               collapsed = collapse_stats_with_deltas ops deltas
           in if collapsed = [] then Inr ([], carry') else Inr (apply_arc_and_finalize ops collapsed carry'))"

fun compute_chunks :: "frame_ops \<Rightarrow> stats_frame list \<Rightarrow> delta_carry option \<Rightarrow> (arc_row list \<times> delta_carry option) res" where
  \<comment> \<open>The callback of the streaming parse: every chunk with the carry of the previous one.\<close>
  "compute_chunks ops [] carry = Inr ([], carry)"
| "compute_chunks ops (df # dfs) carry =
     bindE (compute_deltas_and_arc_chunk ops df carry) (\<lambda>(rows, carry').
       bindE (compute_chunks ops dfs carry') (\<lambda>(rows', carry''). Inr (rows @ rows', carry'')))"

subsection \<open>Arcs as a scan\<close>

definition arc_of :: "f64 option \<Rightarrow> delta_row \<Rightarrow> f64" where
  "arc_of prev d = (case prev of None \<Rightarrow> NaN
     | Some t \<Rightarrow> (let dt = fsub (d_time d) t in if flt (Fin 0) dt \<and> isfinite dt then fdiv (d_delta d) dt else NaN))"

definition arc_scan :: "(counter_key \<Rightarrow> f64 option) \<Rightarrow> delta_row list \<Rightarrow> arc_row list" where
  "arc_scan st df = map (\<lambda>(p, d). \<lparr>a_row = d, a_arc = arc_of p d\<rparr>) (with_prev delta_cols d_time st df)"

definition epoch :: "f64 \<Rightarrow> bool" where
  \<comment> \<open>A time stamp: a non-negative number of at most 53 bits before the point.\<close>
  "epoch t \<longleftrightarrow> (\<exists>q. t = Fin q \<and> 0 \<le> q \<and> q \<le> pow2 53)"

definition finite_or_nan :: "f64 \<Rightarrow> bool" where
  "finite_or_nan v \<longleftrightarrow> v \<noteq> PInf \<and> v \<noteq> NInf"

lemma epoch_diff: "epoch a \<Longrightarrow> epoch b \<Longrightarrow> isfinite (fsub a b)"
proof -
  assume "epoch a" "epoch b"
  then obtain p q where pq: "a = Fin p" "b = Fin q" "0 \<le> p" "p \<le> pow2 53" "0 \<le> q" "q \<le> pow2 53"
    by (auto simp: epoch_def)
  have "isfinite (round_f64 (p - q))"
  proof (cases "q \<le> p")
    case True
    then show ?thesis using round_f64_range[of "p - q" 53] pq by (auto simp: isfinite_iff)
  next
    case False
    then obtain v where "round_f64 (q - p) = Fin v" using round_f64_range[of "q - p" 53] pq by auto
    then show ?thesis using round_f64_minus[of "q - p"] by (simp add: isfinite_iff)
  qed
  then show ?thesis using pq by (simp add: fsub_def)
qed

definition carry_arc :: "(counter_key \<times> f64) list \<Rightarrow> delta_row \<Rightarrow> f64 \<Rightarrow> f64" where
  "carry_arc arcd d a = (case dget arcd (delta_cols d) of None \<Rightarrow> a
     | Some t \<Rightarrow> (let dt = fsub (d_time d) t in if flt (Fin 0) dt \<and> isfinite (d_delta d) then fdiv (d_delta d) dt else a))"

lemma carry_arcs_nth:
  "length (carry_arcs arcd df heads as) = length as"
  "i < length as \<Longrightarrow> carry_arcs arcd df heads as ! i = (if i \<in> set heads then carry_arc arcd (df ! i) (as ! i) else as ! i)"
proof -
  have f: "carry_arcs arcd df heads as = foldl (\<lambda>as i. as[i := carry_arc arcd (df ! i) (as ! i)]) as heads"
    by (auto simp: carry_arcs_def carry_arc_def Let_def fun_eq_iff intro!: arg_cong[of _ _ "\<lambda>f. foldl f as heads"] split: option.split)
  have "carry_arc arcd d (carry_arc arcd d a) = carry_arc arcd d a" for d a
    by (auto simp: carry_arc_def Let_def split: option.split)
  from foldl_updates[of "\<lambda>i. carry_arc arcd (df ! i)", OF this]
  show "length (carry_arcs arcd df heads as) = length as"
    "i < length as \<Longrightarrow> carry_arcs arcd df heads as ! i = (if i \<in> set heads then carry_arc arcd (df ! i) (as ! i) else as ! i)"
    unfolding f by blast+
qed

lemma carry_arc_of:
  assumes "epoch (d_time d)" "finite_or_nan (d_delta d)" "\<And>t. dget arcd (delta_cols d) = Some t \<Longrightarrow> epoch t"
  shows "carry_arc arcd d NaN = arc_of (dget arcd (delta_cols d)) d"
proof (cases "dget arcd (delta_cols d)")
  case (Some t)
  then have "isfinite (fsub (d_time d) t)" using epoch_diff[OF assms(1) assms(3)] by simp
  moreover have "\<not> isfinite (d_delta d) \<Longrightarrow> d_delta d = NaN"
    using assms(2) by (cases "d_delta d") (auto simp: finite_or_nan_def)
  ultimately show ?thesis using Some by (auto simp: carry_arc_def arc_of_def Let_def)
qed (simp add: carry_arc_def arc_of_def)

definition times_of :: "delta_carry option \<Rightarrow> counter_key \<Rightarrow> f64 option" where
  "times_of carry = (case carry of None \<Rightarrow> (\<lambda>_. None) | Some c \<Rightarrow> dget (arc c))"

lemma apply_arc_eq:
  assumes "neighbours_ok ops" "sorted (map delta_cols df)"
    and "\<And>d. d \<in> set df \<Longrightarrow> epoch (d_time d) \<and> finite_or_nan (d_delta d)" "\<And>k t. times_of carry k = Some t \<Longrightarrow> epoch t"
  shows "fst (apply_arc_and_finalize ops df carry) = filter arc_present (arc_scan (times_of carry) df)"
    and "snd (apply_arc_and_finalize ops df (Some c)) = Some c' \<Longrightarrow>
      dget (arc c') = last_vals delta_cols d_time (dget (arc c)) df \<and> raw c' = raw c"
proof -
  let ?ks = "map delta_cols df"
  have p: "group_prev ops ?ks ! i = (if 0 < i \<and> ?ks ! i = ?ks ! (i - 1) then Some (i - 1) else None)" if "i < length df" for i
    using assms(1) prev_position_sorted[OF assms(2), of i] that by (simp add: neighbours_ok_def)
  have h: "group_heads ops ?ks = filter (\<lambda>i. i = 0 \<or> ?ks ! i \<noteq> ?ks ! (i - 1)) [0..<length df]"
    using assms(1) heads_filter[OF assms(2)] by (simp add: neighbours_ok_def)
  define as0 where "as0 = map2 (\<lambda>d dt. if flt (Fin 0) dt \<and> isfinite dt then fdiv (d_delta d) dt else NaN) df
    (map (\<lambda>i. case group_prev ops ?ks ! i of None \<Rightarrow> NaN | Some j \<Rightarrow> fsub (map d_time df ! i) (map d_time df ! j)) [0..<length df])"
  define as where "as = (case carry of None \<Rightarrow> as0 | Some c \<Rightarrow> if arc c = [] then as0 else carry_arcs (arc c) df (group_heads ops ?ks) as0)"
  have l: "length as0 = length df" "length as = length df" by (auto simp: as_def as0_def carry_arcs_nth split: option.split)
  have a0: "as0 ! i = (if i = 0 \<or> ?ks ! i \<noteq> ?ks ! (i - 1) then NaN else arc_of (Some (d_time (df ! (i - 1)))) (df ! i))"
    if i: "i < length df" for i
    using i p[OF i] by (auto simp: as0_def arc_of_def Let_def flt_def)
  have "as ! i = arc_of (fst (with_prev delta_cols d_time (times_of carry) df ! i)) (df ! i)" if i: "i < length df" for i
  proof (cases "i = 0 \<or> ?ks ! i \<noteq> ?ks ! (i - 1)")
    case True
    then have hi: "i \<in> set (group_heads ops ?ks)" using h i by simp
    have "as ! i = arc_of (times_of carry (delta_cols (df ! i))) (df ! i)"
    proof (cases carry)
      case (Some c)
      have "carry_arc (arc c) (df ! i) NaN = arc_of (dget (arc c) (delta_cols (df ! i))) (df ! i)"
        using assms(3)[of "df ! i"] assms(4)[of "delta_cols (df ! i)"] i Some by (intro carry_arc_of) (auto simp: times_of_def)
      then show ?thesis using Some True a0[OF i] hi i l by (simp add: as_def carry_arcs_nth times_of_def arc_of_def)
    qed (use True a0[OF i] in \<open>simp add: as_def times_of_def arc_of_def\<close>)
    then show ?thesis using True i by (simp add: with_prev_nth[OF assms(2)])
  next
    case False
    then have hi: "i \<notin> set (group_heads ops ?ks)" using h by simp
    then have "as ! i = as0 ! i" using i l by (auto simp: as_def carry_arcs_nth split: option.split)
    then show ?thesis using False a0[OF i] i by (simp add: with_prev_nth[OF assms(2)])
  qed
  then have "map2 (\<lambda>d a. \<lparr>a_row = d, a_arc = a\<rparr>) df as = arc_scan (times_of carry) df"
    unfolding arc_scan_def
    by (intro nth_equalityI) (use l with_prev_nth[OF assms(2), of _ d_time "times_of carry"] in \<open>auto simp: split_beta\<close>)
  moreover have "fst (apply_arc_and_finalize ops df carry) = filter arc_present (map2 (\<lambda>d a. \<lparr>a_row = d, a_arc = a\<rparr>) df as)"
    unfolding apply_arc_and_finalize_def Let_def as_def as0_def by simp
  ultimately show "fst (apply_arc_and_finalize ops df carry) = filter arc_present (arc_scan (times_of carry) df)" by simp
  have t: "group_tails ops ?ks = filter (\<lambda>i. ?ks ! i \<notin> set (drop (Suc i) ?ks)) [0..<length df]"
    using assms(1) by (simp add: neighbours_ok_def)
  assume "snd (apply_arc_and_finalize ops df (Some c)) = Some c'"
  then have "c' = c\<lparr>arc := carry_times df (group_tails ops ?ks) (arc c)\<rparr>"
    by (simp add: apply_arc_and_finalize_def Let_def)
  then show "dget (arc c') = last_vals delta_cols d_time (dget (arc c)) df \<and> raw c' = raw c"
    using foldl_tails[of delta_cols df d_time "arc c"] by (simp add: carry_times_def t)
qed

subsection \<open>Chunk by chunk\<close>

definition collapsed :: "frame_ops \<Rightarrow> delta_row list \<Rightarrow> delta_row list" where
  "collapsed ops df = sort_key counter_time (collapse_spec ops df)"

fun delta_run :: "(counter_key \<Rightarrow> f64 option) \<Rightarrow> stats_row list list \<Rightarrow> delta_row list list" where
  "delta_run st [] = []"
| "delta_run st (c # cs) = delta_scan st (sort_rows c) # delta_run (last_vals counter_cols r_value st (sort_rows c)) cs"

definition time_ordered :: "stats_row list list \<Rightarrow> bool" where
  "time_ordered cs = sorted_wrt (\<lambda>c c'. \<forall>x \<in> set c. \<forall>y \<in> set c'. r_time x < r_time y) cs"

definition ordered_deltas :: "delta_row list list \<Rightarrow> bool" where
  "ordered_deltas ds = sorted_wrt (\<lambda>x y. \<forall>a \<in> set x. \<forall>b \<in> set y. d_time a < d_time b) ds"

lemma delta_scan_times: "d \<in> set (delta_scan st (sort_rows c)) \<Longrightarrow> \<exists>r \<in> set c. d_time d = r_time r"
proof -
  assume "d \<in> set (delta_scan st (sort_rows c))"
  then obtain p r where "(p, r) \<in> set (with_prev counter_cols r_value st (sort_rows c))" "d_time d = r_time r"
    by (auto simp: delta_scan_def)
  moreover from imageI[OF this(1), of snd] have "r \<in> set (map snd (with_prev counter_cols r_value st (sort_rows c)))"
    unfolding set_map by simp
  ultimately show ?thesis by (auto simp only: map_snd_with_prev sort_rows_basic)
qed

lemma delta_run_times: "D \<in> set (delta_run st cs) \<Longrightarrow> d \<in> set D \<Longrightarrow> \<exists>c \<in> set cs. \<exists>r \<in> set c. d_time d = r_time r"
  by (induction cs arbitrary: st) (auto dest: delta_scan_times)

lemma ordered_delta_run: "time_ordered cs \<Longrightarrow> ordered_deltas (delta_run st cs)"
proof (induction cs arbitrary: st)
  case (Cons c cs)
  have "d_time a < d_time b" if "D \<in> set (delta_run st' cs)" "a \<in> set (delta_scan st (sort_rows c))" "b \<in> set D" for D a b st'
    using delta_scan_times[OF that(2)] delta_run_times[OF that(1,3)] Cons.prems by (auto simp: time_ordered_def)
  then show ?case using Cons by (simp add: ordered_deltas_def time_ordered_def)
qed (simp add: ordered_deltas_def)

lemma delta_run_classes:
  "time_ordered cs \<Longrightarrow> same_classes delta_cols (delta_scan st (sort_rows (concat cs))) (concat (delta_run st cs))"
proof (induction cs arbitrary: st)
  case Nil
  show ?case by (simp add: same_classes_def sort_rows_def delta_scan_def)
next
  case (Cons c cs)
  have "\<forall>x \<in> set c. \<forall>y \<in> set (concat cs). r_time x \<le> r_time y"
    using Cons.prems by (auto simp: time_ordered_def less_imp_le)
  from delta_scan_key_append[OF this] show ?case
    using Cons.IH[of "last_vals counter_cols r_value st (sort_rows c)"] Cons.prems
    by (simp add: same_classes_def time_ordered_def)
qed

lemma counter_time_finer: "counter_time x = counter_time y \<Longrightarrow> delta_cols x = delta_cols y \<and> d_time x = d_time y"
  by (simp add: counter_time_def)

lemma delta_run_sort:
  assumes "time_ordered cs"
  shows "delta_scan st (sort_rows (concat cs)) = sort_key counter_time (concat (delta_run st cs))"
  by (rule sorted_is_sort[OF sorted_delta_scan], rule same_classes_finer[OF delta_run_classes[OF assms]])
     (erule counter_time_finer[THEN conjunct1])

lemma collapse_spec_Nil [simp]: "collapse_spec ops [] = []"
  by (simp add: collapse_spec_def aggregate_def groups_def split_beta)

lemma collapse_spec_times:
  assumes "d \<in> set (collapse_spec ops df)"
  shows "\<exists>d' \<in> set df. d_time d' = d_time d"
proof (rule ccontr)
  assume "\<not> ?thesis"
  then have "filter (\<lambda>x. d_time x = d_time d) df = []" by (auto simp: filter_empty_conv)
  then have "filter (\<lambda>x. d_time x = d_time d) (collapse_spec ops df) = []" by (simp add: collapse_spec_time)
  then show False using assms by (auto simp: filter_empty_conv)
qed

lemma collapse_run:
  assumes "ordered_deltas ds" "\<forall>D \<in> set ds. sorted (map counter_time D)"
  shows "same_classes d_time (collapse_spec ops (sort_key counter_time (concat ds))) (concat (map (collapse_spec ops) ds))"
  unfolding same_classes_def
proof
  fix t
  let ?f = "filter (\<lambda>d. d_time d = t)"
  have "collapse_spec ops (sort_key counter_time (?f (concat ds))) = concat (map (\<lambda>D. collapse_spec ops (?f D)) ds)"
    using assms
  proof (induction ds)
    case (Cons D ds)
    show ?case
    proof (cases "?f D = []")
      case True
      then show ?thesis using Cons by (simp add: ordered_deltas_def)
    next
      case False
      then obtain a where a: "a \<in> set D" "d_time a = t" by (auto simp: filter_empty_conv)
      have e: "?f E = []" if "E \<in> set ds" for E
        using Cons.prems(1) that a by (fastforce simp: ordered_deltas_def filter_empty_conv)
      then have "?f (concat ds) = []" by (auto simp: filter_concat)
      moreover have "sort_key counter_time (?f D) = ?f D"
        using Cons.prems(2) by (simp flip: filter_sort add: sort_key_id_if_sorted)
      moreover have "concat (map (\<lambda>D. collapse_spec ops (?f D)) ds) = []" using e by simp
      ultimately show ?thesis by simp
    qed
  qed simp
  then show "?f (collapse_spec ops (sort_key counter_time (concat ds))) = ?f (concat (map (collapse_spec ops) ds))"
    by (simp add: collapse_spec_time filter_concat filter_sort o_def)
qed

lemma collapsed_run:
  assumes "ordered_deltas ds" "\<forall>D \<in> set ds. sorted (map counter_time D)"
  shows "collapsed ops (sort_key counter_time (concat ds)) = sort_key counter_time (concat (map (collapsed ops) ds))"
proof -
  have "same_classes counter_time (collapse_spec ops (sort_key counter_time (concat ds))) (concat (map (collapse_spec ops) ds))"
    by (rule same_classes_finer[OF collapse_run[OF assms]]) (erule counter_time_finer[THEN conjunct2])
  moreover have "same_classes counter_time (concat (map (collapsed ops) ds)) (concat (map (collapse_spec ops) ds))"
    by (rule same_classes_concat) (simp add: list_all2_conv_all_nth collapsed_def same_classes_sort_key)
  ultimately have "same_classes counter_time (collapse_spec ops (sort_key counter_time (concat ds))) (concat (map (collapsed ops) ds))"
    by (simp add: same_classes_def)
  then show ?thesis unfolding collapsed_def[of ops "sort_key counter_time (concat ds)"] by (rule same_classes_sort)
qed

lemma ordered_collapsed:
  assumes "ordered_deltas ds"
  shows "ordered_deltas (map (collapsed ops) ds)"
proof -
  have *: "\<forall>a \<in> set (collapsed ops D). \<forall>b \<in> set (collapsed ops E). d_time a < d_time b"
    if "\<forall>a \<in> set D. \<forall>b \<in> set E. d_time a < d_time b" for D E
    using that collapse_spec_times[of _ ops D] collapse_spec_times[of _ ops E] by (fastforce simp: collapsed_def)
  show ?thesis using assms unfolding ordered_deltas_def sorted_wrt_map by (rule sorted_wrt_mono_rel[rotated]) (rule *)
qed

lemma sort_ordered_key:
  assumes "ordered_deltas Cs" "\<forall>C \<in> set Cs. sorted (map counter_time C)"
  shows "same_classes delta_cols (sort_key counter_time (concat Cs)) (concat Cs)"
  unfolding same_classes_def
proof
  fix k
  let ?f = "filter (\<lambda>d. delta_cols d = k)"
  have "sorted (map counter_time (?f (concat Cs)))"
    using assms
  proof (induction Cs)
    case (Cons C Cs)
    have "sorted (map counter_time (?f C))" using Cons.prems(2) by (simp add: sorted_filter)
    moreover have "counter_time a \<le> counter_time b" if "a \<in> set (?f C)" "b \<in> set (?f (concat Cs))" for a b
      using that Cons.prems(1) by (fastforce simp: counter_time_def less_eq_prod_def ordered_deltas_def)
    moreover have "sorted (map counter_time (?f (concat Cs)))" using Cons by (simp add: ordered_deltas_def)
    ultimately show ?case by (auto simp: sorted_append)
  qed simp
  then show "?f (sort_key counter_time (concat Cs)) = ?f (concat Cs)"
    by (simp add: filter_sort sort_key_id_if_sorted)
qed

lemma arc_scan_append: "arc_scan st (xs @ ys) = arc_scan st xs @ arc_scan (last_vals delta_cols d_time st xs) ys"
  by (simp add: arc_scan_def with_prev_append)

lemma arc_scan_classes:
  assumes "same_classes delta_cols xs ys"
  shows "same_classes (\<lambda>a. delta_cols (a_row a)) (arc_scan st xs) (arc_scan st ys)"
proof -
  have "filter (\<lambda>a. delta_cols (a_row a) = k) (arc_scan st zs) = arc_scan st (filter (\<lambda>d. delta_cols d = k) zs)" for k zs
    unfolding arc_scan_def filter_map by (simp add: o_def split_beta filter_with_prev)
  then show ?thesis using assms by (simp add: same_classes_def)
qed

lemma map_arc_scan: "map (\<lambda>a. f (a_row a)) (arc_scan st xs) = map f xs"
proof -
  have "map (\<lambda>a. f (a_row a)) (arc_scan st xs) = map f (map snd (with_prev delta_cols d_time st xs))"
    unfolding arc_scan_def map_map by (simp add: o_def split_beta)
  then show ?thesis by (simp only: map_snd_with_prev)
qed

definition arc_time :: "arc_row \<Rightarrow> group_key" where
  "arc_time a = counter_time (a_row a)"

fun arc_run :: "(counter_key \<Rightarrow> f64 option) \<Rightarrow> delta_row list list \<Rightarrow> arc_row list" where
  "arc_run st [] = []"
| "arc_run st (C # Cs) = filter arc_present (arc_scan st C) @ arc_run (last_vals delta_cols d_time st C) Cs"

lemma arc_run_concat: "arc_run st Cs = filter arc_present (arc_scan st (concat Cs))"
  by (induction Cs arbitrary: st) (auto simp: arc_scan_append, simp add: arc_scan_def)

lemma arc_run_sort:
  assumes "ordered_deltas Cs" "\<forall>C \<in> set Cs. sorted (map counter_time C)"
  shows "filter arc_present (arc_scan st (sort_key counter_time (concat Cs))) = sort_key arc_time (arc_run st Cs)"
proof (rule sorted_is_sort)
  let ?w = "arc_scan st (sort_key counter_time (concat Cs))"
  have "map arc_time ?w = map counter_time (sort_key counter_time (concat Cs))"
    unfolding arc_time_def by (rule map_arc_scan)
  then show "sorted (map arc_time (filter arc_present ?w))" by (simp add: sorted_filter)
  have "same_classes (\<lambda>a. delta_cols (a_row a)) (filter arc_present ?w) (arc_run st Cs)"
    unfolding arc_run_concat by (intro same_classes_filter arc_scan_classes sort_ordered_key assms)
  then show "same_classes arc_time (filter arc_present ?w) (arc_run st Cs)"
    by (rule same_classes_finer) (simp add: arc_time_def counter_time_def)
qed

subsection \<open>The entry points as scans\<close>

definition rows_ok :: "stats_row list \<Rightarrow> bool" where
  "rows_ok rows \<longleftrightarrow> (\<forall>r \<in> set rows. isfinite (r_value r) \<and> epoch (r_time r))"

definition ops_ok :: "frame_ops \<Rightarrow> bool" where
  "ops_ok ops \<longleftrightarrow> sorting_ok ops \<and> coding_ok ops \<and> neighbours_ok ops \<and> grouping_ok ops \<and> single_ok ops \<and> casting_ok ops"

definition frame_good :: "frame_ops \<Rightarrow> stats_frame \<Rightarrow> bool" where
  \<comment> \<open>A frame of the parser: all columns, consistent key columns, finite values, time stamps.\<close>
  "frame_good ops df \<longleftrightarrow> set required_delta_cols \<subseteq> set (columns df) \<and>
     frame_ok ops (key_columns df) (frame_rows df) \<and> rows_ok (frame_rows df)"

definition no_infinite :: "delta_row list \<Rightarrow> bool" where
  "no_infinite C \<longleftrightarrow> (\<forall>d \<in> set C. finite_or_nan (d_delta d))"

lemma epoch_not_nan: "epoch t \<Longrightarrow> t \<noteq> NaN"
  by (auto simp: epoch_def)

lemma deltas_timed: "rows_ok rows \<Longrightarrow> timed (delta_scan st (sort_rows rows))"
  unfolding timed_def rows_ok_def using delta_scan_times epoch_not_nan by metis

lemma sorted_collapsed: "sorted (map delta_cols (collapsed ops D))"
proof -
  have "sorted (map counter_time (collapsed ops D))" by (simp add: collapsed_def)
  then show ?thesis unfolding counter_time_def by (rule sorted_fst)
qed

lemma collapsed_epoch:
  assumes "rows_ok rows" "d \<in> set (collapsed ops (delta_scan st (sort_rows rows)))"
  shows "epoch (d_time d)"
proof -
  obtain d' where "d' \<in> set (delta_scan st (sort_rows rows))" "d_time d' = d_time d"
    using collapse_spec_times[of d ops] assms(2) by (auto simp: collapsed_def)
  then show ?thesis using delta_scan_times[of d' st rows] assms(1) by (auto simp: rows_ok_def)
qed

lemma compute_frame:
  assumes "ops_ok ops" "frame_good ops df"
    and "no_infinite (collapsed ops (delta_scan (\<lambda>_. None) (sort_rows (frame_rows df))))"
  shows "compute_deltas_and_arc ops df =
    filter arc_present (arc_scan (\<lambda>_. None) (collapsed ops (delta_scan (\<lambda>_. None) (sort_rows (frame_rows df)))))"
proof -
  note o = assms(1)[unfolded ops_ok_def] and g = assms(2)[unfolded frame_good_def]
  let ?D = "delta_scan (\<lambda>_. None) (sort_rows (frame_rows df))"
  have n: "carried None = (\<lambda>_. None)" by (simp add: carried_def fun_eq_iff)
  have d: "fst (apply_counter_deltas ops (key_columns df) (frame_rows df) None) = ?D"
    using apply_counter_deltas_eq(1)[of ops _ _ None] o g by (simp add: n)
  have c: "collapse_stats_with_deltas ops ?D = collapsed ops ?D"
    using collapse_stats_spec[of ops ?D] o g deltas_timed by (simp add: collapsed_def)
  have a: "fst (apply_arc_and_finalize ops (collapsed ops ?D) None) = filter arc_present (arc_scan (\<lambda>_. None) (collapsed ops ?D))"
    using apply_arc_eq(1)[OF _ sorted_collapsed, of ops ops ?D None] o g collapsed_epoch[of "frame_rows df" _ ops] assms(3)
    by (auto simp: no_infinite_def times_of_def)
  have "arc_scan st [] = []" "delta_scan st (sort_rows []) = []" for st by (simp_all add: arc_scan_def delta_scan_def sort_rows_def)
  moreover have "collapsed ops [] = []" by (simp add: collapsed_def)
  ultimately show ?thesis
    using a d c g by (auto simp: compute_deltas_and_arc_def stats_df_has_required_delta_cols_def Let_def)
qed

lemma carried_last:
  assumes "rows_ok rows" "dget (raw c') = last_vals counter_cols raw_entry (dget (raw c)) (sort_rows rows)"
  shows "carried (Some c') = last_vals counter_cols r_value (carried (Some c)) (sort_rows rows)"
proof
  fix k
  show "carried (Some c') k = last_vals counter_cols r_value (carried (Some c)) (sort_rows rows) k"
  proof (cases "k \<in> counter_cols ` set rows")
    case True
    let ?l = "last (filter (\<lambda>r. counter_cols r = k) (sort_rows rows))"
    have "?l \<in> set rows"
      using last_in_set[of "filter (\<lambda>r. counter_cols r = k) (sort_rows rows)"] True by (auto simp: filter_empty_conv)
    then show ?thesis using True assms by (simp add: carried_def last_vals_key raw_entry_def rows_ok_def)
  next
    case False
    then show ?thesis using assms(2) by (simp add: carried_def last_vals_key)
  qed
qed

lemma compute_chunk:
  assumes "ops_ok ops" "frame_good ops df" "\<And>k t. dget (arc c) k = Some t \<Longrightarrow> epoch t"
  defines "C \<equiv> collapsed ops (delta_scan (carried (Some c)) (sort_rows (frame_rows df)))"
  assumes "no_infinite C"
  shows "\<exists>c'. compute_deltas_and_arc_chunk ops df (Some c) = Inr (filter arc_present (arc_scan (dget (arc c)) C), Some c') \<and>
    carried (Some c') = last_vals counter_cols r_value (carried (Some c)) (sort_rows (frame_rows df)) \<and>
    dget (arc c') = last_vals delta_cols d_time (dget (arc c)) C \<and> (\<forall>k t. dget (arc c') k = Some t \<longrightarrow> epoch t)"
proof (cases "frame_rows df = []")
  case True
  then have "C = []" by (simp add: C_def collapsed_def sort_rows_def delta_scan_def)
  then show ?thesis using True assms(3)
    by (auto simp: compute_deltas_and_arc_chunk_def stats_df_has_required_delta_cols_def arc_scan_def sort_rows_def)
next
  case False
  note o = assms(1)[unfolded ops_ok_def] and g = assms(2)[unfolded frame_good_def]
  let ?D = "delta_scan (carried (Some c)) (sort_rows (frame_rows df))"
  obtain c1 where p: "apply_counter_deltas ops (key_columns df) (frame_rows df) (Some c) = (?D, Some c1)"
    using apply_counter_deltas_eq(1)[of ops "key_columns df" "frame_rows df" "Some c"] o g
    by (cases "apply_counter_deltas ops (key_columns df) (frame_rows df) (Some c)")
       (auto simp: apply_counter_deltas_def Let_def split_beta)
  have c1: "dget (raw c1) = last_vals counter_cols raw_entry (dget (raw c)) (sort_rows (frame_rows df))" "arc c1 = arc c"
    using apply_counter_deltas_eq(2)[of ops "key_columns df" "frame_rows df" c c1] o g p by simp_all
  have cs: "collapse_stats_with_deltas ops ?D = C"
    using collapse_stats_spec[of ops ?D] o g deltas_timed by (simp add: collapsed_def C_def)
  have e: "epoch (d_time d) \<and> finite_or_nan (d_delta d)" if "d \<in> set C" for d
    using collapsed_epoch[of "frame_rows df" d ops "carried (Some c)"] that g assms(5) by (simp add: C_def no_infinite_def)
  obtain c2 where a: "apply_arc_and_finalize ops C (Some c1) = (filter arc_present (arc_scan (dget (arc c)) C), Some c2)"
    using apply_arc_eq(1)[of ops C "Some c1"] o e sorted_collapsed[of ops ?D] assms(3) c1(2)
    by (cases "apply_arc_and_finalize ops C (Some c1)")
       (auto simp: apply_arc_and_finalize_def Let_def times_of_def C_def)
  have c2: "dget (arc c2) = last_vals delta_cols d_time (dget (arc c)) C" "raw c2 = raw c1"
    using apply_arc_eq(2)[of ops C "Some c1" c1 c2] o e sorted_collapsed[of ops ?D] assms(3) c1(2) a
    by (auto simp: times_of_def C_def)
  have ep: "epoch t" if "last_vals delta_cols d_time (dget (arc c)) C k = Some t" for k t
    using that e last_in_set[of "filter (\<lambda>r. delta_cols r = k) C"] assms(3)
    by (auto simp: last_vals_key filter_empty_conv split: if_splits)
  have req: "stats_df_has_required_delta_cols df" using False g by (simp add: stats_df_has_required_delta_cols_def)
  show ?thesis
  proof (cases "C = []")
    case True
    have "compute_deltas_and_arc_chunk ops df (Some c) = Inr ([], Some c1)"
      using req p cs True by (simp add: compute_deltas_and_arc_chunk_def)
    moreover have "carried (Some c1) = last_vals counter_cols r_value (carried (Some c)) (sort_rows (frame_rows df))"
      using g c1(1) by (intro carried_last) simp_all
    ultimately show ?thesis using True c1(2) assms(3) by (auto simp: arc_scan_def)
  next
    case False
    then have "compute_deltas_and_arc_chunk ops df (Some c) = Inr (filter arc_present (arc_scan (dget (arc c)) C), Some c2)"
      using req p cs a by (simp add: compute_deltas_and_arc_chunk_def)
    moreover have "carried (Some c2) = last_vals counter_cols r_value (carried (Some c)) (sort_rows (frame_rows df))"
      using g c1(1) c2(2) by (intro carried_last) simp_all
    ultimately show ?thesis using c2(1) ep by auto
  qed
qed

lemma compute_chunks_run:
  assumes "ops_ok ops" "\<forall>df \<in> set dfs. frame_good ops df" "\<And>k t. dget (arc c) k = Some t \<Longrightarrow> epoch t"
    and "\<forall>D \<in> set (delta_run (carried (Some c)) (map frame_rows dfs)). no_infinite (collapsed ops D)"
  shows "\<exists>c'. compute_chunks ops dfs (Some c) =
    Inr (arc_run (dget (arc c)) (map (collapsed ops) (delta_run (carried (Some c)) (map frame_rows dfs))), Some c')"
  using assms(2-4)
proof (induction dfs arbitrary: c)
  case (Cons df dfs)
  obtain c' where c': "compute_deltas_and_arc_chunk ops df (Some c) =
      Inr (filter arc_present (arc_scan (dget (arc c)) (collapsed ops (delta_scan (carried (Some c)) (sort_rows (frame_rows df))))), Some c')"
    "carried (Some c') = last_vals counter_cols r_value (carried (Some c)) (sort_rows (frame_rows df))"
    "dget (arc c') = last_vals delta_cols d_time (dget (arc c)) (collapsed ops (delta_scan (carried (Some c)) (sort_rows (frame_rows df))))"
    "\<And>k t. dget (arc c') k = Some t \<Longrightarrow> epoch t"
    using compute_chunk[OF assms(1), of df c] Cons.prems by auto
  have "\<exists>c''. compute_chunks ops dfs (Some c') =
      Inr (arc_run (dget (arc c')) (map (collapsed ops) (delta_run (carried (Some c')) (map frame_rows dfs))), Some c'')"
    by (rule Cons.IH) (use Cons.prems c'(4) in \<open>simp_all add: c'(2)\<close>)
  then show ?case using c'(1) by (auto simp flip: c'(2,3))
qed simp

text \<open>
  C7. Chunks compute what the whole frame computes: when the rows of a file are handed over in
  chunks whose times increase from chunk to chunk, feeding the chunks one after the other
  through \<^verbatim>\<open>compute_deltas_and_arc_chunk\<close> with one carry succeeds and yields, up to the final
  sort, exactly the rows, deltas and rates that \<^verbatim>\<open>compute_deltas_and_arc\<close> yields on the frame of
  all rows. No delta of the whole frame may have overflowed to infinity.
\<close>
theorem chunks_equal_frame:
  assumes "ops_ok ops" "\<forall>df \<in> set dfs. frame_good ops df" "frame_good ops whole"
    and "frame_rows whole = concat (map frame_rows dfs)" "time_ordered (map frame_rows dfs)"
    and "no_infinite (collapse_stats_with_deltas ops (fst (apply_counter_deltas ops (key_columns whole) (frame_rows whole) None)))"
  shows "\<exists>rows carry. compute_chunks ops dfs (Some new_carry) = Inr (rows, carry) \<and>
    compute_deltas_and_arc ops whole = sort_key arc_time rows"
proof -
  let ?n = "\<lambda>_ :: counter_key. None :: f64 option"
  let ?ds = "delta_run ?n (map frame_rows dfs)" and ?w = "delta_scan ?n (sort_rows (frame_rows whole))"
  note o = assms(1)[unfolded ops_ok_def] and g = assms(3)[unfolded frame_good_def]
  have n: "carried None = ?n" "carried (Some new_carry) = ?n" "dget (arc new_carry) = ?n"
    by (simp_all add: carried_def new_carry_def fun_eq_iff)
  have s: "\<forall>D \<in> set (delta_run st cs). sorted (map counter_time D)" for st cs
    by (induction cs arbitrary: st) (auto simp: sorted_delta_scan)
  have w: "?w = sort_key counter_time (concat ?ds)" using delta_run_sort[OF assms(5)] assms(4) by simp
  note od = ordered_delta_run[OF assms(5), of ?n]
  have cw: "collapsed ops ?w = sort_key counter_time (concat (map (collapsed ops) ?ds))"
    unfolding w by (rule collapsed_run[OF od s])
  have "collapse_stats_with_deltas ops ?w = collapsed ops ?w"
    using collapse_stats_spec[of ops ?w] o g deltas_timed by (simp add: collapsed_def)
  then have ni: "no_infinite (collapsed ops ?w)"
    using assms(6) apply_counter_deltas_eq(1)[of ops "key_columns whole" "frame_rows whole" None] o g n(1) by simp
  then have "\<forall>D \<in> set ?ds. no_infinite (collapsed ops D)" unfolding cw by (auto simp: no_infinite_def)
  then obtain c' where c: "compute_chunks ops dfs (Some new_carry) = Inr (arc_run ?n (map (collapsed ops) ?ds), Some c')"
    using compute_chunks_run[OF assms(1,2), of new_carry] n by auto
  have "compute_deltas_and_arc ops whole = filter arc_present (arc_scan ?n (collapsed ops ?w))"
    by (rule compute_frame[OF assms(1,3) ni])
  also have "\<dots> = sort_key arc_time (arc_run ?n (map (collapsed ops) ?ds))"
    unfolding cw by (rule arc_run_sort[OF ordered_collapsed[OF od]]) (auto simp: collapsed_def)
  finally show ?thesis using c by blast
qed

definition frame_of :: "stats_row list \<Rightarrow> stats_frame" where
  "frame_of rows = \<lparr>columns = ''jid'' # required_delta_cols, key_columns = sample_cols rows, frame_rows = rows\<rparr>"

definition sample_chunks :: "stats_row list list" where
  "sample_chunks = [[sample_row ''rx'' 10 4294967290, sample_row ''tx'' 10 7], [sample_row ''rx'' 18 6, sample_row ''tx'' 18 9]]"

lemma frame_of_good:
  assumes "prod_list (code_sizes (map (column_codes model_ops) (sample_cols rows))) < 2 ^ 63" "rows_ok rows"
  shows "frame_good model_ops (frame_of rows)"
  using sample_cols_ok[OF assms(1)] assms(2) by (auto simp: frame_good_def frame_of_def)

lemma sample_chunks_good:
  "\<forall>df \<in> set (map frame_of sample_chunks). frame_good model_ops df" "frame_good model_ops (frame_of (concat sample_chunks))"
proof -
  have r: "\<forall>c \<in> set sample_chunks. rows_ok c" "rows_ok (concat sample_chunks)"
    by (auto simp: rows_ok_def sample_chunks_def sample_row_def epoch_def pow2_def)
  have "\<forall>c \<in> set sample_chunks. prod_list (code_sizes (map (column_codes model_ops) (sample_cols c))) < 2 ^ 63"
    "prod_list (code_sizes (map (column_codes model_ops) (sample_cols (concat sample_chunks)))) < 2 ^ 63" by code_simp+
  then show "\<forall>df \<in> set (map frame_of sample_chunks). frame_good model_ops df" "frame_good model_ops (frame_of (concat sample_chunks))"
    using r frame_of_good by auto
qed

theorem chunks_equal_frame_witness:
  "\<exists>rows carry. compute_chunks model_ops (map frame_of sample_chunks) (Some new_carry) = Inr (rows, carry) \<and>
     compute_deltas_and_arc model_ops (frame_of (concat sample_chunks)) = sort_key arc_time rows \<and>
     map a_arc (sort_key arc_time rows) = [NaN, Fin 6, NaN, Fin 1]"
proof -
  let ?w = "frame_of (concat sample_chunks)"
  have o: "ops_ok model_ops" using model_ops_ok by (simp add: ops_ok_def)
  have r: "frame_rows ?w = concat (map frame_rows (map frame_of sample_chunks))" by (simp add: frame_of_def o_def)
  have t: "time_ordered (map frame_rows (map frame_of sample_chunks))"
    by (simp add: frame_of_def o_def time_ordered_def sample_chunks_def sample_row_def)
  have "list_all (\<lambda>d. d_delta d \<noteq> PInf \<and> d_delta d \<noteq> NInf)
      (collapse_stats_with_deltas model_ops (fst (apply_counter_deltas model_ops (key_columns ?w) (frame_rows ?w) None)))"
    by code_simp
  then have n: "no_infinite (collapse_stats_with_deltas model_ops (fst (apply_counter_deltas model_ops (key_columns ?w) (frame_rows ?w) None)))"
    by (simp add: no_infinite_def finite_or_nan_def list_all_iff)
  have v: "map a_arc (compute_deltas_and_arc model_ops ?w) = [NaN, Fin 6, NaN, Fin 1]" by code_simp
  from chunks_equal_frame[OF o sample_chunks_good r t n] v show ?thesis by metis
qed

end
