(* ===== verification/Json_Values.thy ===== *)
theory Json_Values
  imports Float64 "HOL-Library.List_Lexorder" "HOL-Library.Product_Lexorder" "HOL-Library.Char_ord"
begin

text \<open>
  JSON values as Python holds them after \<^verbatim>\<open>json.load\<close>: \<^verbatim>\<open>None\<close> is \<open>JNull\<close>, dicts are insertion
  ordered. The operations the persistence code applies to them (truth value, \<^verbatim>\<open>or\<close>, \<^verbatim>\<open>get\<close>,
  \<^verbatim>\<open>int\<close>, \<^verbatim>\<open>str\<close>) and the key sorting of \<^verbatim>\<open>json.dump(..., sort_keys=True)\<close>, which no lookup
  can observe. \<^verbatim>\<open>str\<close> of a float, list or dict is a parameter.
\<close>

datatype json = JNull | JBool bool | JInt int | JFloat f64 | JStr string | JList "json list" | JObj "(string \<times> json) list"

fun truthy :: "json \<Rightarrow> bool" where
  "truthy JNull = False"
| "truthy (JBool b) = b"
| "truthy (JInt n) = (n \<noteq> 0)"
| "truthy (JFloat v) = (v \<noteq> Fin 0)"
| "truthy (JStr s) = (s \<noteq> [])"
| "truthy (JList xs) = (xs \<noteq> [])"
| "truthy (JObj kvs) = (kvs \<noteq> [])"

definition jor :: "json \<Rightarrow> json \<Rightarrow> json" where
  \<comment> \<open>\<^verbatim>\<open>a or b\<close>\<close>
  "jor a b = (if truthy a then a else b)"

fun is_obj :: "json \<Rightarrow> bool" where
  "is_obj (JObj _) = True" | "is_obj _ = False"

fun is_list :: "json \<Rightarrow> bool" where
  "is_list (JList _) = True" | "is_list _ = False"

fun obj_of :: "json \<Rightarrow> (string \<times> json) list" where
  "obj_of (JObj kvs) = kvs" | "obj_of _ = []"

definition jget :: "json \<Rightarrow> string \<Rightarrow> json" where
  \<comment> \<open>\<^verbatim>\<open>raw.get(key)\<close> of a dict\<close>
  "jget raw key = (case dget (obj_of raw) key of None \<Rightarrow> JNull | Some v \<Rightarrow> v)"

fun int_of_json :: "json \<Rightarrow> int res" where
  \<comment> \<open>\<^verbatim>\<open>int(value)\<close>\<close>
  "int_of_json (JInt n) = Inr n"
| "int_of_json (JBool b) = Inr (if b then 1 else 0)"
| "int_of_json (JFloat v) = trunc_f64 v"
| "int_of_json (JStr s) = raise_none ValueError (py_int s)"
| "int_of_json _ = Inl TypeError"

fun str_of_json :: "(json \<Rightarrow> string) \<Rightarrow> json \<Rightarrow> string" where
  \<comment> \<open>\<^verbatim>\<open>str(value)\<close>; \<open>rp\<close> is the text of the other values.\<close>
  "str_of_json rp (JStr s) = s"
| "str_of_json rp (JInt n) = str_int n"
| "str_of_json rp (JBool b) = (if b then ''True'' else ''False'')"
| "str_of_json rp JNull = ''None''"
| "str_of_json rp v = rp v"

fun canon :: "json \<Rightarrow> json" where
  \<comment> \<open>\<^verbatim>\<open>sort_keys=True\<close>\<close>
  "canon (JList xs) = JList (map canon xs)"
| "canon (JObj kvs) = JObj (sort_key fst (map (\<lambda>(k, v). (k, canon v)) kvs))"
| "canon v = v"

subsection \<open>Key order is not observable\<close>

lemma dget_sort_key:
  assumes "distinct (keys d)"
  shows "dget (sort_key fst d) = dget d"
proof -
  have "distinct (keys (sort_key fst d))" using assms by (simp add: distinct_map)
  then show ?thesis using assms by (simp add: map_of_inject_set)
qed

lemma sort_by_key_map: "(\<And>y. f (g y) = h y) \<Longrightarrow> sort_key f (map g xs) = map g (sort_key h xs)"
  by (simp add: sort_key_map)

lemma dget_map_vals: "dget (map (\<lambda>(k, v). (k, f v)) d) k = map_option f (dget d k)"
  by (induction d) auto

lemma jget_canon:
  assumes "distinct (keys kvs)"
  shows "jget (canon (JObj kvs)) k = canon (jget (JObj kvs) k)"
proof -
  have "distinct (keys (map (\<lambda>(k, v). (k, canon v)) kvs))" using assms by (simp add: o_def split_beta)
  then show ?thesis by (simp add: jget_def dget_sort_key dget_map_vals split: option.split)
qed

lemma canon_kind [simp]: "is_obj (canon v) = is_obj v" "is_list (canon v) = is_list v" "canon v = JNull \<longleftrightarrow> v = JNull"
  by (cases v; simp)+

lemma truthy_canon [simp]: "truthy (canon v) = truthy v"
proof (cases v)
  case (JObj kvs)
  have "sort_key fst (map (\<lambda>(k, v). (k, canon v)) kvs) = [] \<longleftrightarrow> kvs = []" by (metis length_0_conv length_map length_sort)
  then show ?thesis using JObj by simp
qed simp_all

lemma jget_dset [simp]: "jget (JObj (dset k v d)) k' = (if k' = k then v else jget (JObj d) k')"
  by (simp add: jget_def)

end
