(* ===== verification/Persistence_Docs.thy ===== *)
theory Persistence_Docs
  imports Json_Values Job_Scores
begin

text \<open>
  The sidecar documents of \<^verbatim>\<open>dbload/lib/sync_timedb_persistence.py\<close> and the manifest contract of
  \<^verbatim>\<open>sync_timedb_manifest_contract.py\<close>: where every kind of document lives, how it is wrapped and
  validated, and the contract version whose change resets all of them.
  A file system maps paths to file contents: \<open>Some\<close> JSON value, or \<open>None\<close> for bytes that are no
  JSON. \<open>os_env\<close> says which writes and removals the operating system refuses. Directories exist
  with their files; a write replaces the file or fails, as \<^verbatim>\<open>os.replace\<close> does.
\<close>

type_synonym files = "(string \<times> json option) list"

record os_env =
  can_write :: "string \<Rightarrow> bool"
  can_unlink :: "string \<Rightarrow> bool"

subsection \<open>Registry\<close>

definition CONTRACT_VERSION :: int where
  "CONTRACT_VERSION = 9"

definition PERSISTENCE_CONTRACT_BASENAME :: string where
  "PERSISTENCE_CONTRACT_BASENAME = ''.sync_timedb_persistence.json''"

definition LEGACY_ORPHAN_ARTIFACT_PATHS :: "string list" where
  "LEGACY_ORPHAN_ARTIFACT_PATHS = [''.sync_timedb_startup_tar_seal.json'', ''.sync_timedb_startup_raw_removal.json'']"

definition PERSISTENCE_ARTIFACT_REGISTRY :: "(string \<times> string) list" where
  "PERSISTENCE_ARTIFACT_REGISTRY =
     [(''ingest_checkpoint'', ''.sync_timedb_state.json''),
      (''archive_dead_letter'', ''.sync_timedb_dead_letter.json''),
      (''queue_dead_letter'', ''.sync_timedb_queue_dead_letter.json''),
      (''archive_maint_hints'', ''.sync_archive_maint_hints.json''),
      (''day_close_manifest'', ''.sync_timedb_async_day_close.json''),
      (''day_raw_removal_dir'', ''.sync_timedb_day_raw_removal''),
      (''unparsable_raw'', ''.sync_timedb_unparsable_raw.json''),
      (''zero_host_ingest_mark'', ''.sync_timedb_zero_host_ingest_mark.json''),
      (''file_complete_ingest_mark'', ''.sync_timedb_file_complete_ingest_mark.json''),
      (''job_store_snapshot'', ''.sync_timedb_job_store.json''),
      (''archive_members_store_dir'', ''.sync_timedb_archive_members'')]"

definition KIND_SCHEMA_VERSION :: "(string \<times> int) list" where
  "KIND_SCHEMA_VERSION =
     [(''ingest_checkpoint'', 1), (''archive_dead_letter'', 1), (''queue_dead_letter'', 1), (''unparsable_raw'', 1),
      (''archive_maint_hints'', 2), (''day_close_manifest'', 1), (''day_raw_removal'', 1), (''zero_host_ingest_mark'', 1),
      (''file_complete_ingest_mark'', 1), (''job_store_snapshot'', 1)]"

definition LIST_ENTRY_KINDS :: "string list" where
  "LIST_ENTRY_KINDS = [''ingest_checkpoint'', ''archive_dead_letter'', ''queue_dead_letter'', ''unparsable_raw'']"

definition MANIFEST_KINDS :: "string list" where
  "MANIFEST_KINDS = [''day_close_manifest'', ''day_raw_removal'']"

definition DICT_ENTRIES_KINDS :: "string list" where
  "DICT_ENTRIES_KINDS = [''zero_host_ingest_mark'', ''file_complete_ingest_mark'']"

definition DICT_PASSTHROUGH_KINDS :: "string list" where
  "DICT_PASSTHROUGH_KINDS = [''archive_maint_hints'', ''day_close_manifest'', ''day_raw_removal'',
     ''zero_host_ingest_mark'', ''file_complete_ingest_mark'']"

definition load_default :: "string \<Rightarrow> json" where
  \<comment> \<open>\<^verbatim>\<open>_KIND_LOAD_DEFAULT_FACTORY\<close>\<close>
  "load_default kd = (if kd \<in> set LIST_ENTRY_KINDS then JList []
     else if kd \<in> set DICT_ENTRIES_KINDS then JObj [(''entries'', JObj [])]
     else if kd = ''job_store_snapshot'' then
       JObj [(''ingest'', JObj []), (''lists'', JObj []), (''pending'', JObj []), (''payloads'', JObj [])]
     else JNull)"

definition path_join :: "string \<Rightarrow> string \<Rightarrow> string" where
  \<comment> \<open>\<^verbatim>\<open>os.path.join(a, b)\<close> of a relative \<^verbatim>\<open>b\<close>\<close>
  "path_join a b = (if a = [] \<or> last a = CHR ''/'' then a @ b else a @ ''/'' @ b)"

definition persistence_contract_path :: "string \<Rightarrow> string" where
  "persistence_contract_path dir = path_join dir PERSISTENCE_CONTRACT_BASENAME"

definition artifact_path :: "string \<Rightarrow> string \<Rightarrow> string res" where
  "artifact_path dir kd = (case dget PERSISTENCE_ARTIFACT_REGISTRY kd of
     None \<Rightarrow> Inl KeyError | Some rel \<Rightarrow> Inr (path_join dir rel))"

subsection \<open>Files\<close>

definition isfile :: "files \<Rightarrow> string \<Rightarrow> bool" where
  "isfile fs path = (dget fs path \<noteq> None)"

definition isdir :: "files \<Rightarrow> string \<Rightarrow> bool" where
  "isdir fs path = (\<exists>f \<in> set (keys fs). startswith f (path @ ''/''))"

definition read_json_file :: "files \<Rightarrow> string \<Rightarrow> json" where
  "read_json_file fs path = (case dget fs path of Some (Some v) \<Rightarrow> v | _ \<Rightarrow> JNull)"

definition save_json_atomic :: "os_env \<Rightarrow> string \<Rightarrow> json \<Rightarrow> bool \<Rightarrow> files \<Rightarrow> files res" where
  "save_json_atomic env path payload cmp fs =
     (if can_write env path then Inr (dset path (Some (if cmp then canon payload else payload)) fs) else Inl OSError)"

definition unlink_path :: "os_env \<Rightarrow> string \<Rightarrow> files \<Rightarrow> files" where
  "unlink_path env path fs = (if isfile fs path \<and> can_unlink env path then ddel path fs else fs)"

definition unlink_tree :: "os_env \<Rightarrow> string \<Rightarrow> files \<Rightarrow> files" where
  "unlink_tree env path fs =
     (if \<not> isdir fs path then unlink_path env path fs
      else foldl (\<lambda>fs f. unlink_path env f fs) fs (filter (\<lambda>f. startswith f (path @ ''/'')) (keys fs)))"

definition reset_sync_timedb_persistence :: "os_env \<Rightarrow> string \<Rightarrow> files \<Rightarrow> files" where
  "reset_sync_timedb_persistence env dir fs =
     (if dir = [] then fs
      else let fs1 = foldl (\<lambda>fs (kd, rel).
                 if kd \<in> {''day_raw_removal_dir'', ''archive_members_store_dir''} then unlink_tree env (path_join dir rel) fs
                 else unlink_path env (path_join dir rel) fs) fs PERSISTENCE_ARTIFACT_REGISTRY;
               fs2 = foldl (\<lambda>fs rel. unlink_path env (path_join dir rel) fs) fs1 LEGACY_ORPHAN_ARTIFACT_PATHS
           in unlink_path env (persistence_contract_path dir) fs2)"

subsection \<open>Contract version\<close>

definition read_contract_version :: "files \<Rightarrow> string \<Rightarrow> int option res" where
  "read_contract_version fs dir =
     (let raw = read_json_file fs (persistence_contract_path dir) in
      if \<not> is_obj raw then Inr None
      else (case int_of_json (jget raw ''contract_version'') of
              Inr n \<Rightarrow> Inr (Some n)
            | Inl TypeError \<Rightarrow> Inr None | Inl ValueError \<Rightarrow> Inr None | Inl e \<Rightarrow> Inl e))"

definition contract_payload :: "f64 \<Rightarrow> json" where
  "contract_payload now = JObj [(''contract_version'', JInt CONTRACT_VERSION), (''written_at'', JFloat now)]"

definition ensure_persistence_contract :: "os_env \<Rightarrow> string \<Rightarrow> bool \<Rightarrow> f64 \<Rightarrow> files \<Rightarrow> bool res \<times> files" where
  \<comment> \<open>The result, or the exception, and the files afterwards.\<close>
  "ensure_persistence_contract env dir allow_reset now fs =
     (if dir = [] then (Inr False, fs)
      else (case read_contract_version fs dir of
         Inl e \<Rightarrow> (Inl e, fs)
       | Inr on_disk \<Rightarrow>
         (if on_disk = Some CONTRACT_VERSION then (Inr False, fs)
          else if \<not> allow_reset then
            (if on_disk = None then
               (case save_json_atomic env (persistence_contract_path dir) (contract_payload now) False fs of
                  Inl e \<Rightarrow> (Inl e, fs) | Inr fs' \<Rightarrow> (Inr False, fs'))
             else (Inl RuntimeError, fs))
          else let fs1 = reset_sync_timedb_persistence env dir fs in
            (case save_json_atomic env (persistence_contract_path dir) (contract_payload now) False fs1 of
               Inl e \<Rightarrow> (Inl e, fs1) | Inr fs2 \<Rightarrow> (Inr True, fs2)))))"

subsection \<open>Manifest contract\<close>

definition RAW_REMOVAL_PHASES :: "string list" where
  "RAW_REMOVAL_PHASES = [''verifying'', ''verification_complete'', ''deleting'', ''done'']"

definition MANIFEST_REQUIRED_TOP_LEVEL :: "(string \<times> string list) list" where
  "MANIFEST_REQUIRED_TOP_LEVEL = [(''day_raw_removal'', [''phase'', ''tar_path'']), (''day_close_manifest'', [''entries'']),
     (''archive_maint_hints'', [''version''])]"

definition DAY_PHASE_ORDER :: "(string \<times> int) list" where
  "DAY_PHASE_ORDER = [(''sealed'', 1), (''raw_removed'', 2), (''tar_dropped'', 3)]"

definition day_phase_name_from_hints :: "json \<Rightarrow> string \<Rightarrow> json res" where
  "day_phase_name_from_hints day_phases tar_path =
     (let hints = jor day_phases (JObj []); phase = jget hints (normpath tar_path) in
      if \<not> is_obj hints then Inl AttributeError
      else Inr (if is_obj phase then jget phase ''phase'' else phase))"

definition day_phase_at_least :: "json \<Rightarrow> string \<Rightarrow> string \<Rightarrow> bool res" where
  \<comment> \<open>A list or dict is not hashable, so looking it up raises.\<close>
  "day_phase_at_least day_phases tar_path target = bindE (day_phase_name_from_hints day_phases tar_path) (\<lambda>phase_name.
     (case phase_name of
        JStr name \<Rightarrow> Inr (case (dget DAY_PHASE_ORDER name, dget DAY_PHASE_ORDER target) of
           (Some a, Some b) \<Rightarrow> b \<le> a | _ \<Rightarrow> False)
      | JList _ \<Rightarrow> Inl TypeError | JObj _ \<Rightarrow> Inl TypeError | _ \<Rightarrow> Inr False))"

definition manifest_phase_is_valid :: "string \<Rightarrow> string \<Rightarrow> bool" where
  "manifest_phase_is_valid kd phase = (kd = ''day_raw_removal'' \<longrightarrow> phase \<in> set RAW_REMOVAL_PHASES)"

definition validate_manifest_payload :: "(json \<Rightarrow> string) \<Rightarrow> string \<Rightarrow> json \<Rightarrow> bool" where
  "validate_manifest_payload rp kd payload =
     (is_obj payload \<and>
      (case dget MANIFEST_REQUIRED_TOP_LEVEL kd of None \<Rightarrow> True | Some required \<Rightarrow>
         (\<forall>key \<in> set required. key \<in> set (keys (obj_of payload))) \<and>
         (let phase = jget payload ''phase''
          in phase = JNull \<or> manifest_phase_is_valid kd (str_of_json rp phase))))"

subsection \<open>Envelopes\<close>

definition expected_schema_version :: "string \<Rightarrow> int option" where
  "expected_schema_version kd = dget KIND_SCHEMA_VERSION kd"

definition persistence_schema_version_ok :: "json \<Rightarrow> int option \<Rightarrow> int list \<Rightarrow> bool \<Rightarrow> bool res" where
  "persistence_schema_version_ok raw expected allowed version_key_fallback = (case expected of
     None \<Rightarrow> Inr True
   | Some ex \<Rightarrow>
      (let schema0 = jget raw ''schema_version'';
           schema = (if schema0 = JNull \<and> version_key_fallback then jget raw ''version'' else schema0) in
       if schema = JNull then Inr True
       else (case int_of_json schema of
               Inr n \<Rightarrow> Inr (n \<in> set (ex # allowed))
             | Inl TypeError \<Rightarrow> Inr False | Inl ValueError \<Rightarrow> Inr False | Inl e \<Rightarrow> Inl e)))"

definition validate_envelope :: "(json \<Rightarrow> string) \<Rightarrow> json \<Rightarrow> string \<Rightarrow> bool res" where
  "validate_envelope rp raw kd =
     (let ex = expected_schema_version kd in
      if raw = JNull then Inr False
      else if kd \<in> set LIST_ENTRY_KINDS then
        (if is_list raw then Inr True
         else if \<not> is_obj raw then Inr False
         else bindE (persistence_schema_version_ok raw ex [] False) (\<lambda>ok. Inr (ok \<and> is_list (jget raw ''entries''))))
      else if kd = ''archive_maint_hints'' then
        (if \<not> is_obj raw then Inr False else persistence_schema_version_ok raw ex [1] True)
      else if kd \<in> set MANIFEST_KINDS then
        (if \<not> is_obj raw then Inr False
         else bindE (persistence_schema_version_ok raw ex [] True) (\<lambda>ok. Inr (ok \<and> validate_manifest_payload rp kd raw)))
      else if kd \<in> set DICT_ENTRIES_KINDS then
        (if \<not> is_obj raw then Inr False
         else bindE (persistence_schema_version_ok raw ex [] False)
           (\<lambda>ok. Inr (ok \<and> (jget raw ''entries'' = JNull \<or> is_obj (jget raw ''entries'')))))
      else if kd = ''job_store_snapshot'' then
        (if \<not> is_obj raw then Inr False
         else bindE (persistence_schema_version_ok raw ex [] False)
           (\<lambda>ok. Inr (ok \<and> (jget raw ''ingest'' = JNull \<or> is_obj (jget raw ''ingest'')))))
      else Inr True)"

definition unwrap_envelope :: "json \<Rightarrow> string \<Rightarrow> json" where
  "unwrap_envelope raw kd =
     (if kd \<in> set LIST_ENTRY_KINDS then
        (if is_list raw then raw
         else if is_obj raw \<and> is_list (jget raw ''entries'') then jget raw ''entries''
         else JNull)
      else if kd \<in> set DICT_PASSTHROUGH_KINDS then (if is_obj raw then raw else JNull)
      else if kd = ''job_store_snapshot'' then
        (if is_obj raw then JObj (map (\<lambda>f. (f, jor (jget raw f) (JObj []))) [''ingest'', ''lists'', ''pending'', ''payloads''])
         else JNull)
      else raw)"

definition load_persistence_document :: "(json \<Rightarrow> string) \<Rightarrow> files \<Rightarrow> string \<Rightarrow> string \<Rightarrow> json \<Rightarrow> json res" where
  \<comment> \<open>A default of \<open>JNull\<close> asks for the default of the kind.\<close>
  "load_persistence_document rp fs path kd default0 =
     (let default = (if default0 = JNull then load_default kd else default0) in
      if path = [] \<or> \<not> isfile fs path then Inr default
      else let raw = read_json_file fs path in
        bindE (validate_envelope rp raw kd) (\<lambda>ok.
          if \<not> ok then Inr default
          else let u = unwrap_envelope raw kd in Inr (if u = JNull then default else u)))"

fun list_of_json :: "json \<Rightarrow> json list res" where
  \<comment> \<open>\<^verbatim>\<open>list(value)\<close>\<close>
  "list_of_json (JList xs) = Inr xs"
| "list_of_json (JObj kvs) = Inr (map (JStr \<circ> fst) kvs)"
| "list_of_json (JStr s) = Inr (map (\<lambda>c. JStr [c]) s)"
| "list_of_json _ = Inl TypeError"

fun dict_of_json :: "json \<Rightarrow> (string \<times> json) list res" where
  \<comment> \<open>\<^verbatim>\<open>dict(value)\<close>; the callers pass dicts.\<close>
  "dict_of_json (JObj kvs) = Inr kvs"
| "dict_of_json _ = Inl TypeError"

definition setdefault :: "string \<Rightarrow> json \<Rightarrow> (string \<times> json) list \<Rightarrow> (string \<times> json) list" where
  "setdefault k v d = (if dget d k = None then dset k v d else d)"

definition wrap_envelope :: "string \<Rightarrow> json \<Rightarrow> json res" where
  \<comment> \<open>What \<^verbatim>\<open>save_persistence_document\<close> writes for a payload.\<close>
  "wrap_envelope kd payload =
     (let ver = JInt CONTRACT_VERSION;
          sch = (case expected_schema_version kd of None \<Rightarrow> JNull | Some n \<Rightarrow> JInt n);
          d0 = obj_of payload; d1 = dset ''contract_version'' ver d0 in
      if kd \<in> set LIST_ENTRY_KINDS then
        bindE (list_of_json (jor payload (JList []))) (\<lambda>es.
          Inr (JObj [(''contract_version'', ver), (''schema_version'', sch), (''entries'', JList es)]))
      else if kd = ''archive_maint_hints'' then
        Inr (JObj (ddel ''version'' (setdefault ''schema_version'' (JInt 2) d1)))
      else if kd \<in> set MANIFEST_KINDS then Inr (JObj (setdefault ''schema_version'' (JInt 1) d1))
      else if kd \<in> set DICT_ENTRIES_KINDS then
        (let d2 = setdefault ''schema_version'' sch d1
         in Inr (JObj (if is_obj (jget (JObj d2) ''entries'') then d2 else dset ''entries'' (JObj []) d2)))
      else if kd = ''job_store_snapshot'' then
        bindE (mapE (\<lambda>f. bindE (dict_of_json (jor (jget (JObj d0) f) (JObj []))) (\<lambda>v. Inr (f, JObj v)))
             [''ingest'', ''lists'', ''pending'', ''payloads''])
          (\<lambda>fs. Inr (JObj ([(''contract_version'', ver), (''schema_version'', JInt 1)] @ fs)))
      else Inr payload)"

definition save_persistence_document :: "os_env \<Rightarrow> string \<Rightarrow> string \<Rightarrow> json \<Rightarrow> bool \<Rightarrow> files \<Rightarrow> files res" where
  "save_persistence_document env path kd payload cmp fs =
     bindE (wrap_envelope kd payload) (\<lambda>e. save_json_atomic env path e cmp fs)"

subsection \<open>Documents come back\<close>

definition stored :: "bool \<Rightarrow> json \<Rightarrow> json" where
  "stored cmp v = (if cmp then canon v else v)"

lemma stored_kind [simp]: "is_obj (stored cmp v) = is_obj v" "is_list (stored cmp v) = is_list v"
  "stored cmp v = JNull \<longleftrightarrow> v = JNull" "truthy (stored cmp v) = truthy v" "stored cmp JNull = JNull"
  "stored cmp (JInt n) = JInt n"
  by (simp_all add: stored_def)

lemma jget_stored: "distinct (keys d) \<Longrightarrow> jget (stored cmp (JObj d)) k = stored cmp (jget (JObj d) k)"
  by (simp add: stored_def jget_canon del: canon.simps)

lemma keys_stored: "distinct (keys d) \<Longrightarrow> set (keys (obj_of (stored cmp (JObj d)))) = set (keys d)"
  by (force simp: stored_def)

definition keeps_schema :: "string \<Rightarrow> json \<Rightarrow> bool" where
  "keeps_schema kd payload = (dget (obj_of payload) ''schema_version'' \<in> {None, map_option JInt (expected_schema_version kd)})"

definition doc_fields :: "string \<Rightarrow> string set" where
  "doc_fields kd = (if kd = ''job_store_snapshot'' then {''ingest'', ''lists'', ''pending'', ''payloads''}
     else - {''contract_version'', ''schema_version'', ''version''})"

definition doc_ok :: "(json \<Rightarrow> string) \<Rightarrow> string \<Rightarrow> json \<Rightarrow> bool" where
  \<comment> \<open>The payloads the callers save.\<close>
  "doc_ok rp kd payload =
     (if kd \<in> set LIST_ENTRY_KINDS then is_list payload
      else is_obj payload \<and> distinct (keys (obj_of payload)) \<and> keeps_schema kd payload \<and>
        (kd = ''archive_maint_hints'' \<or> kd \<in> set MANIFEST_KINDS \<and> validate_manifest_payload rp kd payload \<and>
           (case jget payload ''phase'' of JNull \<Rightarrow> True | JStr _ \<Rightarrow> True | _ \<Rightarrow> False) \<or>
         kd \<in> set DICT_ENTRIES_KINDS \<and> is_obj (jget payload ''entries'') \<or>
         kd = ''job_store_snapshot'' \<and> (\<forall>f \<in> {''ingest'', ''lists'', ''pending'', ''payloads''}. is_obj (jget payload f))))"

lemmas kind_defs = LIST_ENTRY_KINDS_def MANIFEST_KINDS_def DICT_ENTRIES_KINDS_def DICT_PASSTHROUGH_KINDS_def
  expected_schema_version_def KIND_SCHEMA_VERSION_def

lemma is_obj_iff: "is_obj v \<longleftrightarrow> (\<exists>d. v = JObj d)" and is_list_iff: "is_list v \<longleftrightarrow> (\<exists>xs. v = JList xs)"
  by (cases v; simp)+

lemma distinct_setdefault [simp]: "distinct (keys d) \<Longrightarrow> distinct (keys (setdefault k v d))"
  by (simp add: setdefault_def)

lemma jget_setdefault: "jget (JObj (setdefault k v d)) k' = (if k' = k \<and> dget d k = None then v else jget (JObj d) k')"
  by (auto simp: setdefault_def jget_def)

lemma jget_present: "dget d k = Some v \<Longrightarrow> jget (JObj d) k = v"
  by (simp add: jget_def)

lemma load_saved:
  assumes "path \<noteq> []" "fs' = dset path (Some raw) fs" "validate_envelope rp raw kd = Inr True" "unwrap_envelope raw kd \<noteq> JNull"
  shows "load_persistence_document rp fs' path kd def = Inr (unwrap_envelope raw kd)"
  using assms by (simp add: load_persistence_document_def isfile_def read_json_file_def Let_def)

lemma save_cases:
  assumes "save_persistence_document env path kd payload cmp fs = Inr fs'"
  obtains e where "wrap_envelope kd payload = Inr e" "fs' = dset path (Some (stored cmp e)) fs"
  using assms by (auto simp: save_persistence_document_def bindE_Inr_iff save_json_atomic_def stored_def split: if_splits)

lemma schema_kept:
  assumes "jget raw ''schema_version'' = JInt n" "ex = Some n"
  shows "persistence_schema_version_ok raw ex allowed fb = Inr True"
  using assms by (simp add: persistence_schema_version_ok_def)

lemma schema_wrapped:
  assumes "keeps_schema kd (JObj d)" "expected_schema_version kd = Some n"
  shows "jget (JObj (setdefault ''schema_version'' (JInt n) (dset ''contract_version'' v d))) ''schema_version'' = JInt n"
  using assms jget_present[of d "''schema_version''"] by (auto simp: keeps_schema_def jget_setdefault)

lemma jor_list: "jor (JList es) (JList []) = JList es"
  by (simp add: jor_def)

lemma roundtrip_list:
  assumes "kd \<in> set LIST_ENTRY_KINDS" "is_list payload" "wrap_envelope kd payload = Inr e"
  shows "validate_envelope rp (stored cmp e) kd = Inr True" "unwrap_envelope (stored cmp e) kd = stored cmp payload"
proof -
  obtain es where es: "payload = JList es" using assms(2) by (auto simp: is_list_iff)
  let ?d = "[(''contract_version'', JInt CONTRACT_VERSION), (''schema_version'', JInt 1), (''entries'', JList es)]"
  have e: "e = JObj ?d" using assms(1,3) es by (auto simp: wrap_envelope_def jor_list kind_defs)
  have d: "distinct (keys ?d)" by simp
  have g: "jget (stored cmp e) ''entries'' = stored cmp payload" "jget (stored cmp e) ''schema_version'' = JInt 1"
    unfolding e jget_stored[OF d] by (simp_all add: jget_def es)
  show "validate_envelope rp (stored cmp e) kd = Inr True"
    using assms(1,2) g e schema_kept[OF g(2), of "expected_schema_version kd"]
    by (auto simp: validate_envelope_def Let_def kind_defs)
  show "unwrap_envelope (stored cmp e) kd = stored cmp payload"
    using assms(1,2) g(1) e by (simp add: unwrap_envelope_def)
qed

lemma roundtrip_snapshot:
  assumes "doc_ok rp ''job_store_snapshot'' payload" "wrap_envelope ''job_store_snapshot'' payload = Inr e"
  shows "validate_envelope rp (stored cmp e) ''job_store_snapshot'' = Inr True"
    and "f \<in> doc_fields ''job_store_snapshot'' \<Longrightarrow>
      jget (unwrap_envelope (stored cmp e) ''job_store_snapshot'') f = stored cmp (jget payload f)"
    and "unwrap_envelope (stored cmp e) ''job_store_snapshot'' \<noteq> JNull"
proof -
  let ?fs = "[''ingest'', ''lists'', ''pending'', ''payloads'']"
  have o: "is_obj (jget payload f)" "payload = JObj (obj_of payload)" if "f \<in> set ?fs" for f
    using assms(1) that by (auto simp: doc_ok_def kind_defs doc_fields_def is_obj_iff)
  have "mapE (\<lambda>f. bindE (dict_of_json (jor (jget (JObj (obj_of payload)) f) (JObj []))) (\<lambda>v. Inr (f, JObj v))) ?fs =
      Inr (map (\<lambda>f. (f, jget payload f)) ?fs)"
  proof (rule mapE_total)
    fix f assume "f \<in> set ?fs"
    with o[OF this] show "bindE (dict_of_json (jor (jget (JObj (obj_of payload)) f) (JObj []))) (\<lambda>v. Inr (f, JObj v)) = Inr (f, jget payload f)"
      by (auto simp: is_obj_iff jor_def)
  qed
  then have e: "e = JObj ([(''contract_version'', JInt CONTRACT_VERSION), (''schema_version'', JInt 1)] @ map (\<lambda>f. (f, jget payload f)) ?fs)"
    using assms(2) by (simp add: wrap_envelope_def kind_defs)
  define d where "d = [(''contract_version'', JInt CONTRACT_VERSION), (''schema_version'', JInt 1)] @ map (\<lambda>f. (f, jget payload f)) ?fs"
  have d: "distinct (keys d)" by (simp add: d_def)
  have e': "e = JObj d" using e by (simp add: d_def)
  have g: "jget (stored cmp e) f = stored cmp (jget payload f)" if "f \<in> set ?fs" for f
    unfolding e' jget_stored[OF d] using that by (auto simp: d_def jget_def)
  have sv: "jget (stored cmp e) ''schema_version'' = JInt 1" unfolding e' jget_stored[OF d] by (simp add: d_def jget_def)
  show "validate_envelope rp (stored cmp e) ''job_store_snapshot'' = Inr True"
    using g[of "''ingest''"] o[of "''ingest''"] e' schema_kept[OF sv, of "expected_schema_version ''job_store_snapshot''"]
    by (simp add: validate_envelope_def Let_def kind_defs)
  have u: "unwrap_envelope (stored cmp e) ''job_store_snapshot'' =
      JObj (map (\<lambda>f. (f, jor (jget (stored cmp e) f) (JObj []))) ?fs)"
    using e' by (simp add: unwrap_envelope_def kind_defs)
  then show "unwrap_envelope (stored cmp e) ''job_store_snapshot'' \<noteq> JNull" by simp
  assume f: "f \<in> doc_fields ''job_store_snapshot''"
  then have "f \<in> set ?fs" by (simp add: doc_fields_def)
  then have h: "jget (JObj (map (\<lambda>f. (f, h f)) ?fs)) f = h f" for h by (auto simp: jget_def)
  have "jget (unwrap_envelope (stored cmp e) ''job_store_snapshot'') f = jor (stored cmp (jget payload f)) (JObj [])"
    unfolding u h g[OF \<open>f \<in> set ?fs\<close>] by (rule refl)
  then show "jget (unwrap_envelope (stored cmp e) ''job_store_snapshot'') f = stored cmp (jget payload f)"
    using o(1)[OF \<open>f \<in> set ?fs\<close>] by (auto simp: jor_def is_obj_iff stored_def)
qed

lemma manifest_doc:
  assumes "doc_ok rp kd payload" "kd \<in> set MANIFEST_KINDS"
  shows "validate_manifest_payload rp kd payload" "case jget payload ''phase'' of JNull \<Rightarrow> True | JStr _ \<Rightarrow> True | _ \<Rightarrow> False"
  using assms by (auto simp: doc_ok_def kind_defs)

lemma passthrough_cases:
  "kd \<in> set DICT_PASSTHROUGH_KINDS \<Longrightarrow> kd = ''archive_maint_hints'' \<or> kd \<in> set MANIFEST_KINDS \<or> kd \<in> set DICT_ENTRIES_KINDS"
  unfolding DICT_PASSTHROUGH_KINDS_def MANIFEST_KINDS_def DICT_ENTRIES_KINDS_def set_simps insert_iff by argo

lemma roundtrip_dict:
  assumes "kd \<in> set DICT_PASSTHROUGH_KINDS" "doc_ok rp kd payload" "wrap_envelope kd payload = Inr e"
  shows "validate_envelope rp (stored cmp e) kd = Inr True" "unwrap_envelope (stored cmp e) kd = stored cmp e"
    and "f \<in> doc_fields kd \<Longrightarrow> jget (stored cmp e) f = stored cmp (jget payload f)"
proof -
  obtain d where d: "payload = JObj d" "distinct (keys d)" "keeps_schema kd payload"
    using assms(1,2) by (auto simp: doc_ok_def kind_defs is_obj_iff)
  obtain n where n: "expected_schema_version kd = Some n" using assms(1) by (auto simp: kind_defs)
  define d1 where "d1 = setdefault ''schema_version'' (JInt n) (dset ''contract_version'' (JInt CONTRACT_VERSION) d)"
  have dd: "distinct (keys d1)" using d(2) by (simp add: d1_def)
  have f1: "jget (JObj d1) f = jget payload f" if "f \<in> doc_fields kd" for f
    using that assms(1) by (auto simp: d1_def jget_setdefault doc_fields_def d(1) kind_defs)
  have ent: "jget (JObj d1) ''entries'' = jget payload ''entries''"
    by (simp add: d1_def jget_setdefault d(1))
  have e: "e = JObj (if kd = ''archive_maint_hints'' then ddel ''version'' d1 else d1)"
  proof -
    have "kd \<in> set DICT_ENTRIES_KINDS \<Longrightarrow> is_obj (jget (JObj d1) ''entries'')"
      using assms(2) ent by (auto simp: doc_ok_def kind_defs)
    then show ?thesis using assms(1,3) n by (auto simp: wrap_envelope_def Let_def d1_def d(1) kind_defs split: if_splits)
  qed
  define d2 where "d2 = (if kd = ''archive_maint_hints'' then ddel ''version'' d1 else d1)"
  have e2: "e = JObj d2" "distinct (keys d2)" using e dd by (auto simp: d2_def)
  have g2: "jget (JObj d2) f = jget (JObj d1) f" if "f \<noteq> ''version''" for f
    using that by (auto simp: d2_def jget_def)
  have sv: "jget (stored cmp e) ''schema_version'' = JInt n"
    unfolding e2(1) jget_stored[OF e2(2)] using g2[of "''schema_version''"] schema_wrapped[OF d(3)[unfolded d(1)] n]
    by (simp add: d1_def)
  have ent2: "jget (stored cmp e) ''entries'' = stored cmp (jget payload ''entries'')"
    unfolding e2(1) jget_stored[OF e2(2)] using g2[of "''entries''"] ent by simp
  show "jget (stored cmp e) f = stored cmp (jget payload f)" if "f \<in> doc_fields kd" for f
    unfolding e2(1) jget_stored[OF e2(2)] using g2[of f] f1[OF that] that assms(1)
    by (auto simp: doc_fields_def kind_defs)
  show "unwrap_envelope (stored cmp e) kd = stored cmp e"
    using assms(1) e2(1) by (auto simp: unwrap_envelope_def kind_defs)
  have man: "validate_manifest_payload rp kd (stored cmp e)" if "kd \<in> set MANIFEST_KINDS"
  proof -
    have ph: "jget (stored cmp e) ''phase'' = jget payload ''phase''"
    proof -
      have "jget (stored cmp e) ''phase'' = stored cmp (jget payload ''phase'')"
        unfolding e2(1) jget_stored[OF e2(2)] using g2[of "''phase''"] f1[of "''phase''"] that by (auto simp: doc_fields_def kind_defs)
      moreover have "stored cmp (jget payload ''phase'') = jget payload ''phase''"
        using manifest_doc[OF assms(2) that] by (cases "jget payload ''phase''") (auto simp: stored_def)
      ultimately show ?thesis by simp
    qed
    have "set (keys d) \<subseteq> set (keys d2)" using that by (auto simp: d2_def d1_def setdefault_def keys_dset_mem kind_defs)
    then have "set (keys (obj_of payload)) \<subseteq> set (keys (obj_of (stored cmp e)))"
      unfolding e2(1) keys_stored[OF e2(2)] by (simp add: d(1))
    moreover note manifest_doc(1)[OF assms(2) that]
    ultimately show ?thesis using ph e2(1) by (auto simp: validate_manifest_payload_def Let_def split: option.splits)
  qed
  have o: "is_obj (stored cmp e)" "stored cmp e \<noteq> JNull" using e2(1) by simp_all
  have k: "kd \<notin> set LIST_ENTRY_KINDS" using assms(1) by (auto simp: kind_defs)
  consider "kd = ''archive_maint_hints''" | "kd \<noteq> ''archive_maint_hints''" "kd \<in> set MANIFEST_KINDS"
    | "kd \<noteq> ''archive_maint_hints''" "kd \<notin> set MANIFEST_KINDS" "kd \<in> set DICT_ENTRIES_KINDS"
    using passthrough_cases[OF assms(1)] by blast
  then show "validate_envelope rp (stored cmp e) kd = Inr True"
  proof cases
    case 1
    then show ?thesis using o k schema_kept[OF sv n] unfolding validate_envelope_def Let_def by simp
  next
    case 2
    then show ?thesis using o k schema_kept[OF sv n] man unfolding validate_envelope_def Let_def by simp
  next
    case 3
    have "kd \<noteq> ''job_store_snapshot''" using 3(3) by (auto simp: DICT_ENTRIES_KINDS_def)
    then have "is_obj (jget payload ''entries'')" using assms(2) 3 k unfolding doc_ok_def by simp
    then show ?thesis using 3 o k schema_kept[OF sv n] ent2 unfolding validate_envelope_def Let_def by simp
  qed
qed

lemma doc_ok_kinds:
  assumes "doc_ok rp kd payload"
  obtains (l) "kd \<in> set LIST_ENTRY_KINDS" | (s) "kd = ''job_store_snapshot''" | (d) "kd \<in> set DICT_PASSTHROUGH_KINDS"
proof -
  have "kd \<in> set LIST_ENTRY_KINDS \<or> kd = ''archive_maint_hints'' \<or> kd \<in> set MANIFEST_KINDS \<or> kd \<in> set DICT_ENTRIES_KINDS
      \<or> kd = ''job_store_snapshot''"
    using assms unfolding doc_ok_def by meson
  moreover have "kd \<in> set DICT_PASSTHROUGH_KINDS" if "kd = ''archive_maint_hints'' \<or> kd \<in> set MANIFEST_KINDS \<or> kd \<in> set DICT_ENTRIES_KINDS"
    using that by (auto simp: kind_defs)
  ultimately show ?thesis using that by blast
qed

lemma kinds_disjoint: "kd \<in> set DICT_PASSTHROUGH_KINDS \<Longrightarrow> kd \<notin> set LIST_ENTRY_KINDS"
  "''job_store_snapshot'' \<notin> set LIST_ENTRY_KINDS"
  by (auto simp: kind_defs)

text \<open>
  C25. Documents come back: saving a document of any kind with a payload its callers produce and
  loading it from the same path, in compact or plain form, gives the payload back: the list
  of entries for the list kinds, and for the dictionary kinds every field except the version
  stamps, which are set by the save.
\<close>
theorem document_roundtrip:
  assumes "save_persistence_document env path kd payload cmp fs = Inr fs'" "path \<noteq> []" "doc_ok rp kd payload"
  shows "\<exists>u. load_persistence_document rp fs' path kd def = Inr u \<and>
    (if kd \<in> set LIST_ENTRY_KINDS then u = stored cmp payload else \<forall>f \<in> doc_fields kd. jget u f = stored cmp (jget payload f))"
proof -
  obtain e where e: "wrap_envelope kd payload = Inr e" "fs' = dset path (Some (stored cmp e)) fs"
    using assms(1) by (rule save_cases)
  from assms(3) show ?thesis
  proof (cases rule: doc_ok_kinds)
    case l
    then have "is_list payload" using assms(3) by (simp add: doc_ok_def)
    note r = roundtrip_list[OF l this e(1)]
    have "stored cmp payload \<noteq> JNull" using \<open>is_list payload\<close> by (auto simp: is_list_iff)
    then show ?thesis using load_saved[OF assms(2) e(2) r(1)] l by (simp add: r(2))
  next
    case s
    note r = roundtrip_snapshot[OF assms(3)[unfolded s] e(1)[unfolded s]]
    show ?thesis using load_saved[OF assms(2) e(2) r(1) r(3)] r(2) kinds_disjoint(2) s by auto
  next
    case d
    note r = roundtrip_dict[OF d assms(3) e(1)]
    have "stored cmp e \<noteq> JNull" using r(1) by (auto simp: validate_envelope_def)
    then show ?thesis using load_saved[OF assms(2) e(2) r(1)] r(2,3) kinds_disjoint(1)[OF d] by simp
  qed
qed

definition sample_env :: os_env where
  "sample_env = \<lparr>can_write = (\<lambda>_. True), can_unlink = (\<lambda>_. True)\<rparr>"

definition sample_mark_doc :: json where
  "sample_mark_doc = JObj [(''schema_version'', JInt 1), (''entries'', JObj [(''b'', JInt 2), (''a'', JInt 1)])]"

theorem document_roundtrip_witness:
  "\<exists>fs' u. save_persistence_document sample_env ''m'' ''zero_host_ingest_mark'' sample_mark_doc True [] = Inr fs' \<and>
     load_persistence_document (\<lambda>_. []) fs' ''m'' ''zero_host_ingest_mark'' JNull = Inr u \<and>
     jget u ''entries'' = JObj [(''a'', JInt 1), (''b'', JInt 2)]"
proof -
  define r where "r = save_persistence_document sample_env ''m'' ''zero_host_ingest_mark'' sample_mark_doc True []"
  have "\<not> isl r" unfolding r_def by code_simp
  then obtain fs' where fs: "r = Inr fs'" by (cases r) auto
  have ok: "doc_ok (\<lambda>_. []) ''zero_host_ingest_mark'' sample_mark_doc" by code_simp
  have c: "stored True (jget sample_mark_doc ''entries'') = JObj [(''a'', JInt 1), (''b'', JInt 2)]" by code_simp
  have "''zero_host_ingest_mark'' \<notin> set LIST_ENTRY_KINDS" "''entries'' \<in> doc_fields ''zero_host_ingest_mark''"
    by (simp_all add: kind_defs doc_fields_def)
  then show ?thesis using document_roundtrip[OF fs[unfolded r_def] _ ok, of JNull] fs c unfolding r_def by auto
qed

subsection \<open>Contract changes\<close>

definition artifact_files :: "string \<Rightarrow> string \<times> string \<Rightarrow> string set" where
  "artifact_files dir = (\<lambda>(kd, rel). let p = path_join dir rel in
     if kd \<in> {''day_raw_removal_dir'', ''archive_members_store_dir''} then {f. f = p \<or> startswith f (p @ ''/'')} else {p})"

definition registered :: "string \<Rightarrow> string set" where
  \<comment> \<open>The sidecar files of an archive directory.\<close>
  "registered dir = (\<Union>a \<in> set PERSISTENCE_ARTIFACT_REGISTRY. artifact_files dir a) \<union>
     (\<Union>rel \<in> set LEGACY_ORPHAN_ARTIFACT_PATHS. {path_join dir rel}) \<union> {persistence_contract_path dir}"

definition prunes :: "os_env \<Rightarrow> string set \<Rightarrow> files \<Rightarrow> files \<Rightarrow> bool" where
  \<comment> \<open>The files in \<open>S\<close> that may be removed are gone, the others are untouched.\<close>
  "prunes env S fs fs' \<longleftrightarrow> (\<forall>f. dget fs' f = None \<or> dget fs' f = dget fs f) \<and> (\<forall>f. f \<notin> S \<longrightarrow> dget fs' f = dget fs f) \<and>
     (\<forall>f \<in> S. can_unlink env f \<and> \<not> isdir fs f \<longrightarrow> dget fs' f = None)"

lemma keys_dget: "set (keys d) = {k. dget d k \<noteq> None}"
  by (induction d) (auto simp: domI)

lemma prunes_isdir: "prunes env S fs fs' \<Longrightarrow> isdir fs' p \<Longrightarrow> isdir fs p"
  unfolding isdir_def prunes_def keys_dget mem_Collect_eq Bex_def by metis

lemma prunes_trans:
  assumes a: "prunes env S fs fs1" and b: "prunes env T fs1 fs2"
  shows "prunes env (S \<union> T) fs fs2"
  unfolding prunes_def
proof (intro conjI allI ballI impI)
  show "dget fs2 f = None \<or> dget fs2 f = dget fs f" for f using a b unfolding prunes_def by metis
  show "dget fs2 f = dget fs f" if "f \<notin> S \<union> T" for f using a b that unfolding prunes_def by (metis UnCI)
  show "dget fs2 f = None" if "f \<in> S \<union> T" "can_unlink env f \<and> \<not> isdir fs f" for f
    using a b that prunes_isdir[OF a, of f] unfolding prunes_def by (metis UnE)
qed

lemma prunes_refl: "prunes env {} fs fs"
  by (simp add: prunes_def)

lemma prunes_foldl:
  assumes "\<And>x fs. x \<in> set xs \<Longrightarrow> prunes env (S x) fs (g fs x)"
  shows "prunes env (\<Union>x \<in> set xs. S x) fs (foldl g fs xs)"
  using assms
proof (induction xs arbitrary: fs)
  case (Cons x xs)
  then have "prunes env (S x) fs (g fs x)" "prunes env (\<Union>y \<in> set xs. S y) (g fs x) (foldl g (g fs x) xs)" by auto
  then show ?case using prunes_trans by fastforce
qed (simp add: prunes_refl)

lemma prunes_unlink_path: "prunes env {p} fs (unlink_path env p fs)"
  by (auto simp: prunes_def unlink_path_def isfile_def)

lemma prunes_extend:
  assumes "prunes env S fs fs'" "S \<subseteq> T" "\<And>f. f \<in> T - S \<Longrightarrow> dget fs f = None \<or> isdir fs f"
  shows "prunes env T fs fs'"
  using assms unfolding prunes_def by (metis DiffI subsetD)

lemma prunes_unlink_tree: "prunes env {f. f = p \<or> startswith f (p @ ''/'')} fs (unlink_tree env p fs)"
proof (cases "isdir fs p")
  case True
  let ?xs = "filter (\<lambda>f. startswith f (p @ ''/'')) (keys fs)"
  have "prunes env (\<Union>x \<in> set ?xs. {x}) fs (unlink_tree env p fs)"
    unfolding unlink_tree_def using True by (simp only: not_True_eq_False if_False) (intro prunes_foldl prunes_unlink_path)
  then show ?thesis
    by (rule prunes_extend) (use True in \<open>auto simp: keys_dget simp del: set_map\<close>)
next
  case False
  have "dget fs f = None" if "startswith f (p @ ''/'')" for f
    using False that by (auto simp: isdir_def keys_dget simp del: set_map)
  then show ?thesis unfolding unlink_tree_def using False
    by (auto intro: prunes_extend[OF prunes_unlink_path])
qed

lemma reset_prunes:
  assumes "dir \<noteq> []"
  shows "prunes env (registered dir) fs (reset_sync_timedb_persistence env dir fs)"
proof -
  define fs1 where "fs1 = foldl (\<lambda>fs (kd, rel).
      if kd \<in> {''day_raw_removal_dir'', ''archive_members_store_dir''} then unlink_tree env (path_join dir rel) fs
      else unlink_path env (path_join dir rel) fs) fs PERSISTENCE_ARTIFACT_REGISTRY"
  define fs2 where "fs2 = foldl (\<lambda>fs rel. unlink_path env (path_join dir rel) fs) fs1 LEGACY_ORPHAN_ARTIFACT_PATHS"
  have 1: "prunes env (\<Union>a \<in> set PERSISTENCE_ARTIFACT_REGISTRY. artifact_files dir a) fs fs1"
    unfolding fs1_def
    by (rule prunes_foldl) (auto simp: artifact_files_def Let_def split_beta prunes_unlink_path prunes_unlink_tree)
  have 2: "prunes env (\<Union>r \<in> set LEGACY_ORPHAN_ARTIFACT_PATHS. {path_join dir r}) fs1 fs2"
    unfolding fs2_def by (rule prunes_foldl) (rule prunes_unlink_path)
  have "reset_sync_timedb_persistence env dir fs = unlink_path env (persistence_contract_path dir) fs2"
    using assms by (simp add: reset_sync_timedb_persistence_def fs1_def fs2_def Let_def)
  then show ?thesis
    using prunes_trans[OF prunes_trans[OF 1 2] prunes_unlink_path[of env "persistence_contract_path dir"]]
    unfolding registered_def by (rule ssubst)
qed

lemma version_written:
  "read_contract_version (dset (persistence_contract_path dir) (Some (contract_payload now)) fs) dir = Inr (Some CONTRACT_VERSION)"
  by (simp add: read_contract_version_def read_json_file_def contract_payload_def jget_def)

lemma contract_cases:
  assumes "ensure_persistence_contract env dir allow_reset now fs = (r, fs')" "dir \<noteq> []"
  obtains (same) "read_contract_version fs dir = Inr (Some CONTRACT_VERSION)" "r = Inr False" "fs' = fs"
    | (err) "isl r" "fs' = fs"
    | (fresh) "r = Inr False" "fs' = dset (persistence_contract_path dir) (Some (contract_payload now)) fs"
    | (unsaved) "isl r" "fs' = reset_sync_timedb_persistence env dir fs"
    | (reset) "r = Inr True"
        "fs' = dset (persistence_contract_path dir) (Some (contract_payload now)) (reset_sync_timedb_persistence env dir fs)"
  using assms by (auto simp: ensure_persistence_contract_def Let_def save_json_atomic_def split: sum.splits if_splits)

text \<open>
  C24. Changing the contract version resets the sidecars and nothing else. When
  \<^verbatim>\<open>ensure_persistence_contract\<close> returns, the version on disk is the current one; when it
  reports a reset, every registered sidecar that may be removed is gone, the contract file apart;
  a version mismatch without permission to reset raises RuntimeError and changes no file; and
  in every case, errors included, files that are not registered are as before.
\<close>
theorem contract_change_resets:
  assumes "ensure_persistence_contract env dir allow_reset now fs = (r, fs')" "dir \<noteq> []"
  shows "(\<not> isl r \<longrightarrow> read_contract_version fs' dir = Inr (Some CONTRACT_VERSION)) \<and>
    (r = Inr True \<longrightarrow> (\<forall>f \<in> registered dir - {persistence_contract_path dir}.
       can_unlink env f \<and> \<not> isdir fs f \<longrightarrow> \<not> isfile fs' f)) \<and>
    (\<forall>f. f \<notin> registered dir \<longrightarrow> dget fs' f = dget fs f) \<and>
    (\<not> allow_reset \<and> read_contract_version fs dir = Inr (Some v) \<and> v \<noteq> CONTRACT_VERSION \<longrightarrow> r = Inl RuntimeError \<and> fs' = fs)"
proof (intro conjI impI ballI allI)
  let ?p = "persistence_contract_path dir"
  note pr = reset_prunes[OF assms(2), of env fs]
  show "read_contract_version fs' dir = Inr (Some CONTRACT_VERSION)" if "\<not> isl r"
    using assms by (cases rule: contract_cases) (use that in \<open>simp_all add: version_written\<close>)
  show "\<not> isfile fs' f" if "r = Inr True" "f \<in> registered dir - {?p}" "can_unlink env f \<and> \<not> isdir fs f" for f
    using assms by (cases rule: contract_cases) (use that pr in \<open>auto simp: isfile_def prunes_def\<close>)
  show "dget fs' f = dget fs f" if "f \<notin> registered dir" for f
  proof -
    have "f \<noteq> ?p" "dget (reset_sync_timedb_persistence env dir fs) f = dget fs f"
      using that pr by (auto simp: registered_def prunes_def)
    note f = this
    from assms show ?thesis by (cases rule: contract_cases) (simp_all add: f)
  qed
  show "r = Inl RuntimeError" "fs' = fs" if "\<not> allow_reset \<and> read_contract_version fs dir = Inr (Some v) \<and> v \<noteq> CONTRACT_VERSION"
    using assms that by (simp_all add: ensure_persistence_contract_def)
qed

definition sample_files :: files where
  "sample_files = [(''a/.sync_timedb_persistence.json'', Some (JObj [(''contract_version'', JInt 8)])),
     (''a/.sync_timedb_archive_members/d1'', None), (''a/raw'', None), (''a/.sync_timedb_state.json'', Some (JList []))]"

theorem contract_change_resets_witness:
  "ensure_persistence_contract sample_env ''a'' True (Fin 0) sample_files =
     (Inr True, [(''a/raw'', None), (''a/.sync_timedb_persistence.json'', Some (contract_payload (Fin 0)))]) \<and>
   read_contract_version (snd (ensure_persistence_contract sample_env ''a'' True (Fin 0) sample_files)) ''a'' = Inr (Some CONTRACT_VERSION)"
proof -
  have "ensure_persistence_contract sample_env ''a'' True (Fin 0) sample_files =
     (Inr True, [(''a/raw'', None), (''a/.sync_timedb_persistence.json'', Some (contract_payload (Fin 0)))])" by code_simp
  then show ?thesis using contract_change_resets[of sample_env "''a''" True "Fin 0" sample_files] by auto
qed

end
