(* ===== verification/Ingest_Marks.thy ===== *)
theory Ingest_Marks
  imports Persistence_Docs
begin

text \<open>
  Fingerprinted ingest marks: \<^verbatim>\<open>dbload/lib/sync_timedb_file_complete_ingest_mark.py\<close>, its twin
  \<^verbatim>\<open>sync_timedb_zero_host_ingest_mark.py\<close> and the per-process cache of
  \<^verbatim>\<open>sync_timedb_mark_entries_cache.py\<close>. Both mark modules have the same text up to the document
  kind \<open>kd\<close> and the rule for when an outcome is marked, so their operations are instances of one
  definition. A world holds the files and what \<^verbatim>\<open>os.stat\<close> reports; the stamp that the file
  system gives a written mark file is an argument, the cache belongs to one process.
\<close>

record stat_result =
  st_mtime :: int
  st_mtime_ns :: int
  st_size :: int

record mworld =
  mfiles :: files
  mstats :: "(string \<times> stat_result) list"

type_synonym mentries = "(string \<times> json) list"

type_synonym mcache = "(string \<times> (int \<times> int \<times> mentries)) list"

record mark_env =
  menv :: os_env
  mrepr :: "json \<Rightarrow> string"
  default_archive_dir :: string

definition path_fingerprint_key :: "mworld \<Rightarrow> string \<Rightarrow> string option" where
  "path_fingerprint_key w path = map_option
     (\<lambda>st. normpath path @ ''|'' @ str_int (st_mtime st) @ ''|'' @ str_int (st_size st)) (dget (mstats w) path)"

definition ingest_mark_path :: "string \<Rightarrow> string \<Rightarrow> string res" where
  "ingest_mark_path kd dir = artifact_path dir kd"

definition archive_dir_of :: "mark_env \<Rightarrow> string option \<Rightarrow> string" where
  "archive_dir_of me dir = (case dir of Some d \<Rightarrow> d | None \<Rightarrow> default_archive_dir me)"

subsection \<open>Cached entries\<close>

definition clear_mark_entries_cache :: "string option \<Rightarrow> mcache \<Rightarrow> mcache" where
  "clear_mark_entries_cache mp c = (case mp of None \<Rightarrow> [] | Some path \<Rightarrow> ddel path c)"

definition load_cached_mark_entries :: "mentries res \<Rightarrow> stat_result option \<Rightarrow> string \<Rightarrow> mcache \<Rightarrow> mentries res \<times> mcache" where
  \<comment> \<open>\<open>found\<close> is what \<^verbatim>\<open>load_uncached\<close> returns when it is called, \<open>st\<close> what \<^verbatim>\<open>os.stat\<close> said before.\<close>
  "load_cached_mark_entries found st path c =
     (if path = [] then (found, c)
      else (case st of
         None \<Rightarrow> (found, clear_mark_entries_cache (Some path) c)
       | Some s \<Rightarrow>
          (case dget c path of
             Some (mt, sz, es) \<Rightarrow>
               (if mt = st_mtime_ns s \<and> sz = st_size s then (Inr es, c)
                else (case found of Inl e \<Rightarrow> (Inl e, c) | Inr es' \<Rightarrow> (Inr es', dset path (st_mtime_ns s, st_size s, es') c)))
           | None \<Rightarrow> (case found of Inl e \<Rightarrow> (Inl e, c) | Inr es' \<Rightarrow> (Inr es', dset path (st_mtime_ns s, st_size s, es') c)))))"

definition load_entries_uncached :: "mark_env \<Rightarrow> string \<Rightarrow> mworld \<Rightarrow> string \<Rightarrow> mentries res" where
  "load_entries_uncached me kd w mp =
     bindE (load_persistence_document (mrepr me) (mfiles w) mp kd (JObj [(''entries'', JObj [])])) (\<lambda>raw.
       Inr (if is_obj raw \<and> is_obj (jget raw ''entries'') then obj_of (jget raw ''entries'') else []))"

definition load_mark_entries :: "mark_env \<Rightarrow> string \<Rightarrow> mworld \<Rightarrow> string \<Rightarrow> mcache \<Rightarrow> mentries res \<times> mcache" where
  "load_mark_entries me kd w mp c = load_cached_mark_entries (load_entries_uncached me kd w mp) (dget (mstats w) mp) mp c"

definition INGEST_MARK_SCHEMA_VERSION :: int where
  "INGEST_MARK_SCHEMA_VERSION = 1"

definition save_mark_entries :: "mark_env \<Rightarrow> string \<Rightarrow> stat_result \<Rightarrow> string \<Rightarrow> mentries \<Rightarrow> mworld \<times> mcache \<Rightarrow> unit res \<times> mworld \<times> mcache" where
  "save_mark_entries me kd stamp mp es = (\<lambda>(w, c).
     (case save_persistence_document (menv me) mp kd
             (JObj [(''schema_version'', JInt INGEST_MARK_SCHEMA_VERSION), (''entries'', JObj es)]) True (mfiles w) of
        Inl e \<Rightarrow> (Inl e, w, c)
      | Inr fs \<Rightarrow> (Inr (), w\<lparr>mfiles := fs, mstats := dset mp stamp (mstats w)\<rparr>, clear_mark_entries_cache (Some mp) c)))"

subsection \<open>Marks\<close>

definition has_ingest_mark :: "mark_env \<Rightarrow> string \<Rightarrow> string option \<Rightarrow> string \<Rightarrow> mworld \<Rightarrow> mcache \<Rightarrow> bool res \<times> mcache" where
  "has_ingest_mark me kd dir path w c = (case path_fingerprint_key w path of None \<Rightarrow> (Inr False, c)
   | Some key \<Rightarrow>
      (let d = archive_dir_of me dir in
       if d = [] then (Inr False, c)
       else (case ingest_mark_path kd d of Inl e \<Rightarrow> (Inl e, c)
        | Inr mp \<Rightarrow>
           (if \<not> isfile (mfiles w) mp then (Inr False, c)
            else let (r, c') = load_mark_entries me kd w mp c
                 in (bindE r (\<lambda>es. Inr (key \<in> set (keys es))), c')))))"

definition mark_meta :: "string \<Rightarrow> stat_result \<Rightarrow> f64 \<Rightarrow> json" where
  "mark_meta path st now = JObj [(''path'', JStr (normpath path)), (''mtime'', JInt (st_mtime st)),
     (''size'', JInt (st_size st)), (''marked_at'', JFloat now)]"

definition create_mark_file :: "mark_env \<Rightarrow> string \<Rightarrow> stat_result \<Rightarrow> string \<Rightarrow> mworld \<times> mcache \<Rightarrow> unit res \<times> mworld \<times> mcache" where
  \<comment> \<open>The empty document that is written before the lock is taken.\<close>
  "create_mark_file me kd stamp mp wc =
     (if isfile (mfiles (fst wc)) mp then (Inr (), wc) else save_mark_entries me kd stamp mp [] wc)"

definition record_locked :: "mark_env \<Rightarrow> string \<Rightarrow> string \<Rightarrow> string \<Rightarrow> stat_result \<Rightarrow> f64 \<Rightarrow> stat_result \<Rightarrow> string \<Rightarrow> mworld \<times> mcache \<Rightarrow>
    bool res \<times> mworld \<times> mcache" where
  \<comment> \<open>The part under \<^verbatim>\<open>file_write_lock\<close>.\<close>
  "record_locked me kd key path st now stamp mp = (\<lambda>(w, c).
     (case load_mark_entries me kd w mp c of
        (Inl e, c1) \<Rightarrow> (Inl e, w, c1)
      | (Inr es, c1) \<Rightarrow>
         (case save_mark_entries me kd stamp mp (dset key (mark_meta path st now) es) (w, c1) of
            (Inl e, wc) \<Rightarrow> (Inl e, wc) | (Inr _, wc) \<Rightarrow> (Inr True, wc))))"

definition record_ingest_mark :: "mark_env \<Rightarrow> string \<Rightarrow> string option \<Rightarrow> string \<Rightarrow> f64 \<Rightarrow> stat_result \<Rightarrow> stat_result \<Rightarrow>
    mworld \<times> mcache \<Rightarrow> bool res \<times> mworld \<times> mcache" where
  "record_ingest_mark me kd dir path now stamp0 stamp wc = (case path_fingerprint_key (fst wc) path of None \<Rightarrow> (Inr False, wc)
   | Some key \<Rightarrow>
      (let d = archive_dir_of me dir in
       if d = [] then (Inr False, wc)
       else (case ingest_mark_path kd d of Inl e \<Rightarrow> (Inl e, wc)
        | Inr mp \<Rightarrow>
           (case create_mark_file me kd stamp0 mp wc of
              (Inl e, wc1) \<Rightarrow> (Inl e, wc1)
            | (Inr _, wc1) \<Rightarrow>
               (case dget (mstats (fst wc1)) path of None \<Rightarrow> (Inr False, wc1)
                | Some st \<Rightarrow> record_locked me kd key path st now stamp mp wc1)))))"

definition drop_mark :: "mark_env \<Rightarrow> mworld \<Rightarrow> string list \<Rightarrow> string \<times> json \<Rightarrow> bool" where
  "drop_mark me w path_set = (\<lambda>(key, meta).
     (let meta_path = (if is_obj meta then normpath (str_of_json (mrepr me) (jor (jget meta ''path'') (JStr []))) else []);
          fp_path = (if CHR ''|'' \<in> set key then takeWhile (\<lambda>ch. ch \<noteq> CHR ''|'') key else [])
      in meta_path \<in> set path_set \<or> fp_path \<in> set path_set \<or> (\<exists>p \<in> set path_set. path_fingerprint_key w p = Some key)))"

definition clear_locked :: "mark_env \<Rightarrow> string \<Rightarrow> string list \<Rightarrow> stat_result \<Rightarrow> string \<Rightarrow> mworld \<times> mcache \<Rightarrow> nat res \<times> mworld \<times> mcache" where
  "clear_locked me kd path_set stamp mp = (\<lambda>(w, c).
     (case load_mark_entries me kd w mp c of
        (Inl e, c1) \<Rightarrow> (Inl e, w, c1)
      | (Inr es, c1) \<Rightarrow>
         (let keep = filter (\<lambda>e. \<not> drop_mark me w path_set e) es;
              removed = length (filter (drop_mark me w path_set) es) in
          if removed = 0 then (Inr 0, w, c1)
          else (case save_mark_entries me kd stamp mp keep (w, c1) of
             (Inl e, wc) \<Rightarrow> (Inl e, wc) | (Inr _, wc) \<Rightarrow> (Inr removed, wc)))))"

definition clear_ingest_marks :: "mark_env \<Rightarrow> string \<Rightarrow> string option \<Rightarrow> string list \<Rightarrow> stat_result \<Rightarrow> mworld \<times> mcache \<Rightarrow>
    nat res \<times> mworld \<times> mcache" where
  "clear_ingest_marks me kd dir paths stamp wc =
     (let path_set = map normpath (filter (\<lambda>p. p \<noteq> []) paths) in
      if path_set = [] then (Inr 0, wc)
      else let d = archive_dir_of me dir in
        if d = [] then (Inr 0, wc)
        else (case ingest_mark_path kd d of Inl e \<Rightarrow> (Inl e, wc)
         | Inr mp \<Rightarrow> (if \<not> isfile (mfiles (fst wc)) mp then (Inr 0, wc) else clear_locked me kd path_set stamp mp wc)))"

subsection \<open>The two kinds\<close>

definition has_file_complete_ingest_mark where
  "has_file_complete_ingest_mark me = has_ingest_mark me ''file_complete_ingest_mark''"

definition record_file_complete_ingest_mark where
  "record_file_complete_ingest_mark me = record_ingest_mark me ''file_complete_ingest_mark''"

definition clear_file_complete_ingest_marks where
  "clear_file_complete_ingest_marks me = clear_ingest_marks me ''file_complete_ingest_mark''"

definition has_zero_host_ingest_mark where
  "has_zero_host_ingest_mark me = has_ingest_mark me ''zero_host_ingest_mark''"

definition record_zero_host_ingest_mark where
  "record_zero_host_ingest_mark me = record_ingest_mark me ''zero_host_ingest_mark''"

definition clear_zero_host_ingest_marks where
  "clear_zero_host_ingest_marks me = clear_ingest_marks me ''zero_host_ingest_mark''"

definition maybe_record_file_complete_ingest_mark_from_outcome ::
  "mark_env \<Rightarrow> string option \<Rightarrow> string \<Rightarrow> bool \<Rightarrow> string option \<Rightarrow> string option \<Rightarrow> f64 \<Rightarrow> stat_result \<Rightarrow> stat_result \<Rightarrow>
    mworld \<times> mcache \<Rightarrow> bool res \<times> mworld \<times> mcache" where
  "maybe_record_file_complete_ingest_mark_from_outcome me dir path ingest_ok outcome db_skip now stamp0 stamp wc =
     (let outcome_s = (case outcome of None \<Rightarrow> [] | Some s \<Rightarrow> s); skip = (case db_skip of None \<Rightarrow> [] | Some s \<Rightarrow> s) in
      if \<not> ingest_ok then (Inr False, wc)
      else if outcome_s = ''ingested'' then record_file_complete_ingest_mark me dir path now stamp0 stamp wc
      else if outcome_s = ''db_skip'' \<and> skip \<in> {''full_scan'', ''db_complete_full_scan''} then
        record_file_complete_ingest_mark me dir path now stamp0 stamp wc
      else (Inr False, wc))"

definition maybe_record_zero_host_ingest_mark_from_outcome ::
  "mark_env \<Rightarrow> string option \<Rightarrow> string \<Rightarrow> bool \<Rightarrow> string option \<Rightarrow> int option \<Rightarrow> int option \<Rightarrow> f64 \<Rightarrow> stat_result \<Rightarrow> stat_result \<Rightarrow>
    mworld \<times> mcache \<Rightarrow> bool res \<times> mworld \<times> mcache" where
  "maybe_record_zero_host_ingest_mark_from_outcome me dir path ingest_ok outcome stats_rows stats_rows_parsed now stamp0 stamp wc =
     (let gate_rows = (case stats_rows_parsed of Some n \<Rightarrow> Some n | None \<Rightarrow> stats_rows) in
      if \<not> ingest_ok then (Inr False, wc)
      else if (case outcome of None \<Rightarrow> [] | Some s \<Rightarrow> s) \<notin> {''ingested'', []} then (Inr False, wc)
      else if gate_rows \<noteq> Some 0 then (Inr False, wc)
      else record_zero_host_ingest_mark me dir path now stamp0 stamp wc)"

subsection \<open>What a save leaves behind\<close>

lemma obj_canon [simp]: "is_obj (canon (JObj es))" "distinct (keys (obj_of (canon (JObj es)))) = distinct (keys es)"
  "set (keys (obj_of (canon (JObj es)))) = set (keys es)"
proof -
  have g: "fst (case e of (k, v) \<Rightarrow> (k, canon v)) = fst e" for e by (cases e) simp
  have e: "obj_of (canon (JObj es)) = map (\<lambda>(k, v). (k, canon v)) (sort_key fst es)" by (simp add: sort_by_key_map[where h = fst] g)
  have k: "keys (obj_of (canon (JObj es))) = keys (sort_key fst es)" unfolding e by (simp add: g)
  show "distinct (keys (obj_of (canon (JObj es)))) = distinct (keys es)"
    unfolding k by (metis distinct_map distinct_sort set_sort)
  show "set (keys (obj_of (canon (JObj es)))) = set (keys es)" unfolding k by simp
qed simp

lemma mark_kinds: "kd \<in> set DICT_ENTRIES_KINDS \<Longrightarrow> kd \<in> set DICT_PASSTHROUGH_KINDS \<and> kd \<notin> set LIST_ENTRY_KINDS \<and>
    expected_schema_version kd = Some 1 \<and> ''entries'' \<in> doc_fields kd"
  by (auto simp: kind_defs doc_fields_def)

lemma save_mark_entries_cases:
  assumes "save_mark_entries me kd stamp mp es (w, c) = (r, w', c')" "kd \<in> set DICT_ENTRIES_KINDS" "mp \<noteq> []" "distinct (keys es)"
  obtains (failed) e where "r = Inl e" "w' = w" "c' = c"
    | (saved) "r = Inr ()" "load_entries_uncached me kd w' mp = Inr (obj_of (canon (JObj es)))" "dget (mstats w') mp = Some stamp"
        "isfile (mfiles w') mp" "c' = ddel mp c"
proof (cases "save_persistence_document (menv me) mp kd
    (JObj [(''schema_version'', JInt INGEST_MARK_SCHEMA_VERSION), (''entries'', JObj es)]) True (mfiles w)")
  case (Inl e)
  then show ?thesis using assms(1) failed by (auto simp: save_mark_entries_def)
next
  case (Inr fs)
  let ?p = "JObj [(''schema_version'', JInt INGEST_MARK_SCHEMA_VERSION), (''entries'', JObj es)]"
  note k = mark_kinds[OF assms(2)]
  from Inr obtain e where e: "wrap_envelope kd ?p = Inr e" "fs = dset mp (Some (stored True e)) (mfiles w)" by (rule save_cases)
  have ok: "doc_ok (mrepr me) kd ?p"
    using assms(2) k by (simp add: doc_ok_def keeps_schema_def INGEST_MARK_SCHEMA_VERSION_def jget_def)
  note rt = roundtrip_dict[OF conjunct1[OF k] ok e(1), where cmp = True]
  have ent: "jget (stored True e) ''entries'' = canon (JObj es)"
    using rt(3)[of "''entries''"] k by (simp add: jget_def stored_def)
  then have "is_obj (stored True e)" by (cases "stored True e") (auto simp: jget_def)
  then have "load_persistence_document (mrepr me) fs mp kd def = Inr (stored True e)" for "def"
    using load_saved[OF assms(3) e(2) rt(1)] rt(2) by (cases "stored True e") auto
  moreover have w: "w' = w\<lparr>mfiles := fs, mstats := dset mp stamp (mstats w)\<rparr>" "r = Inr ()" "c' = ddel mp c"
    using assms(1) Inr by (auto simp: save_mark_entries_def clear_mark_entries_cache_def)
  ultimately show ?thesis using \<open>is_obj (stored True e)\<close> ent
    by (intro saved) (simp_all add: load_entries_uncached_def isfile_def e(2) del: canon.simps)
qed

subsection \<open>Caches never serve a stale document\<close>

definition coherent :: "mark_env \<Rightarrow> string \<Rightarrow> string \<Rightarrow> mworld \<Rightarrow> mcache \<Rightarrow> bool" where
  "coherent me kd mp w c \<longleftrightarrow> (\<forall>s es. dget (mstats w) mp = Some s \<and> dget c mp = Some (st_mtime_ns s, st_size s, es) \<longrightarrow>
     load_entries_uncached me kd w mp = Inr es)"

lemma coherent_uncached: "dget c mp = None \<Longrightarrow> coherent me kd mp w c"
  by (simp add: coherent_def)

lemma load_coherent:
  assumes "coherent me kd mp w c" "load_mark_entries me kd w mp c = (r, c')"
  shows "r = load_entries_uncached me kd w mp" "coherent me kd mp w c'" "dget c' mp = dget c mp \<or> dget c' mp = None \<or>
      (\<exists>s es. dget (mstats w) mp = Some s \<and> dget c' mp = Some (st_mtime_ns s, st_size s, es))"
  using assms unfolding load_mark_entries_def load_cached_mark_entries_def
  by (auto simp: coherent_def clear_mark_entries_cache_def split: option.splits if_splits sum.splits)

definition mark_keys :: "mark_env \<Rightarrow> string \<Rightarrow> string \<Rightarrow> mworld \<Rightarrow> string set" where
  "mark_keys me kd mp w = (case load_entries_uncached me kd w mp of Inr es \<Rightarrow> set (keys es) | Inl _ \<Rightarrow> {})"

definition doc_loads :: "mark_env \<Rightarrow> string \<Rightarrow> string \<Rightarrow> mworld \<Rightarrow> bool" where
  \<comment> \<open>The mark file exists and its entries are a dict.\<close>
  "doc_loads me kd mp w \<longleftrightarrow> isfile (mfiles w) mp \<and> (\<exists>es. load_entries_uncached me kd w mp = Inr es \<and> distinct (keys es))"

definition mark_of_path :: "mark_env \<Rightarrow> mworld \<Rightarrow> string \<Rightarrow> string \<times> json \<Rightarrow> bool" where
  \<comment> \<open>What it means that a mark belongs to the normalised path \<open>p\<close>: its metadata names \<open>p\<close>, its key starts
    with \<open>p\<close> and a bar, or its key is the present fingerprint of \<open>p\<close>.\<close>
  "mark_of_path me w p = (\<lambda>(key, meta).
     is_obj meta \<and> normpath (str_of_json (mrepr me) (jor (jget meta ''path'') (JStr []))) = p \<or>
     CHR ''|'' \<notin> set p \<and> take (Suc (length p)) key = p @ ''|'' \<or>
     path_fingerprint_key w p = Some key)"

definition marks_of_paths :: "mark_env \<Rightarrow> string \<Rightarrow> string \<Rightarrow> mworld \<Rightarrow> string list \<Rightarrow> string set" where
  \<comment> \<open>The marks of the file that belong to one of the non-empty paths.\<close>
  "marks_of_paths me kd mp w paths = (case load_entries_uncached me kd w mp of
     Inr es \<Rightarrow> {k. \<exists>meta. dget es k = Some meta \<and> (\<exists>p \<in> set paths. p \<noteq> [] \<and> mark_of_path me w (normpath p) (k, meta))}
   | Inl _ \<Rightarrow> {})"

abbreviation norm_paths :: "string list \<Rightarrow> string list" where
  "norm_paths paths \<equiv> map normpath (filter (\<lambda>p. p \<noteq> []) paths)"

lemma key_path_prefix:
  assumes "p \<noteq> []"
  shows "(if CHR ''|'' \<in> set key then takeWhile (\<lambda>ch. ch \<noteq> CHR ''|'') key else []) = p \<longleftrightarrow>
    CHR ''|'' \<notin> set p \<and> take (Suc (length p)) key = p @ ''|''" (is "?l \<longleftrightarrow> ?r")
proof
  assume l: ?l
  then have b: "CHR ''|'' \<in> set key" and t: "takeWhile (\<lambda>ch. ch \<noteq> CHR ''|'') key = p" using assms by (auto split: if_splits)
  obtain ys rest where k: "key = ys @ CHR ''|'' # rest" "CHR ''|'' \<notin> set ys" using split_list_first[OF b] by blast
  have "takeWhile (\<lambda>ch. ch \<noteq> CHR ''|'') (ys @ CHR ''|'' # rest) = ys" using k(2) by (subst takeWhile_append2) auto
  then show ?r using t k by simp
next
  assume r: ?r
  then have "key = p @ CHR ''|'' # drop (Suc (length p)) key" by (metis append.assoc append_Cons append_Nil append_take_drop_id)
  moreover have "takeWhile (\<lambda>ch. ch \<noteq> CHR ''|'') (p @ CHR ''|'' # rest) = p" for rest
    using r by (subst takeWhile_append2) auto
  ultimately show ?l using in_set_conv_decomp by metis
qed

lemma drop_mark_spec:
  "drop_mark me w (norm_paths paths) e \<longleftrightarrow> (\<exists>p \<in> set paths. p \<noteq> [] \<and> mark_of_path me w (normpath p) e)"
proof (cases e)
  case (Pair key meta)
  have ne: "normpath p \<noteq> []" for p by (simp add: normpath_def Let_def)
  have in_set: "q \<in> set (norm_paths paths) \<longleftrightarrow> (\<exists>p \<in> set paths. p \<noteq> [] \<and> q = normpath p)" for q by auto
  have bex: "(\<exists>q \<in> set (norm_paths paths). P q) \<longleftrightarrow> (\<exists>p \<in> set paths. p \<noteq> [] \<and> P (normpath p))" for P by auto
  let ?m = "normpath (str_of_json (mrepr me) (jor (jget meta ''path'') (JStr [])))"
  have m: "(if is_obj meta then ?m else []) \<in> set (norm_paths paths) \<longleftrightarrow>
      (\<exists>p \<in> set paths. p \<noteq> [] \<and> is_obj meta \<and> ?m = normpath p)" unfolding in_set using ne not_sym[OF ne] by auto
  show ?thesis
    unfolding Pair drop_mark_def mark_of_path_def Let_def prod.case bex m unfolding in_set key_path_prefix[OF ne] by blast
qed

locale mark_file =
  fixes me :: mark_env and kd mp :: string
  assumes kind_ok: "kd \<in> set DICT_ENTRIES_KINDS" and path_ok: "mp \<noteq> []"
begin

lemma record_locked_effect:
  assumes "record_locked me kd key path st now stamp mp (w, c) = (r, w', c')" "coherent me kd mp w c" "doc_loads me kd mp w"
  shows "isl r \<and> w' = w \<and> (\<exists>r0. load_mark_entries me kd w mp c = (r0, c')) \<or>
    r = Inr True \<and> mark_keys me kd mp w' = insert key (mark_keys me kd mp w) \<and> doc_loads me kd mp w' \<and>
      dget (mstats w') mp = Some stamp \<and> dget c' mp = None"
proof -
  obtain es where es: "load_entries_uncached me kd w mp = Inr es" "distinct (keys es)" using assms(3) by (auto simp: doc_loads_def)
  obtain c1 where l: "load_mark_entries me kd w mp c = (Inr es, c1)" "coherent me kd mp w c1"
    using load_coherent[OF assms(2)] es(1) by (metis surj_pair)
  obtain r1 w1 c2 where s: "save_mark_entries me kd stamp mp (dset key (mark_meta path st now) es) (w, c1) = (r1, w1, c2)"
    by (metis surj_pair)
  have d: "distinct (keys (dset key (mark_meta path st now) es))" using es(2) by simp
  from s kind_ok path_ok d show ?thesis
  proof (cases rule: save_mark_entries_cases)
    case (failed e)
    then show ?thesis using assms(1) l s by (auto simp: record_locked_def)
  next
    case saved
    then have "r = Inr True" "w' = w1" "c' = c2" using assms(1) l s by (simp_all add: record_locked_def)
    moreover have "set (keys (dset key (mark_meta path st now) es)) = insert key (set (keys es))"
      by (auto simp: keys_dget simp del: set_map split: if_splits)
    ultimately show ?thesis using saved d es by (simp add: mark_keys_def doc_loads_def del: canon.simps set_map)
  qed
qed

lemma clear_locked_effect:
  assumes "clear_locked me kd (norm_paths paths) stamp mp (w, c) = (r, w', c')" "coherent me kd mp w c" "doc_loads me kd mp w"
  shows "w' = w \<and> (\<exists>r0. load_mark_entries me kd w mp c = (r0, c')) \<and> (isl r \<or> r = Inr 0 \<and> marks_of_paths me kd mp w paths = {}) \<or>
    r = Inr (card (marks_of_paths me kd mp w paths)) \<and>
      mark_keys me kd mp w' = mark_keys me kd mp w - marks_of_paths me kd mp w paths \<and> doc_loads me kd mp w' \<and>
      dget (mstats w') mp = Some stamp \<and> dget c' mp = None"
proof -
  obtain es where es: "load_entries_uncached me kd w mp = Inr es" "distinct (keys es)" using assms(3) by (auto simp: doc_loads_def)
  obtain c1 where l: "load_mark_entries me kd w mp c = (Inr es, c1)" "coherent me kd mp w c1"
    using load_coherent[OF assms(2)] es(1) by (metis surj_pair)
  let ?D = "drop_mark me w (norm_paths paths)"
  have dk: "marks_of_paths me kd mp w paths = fst ` set (filter ?D es)"
    using es by (force simp: marks_of_paths_def drop_mark_spec[symmetric])
  have card: "card (marks_of_paths me kd mp w paths) = length (filter ?D es)"
    unfolding dk using es(2) by (metis distinct_card distinct_map_filter length_map set_map)
  have keep: "set (keys (filter (\<lambda>e. \<not> ?D e) es)) = set (keys es) - marks_of_paths me kd mp w paths"
    unfolding dk using es(2) by (auto simp: image_iff) (metis map_of_is_SomeI option.inject)
  show ?thesis
  proof (cases "length (filter ?D es) = 0")
    case True
    then show ?thesis using assms(1) l card dk by (simp add: clear_locked_def Let_def)
  next
    case False
    obtain r1 w1 c2 where s: "save_mark_entries me kd stamp mp (filter (\<lambda>e. \<not> ?D e) es) (w, c1) = (r1, w1, c2)"
      by (metis surj_pair)
    have d: "distinct (keys (filter (\<lambda>e. \<not> ?D e) es))" using es(2) by (simp add: distinct_map_filter)
    from s kind_ok path_ok d show ?thesis
    proof (cases rule: save_mark_entries_cases)
      case (failed e)
      then show ?thesis using assms(1) l s False by (auto simp: clear_locked_def Let_def)
    next
      case saved
      then have "r = Inr (length (filter ?D es))" "w' = w1" "c' = c2"
        using assms(1) l s False by (simp_all add: clear_locked_def Let_def)
      then show ?thesis using saved d es keep card by (simp add: mark_keys_def doc_loads_def del: canon.simps set_map)
    qed
  qed
qed

end

subsection \<open>Several processes\<close>

text \<open>
  The processes that ingest files share one mark file and have a cache each. Readers do not take
  the lock: what they saw in \<^verbatim>\<open>os.stat\<close> may be old when they read the file. The first record also
  checks for the file, and creates it, outside the lock. The sections under the lock are
  single steps. The world may change every other file between any two steps. The file system
  stamps a written file with its clock, which advances in ticks of \<open>tick\<close> nanoseconds; \<open>gap\<close> is
  the least time between two writes of the mark file.
\<close>

record msys =
  mworld_of :: mworld
  mcaches :: "nat \<Rightarrow> mcache"
  mseen :: "nat \<Rightarrow> stat_result option option"
  mmissing :: "nat set"
  mlast :: int

datatype mark_event = MRecorded string | MCleared "string set" | MCreated | MOther

definition clock_ok :: "int \<Rightarrow> int \<Rightarrow> int \<Rightarrow> int \<Rightarrow> stat_result \<Rightarrow> bool" where
  \<comment> \<open>A write at time \<open>tm\<close>, after one at time \<open>prev\<close>: the modification time is the clock's last tick.\<close>
  "clock_ok tick gap prev tm stamp \<longleftrightarrow> prev + gap \<le> tm \<and> st_mtime_ns stamp = tm div tick * tick"

definition after_section :: "nat \<Rightarrow> int \<Rightarrow> mworld \<times> mcache \<Rightarrow> msys \<Rightarrow> msys" where
  "after_section p tm wc s = s\<lparr>mworld_of := fst wc, mcaches := (mcaches s)(p := snd wc),
     mlast := (if fst wc = mworld_of s then mlast s else tm)\<rparr>"

inductive imark_step :: "mark_env \<Rightarrow> string \<Rightarrow> string \<Rightarrow> int \<Rightarrow> int \<Rightarrow> msys \<Rightarrow> mark_event \<Rightarrow> msys \<Rightarrow> bool" for me kd mp tick gap where
  observe: "imark_step me kd mp tick gap s MOther (s\<lparr>mseen := (mseen s)(p := Some (dget (mstats (mworld_of s)) mp))\<rparr>)"
| probe: "mseen s p = Some st \<Longrightarrow>
    load_cached_mark_entries (load_entries_uncached me kd (mworld_of s) mp) st mp (mcaches s p) = (r, c') \<Longrightarrow>
    imark_step me kd mp tick gap s MOther (s\<lparr>mcaches := (mcaches s)(p := c'), mseen := (mseen s)(p := None)\<rparr>)"
| world: "dget fs mp = dget (mfiles (mworld_of s)) mp \<Longrightarrow> dget sts mp = dget (mstats (mworld_of s)) mp \<Longrightarrow>
    imark_step me kd mp tick gap s MOther (s\<lparr>mworld_of := \<lparr>mfiles = fs, mstats = sts\<rparr>\<rparr>)"
| check: "\<not> isfile (mfiles (mworld_of s)) mp \<Longrightarrow>
    imark_step me kd mp tick gap s MOther (s\<lparr>mmissing := insert p (mmissing s)\<rparr>)"
| create: "p \<in> mmissing s \<Longrightarrow> w' \<noteq> mworld_of s \<longrightarrow> clock_ok tick gap (mlast s) tm stamp \<Longrightarrow>
    save_mark_entries me kd stamp mp [] (mworld_of s, mcaches s p) = (r, w', c') \<Longrightarrow>
    imark_step me kd mp tick gap s (if isl r then MOther else MCreated)
      ((after_section p tm (w', c') s)\<lparr>mmissing := mmissing s - {p}\<rparr>)"
| recording: "w' \<noteq> mworld_of s \<longrightarrow> clock_ok tick gap (mlast s) tm stamp \<Longrightarrow>
    record_locked me kd key path st now stamp mp (mworld_of s, mcaches s p) = (r, w', c') \<Longrightarrow>
    imark_step me kd mp tick gap s (if isl r then MOther else MRecorded key) (after_section p tm (w', c') s)"
| clearing: "w' \<noteq> mworld_of s \<longrightarrow> clock_ok tick gap (mlast s) tm stamp \<Longrightarrow>
    clear_locked me kd (norm_paths paths) stamp mp (mworld_of s, mcaches s p) = (r, w', c') \<Longrightarrow>
    imark_step me kd mp tick gap s (if isl r then MOther else MCleared (marks_of_paths me kd mp (mworld_of s) paths))
      (after_section p tm (w', c') s)"

inductive imark_run :: "mark_env \<Rightarrow> string \<Rightarrow> string \<Rightarrow> int \<Rightarrow> int \<Rightarrow> msys \<Rightarrow> mark_event list \<Rightarrow> msys \<Rightarrow> bool" for me kd mp tick gap where
  nil: "imark_run me kd mp tick gap s [] s"
| cons: "imark_step me kd mp tick gap s e s1 \<Longrightarrow> imark_run me kd mp tick gap s1 es t \<Longrightarrow> imark_run me kd mp tick gap s (e # es) t"

fun apply_event :: "mark_event \<Rightarrow> string set \<Rightarrow> string set" where
  \<comment> \<open>The set of marks as the callers see it.\<close>
  "apply_event (MRecorded k) M = insert k M"
| "apply_event (MCleared ks) M = M - ks"
| "apply_event MCreated M = {}"
| "apply_event MOther M = M"

definition stamps_ok :: "string \<Rightarrow> int \<Rightarrow> msys \<Rightarrow> bool" where
  \<comment> \<open>No process knows of a modification time later than that of the file.\<close>
  "stamps_ok mp tick s \<longleftrightarrow> (\<exists>st. dget (mstats (mworld_of s)) mp = Some st \<and> st_mtime_ns st \<le> mlast s div tick * tick \<and>
     (\<forall>p mt sz es. dget (mcaches s p) mp = Some (mt, sz, es) \<longrightarrow> mt \<le> st_mtime_ns st) \<and>
     (\<forall>p st'. mseen s p = Some (Some st') \<longrightarrow> st_mtime_ns st' \<le> st_mtime_ns st))"

definition mark_sys_ok :: "mark_env \<Rightarrow> string \<Rightarrow> string \<Rightarrow> int \<Rightarrow> msys \<Rightarrow> bool" where
  "mark_sys_ok me kd mp tick s \<longleftrightarrow> doc_loads me kd mp (mworld_of s) \<and> mmissing s = {} \<and>
     (\<forall>p. coherent me kd mp (mworld_of s) (mcaches s p)) \<and> stamps_ok mp tick s"

lemma load_entries_same_file:
  "dget (mfiles w') mp = dget (mfiles w) mp \<Longrightarrow> load_entries_uncached me kd w' mp = load_entries_uncached me kd w mp"
  unfolding load_entries_uncached_def load_persistence_document_def read_json_file_def isfile_def by (simp only:)

lemma tick_later:
  assumes "clock_ok tick gap prev tm stamp" "0 < tick" "tick \<le> gap"
  shows "prev div tick * tick < st_mtime_ns stamp" "st_mtime_ns stamp = tm div tick * tick"
proof -
  have "(prev + tick) div tick \<le> tm div tick" using assms by (intro zdiv_mono1) (auto simp: clock_ok_def)
  then have "prev div tick < tm div tick" using assms(2) by simp
  then show "prev div tick * tick < st_mtime_ns stamp" "st_mtime_ns stamp = tm div tick * tick"
    using assms(1,2) by (simp_all add: clock_ok_def)
qed

lemma mark_sys_ok_write:
  assumes "mark_sys_ok me kd mp tick s" "0 < tick" "tick \<le> gap" "w' \<noteq> mworld_of s \<longrightarrow> clock_ok tick gap (mlast s) tm stamp"
    "doc_loads me kd mp w'" "dget (mstats w') mp = Some stamp" "dget c' mp = None"
  shows "mark_sys_ok me kd mp tick (after_section p tm (w', c') s)"
proof (cases "w' = mworld_of s")
  case True
  then show ?thesis using assms(1,7) by (auto simp: mark_sys_ok_def after_section_def stamps_ok_def coherent_uncached)
next
  case False
  obtain st :: stat_result where st: "st_mtime_ns st \<le> mlast s div tick * tick"
    "\<forall>q mt sz es. dget (mcaches s q) mp = Some (mt, sz, es) \<longrightarrow> mt \<le> st_mtime_ns st"
    "\<forall>q st'. mseen s q = Some (Some st') \<longrightarrow> st_mtime_ns st' \<le> st_mtime_ns st"
    using assms(1) unfolding mark_sys_ok_def stamps_ok_def by blast
  have later: "st_mtime_ns st < st_mtime_ns stamp" "st_mtime_ns stamp = tm div tick * tick"
    using tick_later[OF _ assms(2,3), of "mlast s" tm stamp] assms(4) False st(1) by auto
  have "coherent me kd mp w' (mcaches s q)" for q
    using st(2) later(1) assms(6) by (fastforce simp: coherent_def)
  moreover have "stamps_ok mp tick (after_section p tm (w', c') s)"
    using False later assms(6,7) st(2,3) by (fastforce simp: stamps_ok_def after_section_def)
  ultimately show ?thesis using assms(1,5,7) by (simp add: mark_sys_ok_def after_section_def coherent_uncached)
qed

lemma mark_sys_ok_cache:
  assumes "mark_sys_ok me kd mp tick s" "load_mark_entries me kd (mworld_of s) mp (mcaches s p) = (r, c')"
  shows "mark_sys_ok me kd mp tick (after_section p tm (mworld_of s, c') s)"
proof -
  have c: "coherent me kd mp (mworld_of s) (mcaches s p)" using assms(1) by (simp add: mark_sys_ok_def)
  show ?thesis
    using assms(1) load_coherent(2,3)[OF c assms(2)] unfolding mark_sys_ok_def stamps_ok_def after_section_def by fastforce
qed

context mark_file
begin

lemma imark_step_ok:
  assumes "imark_step me kd mp tick gap s e t" "mark_sys_ok me kd mp tick s" "0 < tick" "tick \<le> gap"
  shows "mark_sys_ok me kd mp tick t \<and> mark_keys me kd mp (mworld_of t) = apply_event e (mark_keys me kd mp (mworld_of s))"
  using assms(1)
proof (cases rule: imark_step.cases)
  case (observe p)
  then show ?thesis using assms(2) by (auto simp: mark_sys_ok_def stamps_ok_def)
next
  case (probe p st r c')
  then have "coherent me kd mp (mworld_of s) c'"
    using assms(2) unfolding mark_sys_ok_def load_cached_mark_entries_def coherent_def clear_mark_entries_cache_def
    by (auto split: option.splits if_splits sum.splits)
  moreover have "dget c' mp = dget (mcaches s p) mp \<or> dget c' mp = None \<or>
      (\<exists>st' es. st = Some st' \<and> dget c' mp = Some (st_mtime_ns st', st_size st', es))"
    using probe(4) unfolding load_cached_mark_entries_def clear_mark_entries_cache_def
    by (auto split: option.splits if_splits sum.splits)
  then have "stamps_ok mp tick t" using assms(2) probe(2,3) unfolding mark_sys_ok_def stamps_ok_def by fastforce
  ultimately show ?thesis using assms(2) probe(1,2) by (simp add: mark_sys_ok_def)
next
  case (world fs sts)
  have "load_entries_uncached me kd (mworld_of t) mp = load_entries_uncached me kd (mworld_of s) mp"
    by (rule load_entries_same_file) (simp add: world)
  then show ?thesis using assms(2) world
    by (simp add: mark_sys_ok_def mark_keys_def doc_loads_def coherent_def stamps_ok_def isfile_def) blast
next
  case (check p)
  then show ?thesis using assms(2) by (simp add: mark_sys_ok_def doc_loads_def)
next
  case (create p w' tm stamp r c')
  then show ?thesis using assms(2) by (simp add: mark_sys_ok_def)
next
  case (recording w' tm stamp key path st now p r c')
  have "coherent me kd mp (mworld_of s) (mcaches s p)" "doc_loads me kd mp (mworld_of s)" using assms(2) by (simp_all add: mark_sys_ok_def)
  from record_locked_effect[OF recording(4) this] show ?thesis
  proof (elim disjE conjE exE)
    fix r0
    assume a: "w' = mworld_of s" "load_mark_entries me kd (mworld_of s) mp (mcaches s p) = (r0, c')" "isl r"
    show ?thesis using mark_sys_ok_cache[OF assms(2) a(2), of tm] a(1,3) recording(1,2) by (auto simp: after_section_def)
  next
    assume a: "doc_loads me kd mp w'" "dget (mstats w') mp = Some stamp" "dget c' mp = None" "r = Inr True"
      "mark_keys me kd mp w' = insert key (mark_keys me kd mp (mworld_of s))"
    show ?thesis using mark_sys_ok_write[OF assms(2-4) recording(3) a(1-3), of p] a(4,5) recording(1,2)
      by (simp add: after_section_def)
  qed
next
  case (clearing w' tm stamp paths p r c')
  have "coherent me kd mp (mworld_of s) (mcaches s p)" "doc_loads me kd mp (mworld_of s)" using assms(2) by (simp_all add: mark_sys_ok_def)
  from clear_locked_effect[OF clearing(4) this] show ?thesis
  proof (elim disjE conjE exE)
    fix r0
    assume a: "w' = mworld_of s" "load_mark_entries me kd (mworld_of s) mp (mcaches s p) = (r0, c')" "isl r"
    show ?thesis using mark_sys_ok_cache[OF assms(2) a(2), of tm] a(1,3) clearing(1,2) by (auto simp: after_section_def)
  next
    fix r0
    assume a: "w' = mworld_of s" "load_mark_entries me kd (mworld_of s) mp (mcaches s p) = (r0, c')"
      "r = Inr 0" "marks_of_paths me kd mp (mworld_of s) paths = {}"
    show ?thesis using mark_sys_ok_cache[OF assms(2) a(2), of tm] a clearing(1,2) by (auto simp: after_section_def)
  next
    assume a: "doc_loads me kd mp w'" "dget (mstats w') mp = Some stamp" "dget c' mp = None"
      "r = Inr (card (marks_of_paths me kd mp (mworld_of s) paths))"
      "mark_keys me kd mp w' = mark_keys me kd mp (mworld_of s) - marks_of_paths me kd mp (mworld_of s) paths"
    show ?thesis using mark_sys_ok_write[OF assms(2-4) clearing(3) a(1-3), of p] a(4,5) clearing(1,2)
      by (simp add: after_section_def)
  qed
qed

lemma imark_run_ok:
  assumes "imark_run me kd mp tick gap s es t" "mark_sys_ok me kd mp tick s" "0 < tick" "tick \<le> gap"
  shows "mark_sys_ok me kd mp tick t \<and> mark_keys me kd mp (mworld_of t) = fold apply_event es (mark_keys me kd mp (mworld_of s))"
  using assms(1,2)
proof (induction rule: imark_run.induct)
  case (cons s e s1 es t)
  from imark_step_ok[OF cons.hyps(1) cons.prems assms(3,4)] cons.IH show ?case by simp
qed simp

lemma has_exact:
  assumes "coherent me kd mp w c" "doc_loads me kd mp w" "archive_dir_of me dir \<noteq> []" "ingest_mark_path kd (archive_dir_of me dir) = Inr mp"
  shows "fst (has_ingest_mark me kd dir path w c) =
    Inr (case path_fingerprint_key w path of None \<Rightarrow> False | Some key \<Rightarrow> key \<in> mark_keys me kd mp w)"
proof -
  obtain es where es: "load_entries_uncached me kd w mp = Inr es" "isfile (mfiles w) mp" using assms(2) by (auto simp: doc_loads_def)
  obtain c' where "load_mark_entries me kd w mp c = (Inr es, c')" using load_coherent(1)[OF assms(1)] es(1) by (metis surj_pair)
  then show ?thesis using assms(3,4) es by (auto simp: has_ingest_mark_def Let_def mark_keys_def split: option.split)
qed

end

lemma mark_path_nonempty: "ingest_mark_path kd dir = Inr mp \<Longrightarrow> mp \<noteq> []"
  by (auto simp: ingest_mark_path_def artifact_path_def path_join_def PERSISTENCE_ARTIFACT_REGISTRY_def split: option.splits if_splits)

interpretation file_complete: mark_file me "''file_complete_ingest_mark''" "path_join dir ''.sync_timedb_file_complete_ingest_mark.json''" for me dir
  by unfold_locales (auto simp: DICT_ENTRIES_KINDS_def path_join_def)

interpretation zero_host: mark_file me "''zero_host_ingest_mark''" "path_join dir ''.sync_timedb_zero_host_ingest_mark.json''" for me dir
  by unfold_locales (auto simp: DICT_ENTRIES_KINDS_def path_join_def)

lemma ingest_mark_paths:
  "ingest_mark_path ''file_complete_ingest_mark'' dir = Inr (path_join dir ''.sync_timedb_file_complete_ingest_mark.json'')"
  "ingest_mark_path ''zero_host_ingest_mark'' dir = Inr (path_join dir ''.sync_timedb_zero_host_ingest_mark.json'')"
  by (simp_all add: ingest_mark_path_def artifact_path_def PERSISTENCE_ARTIFACT_REGISTRY_def)

subsection \<open>Marks under concurrency\<close>


definition sample_marks_env :: mark_env where
  "sample_marks_env = \<lparr>menv = sample_env, mrepr = (\<lambda>_. []), default_archive_dir = []\<rparr>"

definition sample_mark_path :: string where
  "sample_mark_path = ''a/.sync_timedb_file_complete_ingest_mark.json''"

definition sample_stamp :: "int \<Rightarrow> stat_result" where
  "sample_stamp n = \<lparr>st_mtime = n, st_mtime_ns = n * 1000000000, st_size = 10\<rparr>"

definition sample_raw :: mworld where
  "sample_raw = \<lparr>mfiles = [], mstats = [(''a/r'', sample_stamp 3)]\<rparr>"

definition sample_created :: mworld where
  "sample_created = fst (snd (save_mark_entries sample_marks_env ''file_complete_ingest_mark'' (sample_stamp 5) sample_mark_path []
     (sample_raw, [])))"

definition sample_recorded :: mworld where
  "sample_recorded = fst (snd (record_locked sample_marks_env ''file_complete_ingest_mark'' ''a/r|3|10'' ''a/r'' (sample_stamp 3)
     (Fin 0) (sample_stamp 6) sample_mark_path (sample_created, [])))"

lemma sample_record_result: "record_locked sample_marks_env ''file_complete_ingest_mark'' ''a/r|3|10'' ''a/r'' (sample_stamp 3)
     (Fin 0) (sample_stamp 6) sample_mark_path (sample_created, []) = (Inr True, sample_recorded, [])"
  by code_simp

definition sample_sys :: "mworld \<Rightarrow> nat set \<Rightarrow> int \<Rightarrow> msys" where
  "sample_sys w ps tm = \<lparr>mworld_of = w, mcaches = (\<lambda>_. []), mseen = (\<lambda>_. None), mmissing = ps, mlast = tm\<rparr>"

abbreviation sample_tick :: int where "sample_tick \<equiv> 4000000"

lemma sample_record_step:
  "imark_step sample_marks_env ''file_complete_ingest_mark'' sample_mark_path sample_tick sample_tick
     (sample_sys sample_created ps 5000000000) (MRecorded ''a/r|3|10'') (sample_sys sample_recorded ps 6000000000)"
proof -
  have "sample_recorded \<noteq> sample_created" by code_simp
  then show ?thesis
    using recording[of sample_recorded "sample_sys sample_created ps 5000000000" sample_tick sample_tick 6000000000 "sample_stamp 6"
        sample_marks_env "''file_complete_ingest_mark''" "''a/r|3|10''" "''a/r''" "sample_stamp 3" "Fin 0" sample_mark_path 0 "Inr True" "[]"]
      sample_record_result
    by (simp add: sample_sys_def after_section_def clock_ok_def sample_stamp_def fun_upd_idem)
qed

lemma sample_stats: "dget (mstats sample_created) sample_mark_path = Some (sample_stamp 5)"
    "dget (mstats sample_recorded) sample_mark_path = Some (sample_stamp 6)"
  by code_simp+


text \<open>
  C26. The first record of all is not protected: a process that found no mark file before another
  process created it and recorded a mark writes the empty document over that mark.
\<close>
theorem first_mark_race:
  "\<exists>es t. imark_run sample_marks_env ''file_complete_ingest_mark'' sample_mark_path sample_tick sample_tick
       (sample_sys sample_raw {} 0) es t \<and>
     es = [MOther, MOther, MCreated, MRecorded ''a/r|3|10'', MCreated] \<and>
     mark_keys sample_marks_env ''file_complete_ingest_mark'' sample_mark_path (mworld_of t) = {}"
proof -
  let ?step = "imark_step sample_marks_env ''file_complete_ingest_mark'' sample_mark_path sample_tick sample_tick"
  define w where "w = fst (snd (save_mark_entries sample_marks_env ''file_complete_ingest_mark'' (sample_stamp 7) sample_mark_path []
     (sample_recorded, [])))"
  have missing: "\<not> isfile (mfiles sample_raw) sample_mark_path" by code_simp
  have c1: "?step (sample_sys sample_raw {} 0) MOther (sample_sys sample_raw {0} 0)"
    and c2: "?step (sample_sys sample_raw {0} 0) MOther (sample_sys sample_raw {0, 1} 0)"
    using check[of "sample_sys sample_raw {} 0" sample_mark_path sample_marks_env "''file_complete_ingest_mark''" sample_tick sample_tick 0]
      check[of "sample_sys sample_raw {0} 0" sample_mark_path sample_marks_env "''file_complete_ingest_mark''" sample_tick sample_tick 1] missing
    by (simp_all add: sample_sys_def insert_commute)
  have s1: "save_mark_entries sample_marks_env ''file_complete_ingest_mark'' (sample_stamp 5) sample_mark_path [] (sample_raw, []) =
      (Inr (), sample_created, [])" by code_simp
  have s2: "save_mark_entries sample_marks_env ''file_complete_ingest_mark'' (sample_stamp 7) sample_mark_path [] (sample_recorded, []) =
      (Inr (), w, [])" unfolding w_def by code_simp
  have ne: "sample_created \<noteq> sample_raw" "w \<noteq> sample_recorded" unfolding w_def by code_simp+
  have c3: "?step (sample_sys sample_raw {0, 1} 0) MCreated (sample_sys sample_created {1} 5000000000)"
    using create[of 0 "sample_sys sample_raw {0, 1} 0" sample_created sample_tick sample_tick 5000000000 "sample_stamp 5" sample_marks_env
        "''file_complete_ingest_mark''" sample_mark_path "Inr ()" "[]"] s1 ne
    by (simp add: sample_sys_def after_section_def clock_ok_def sample_stamp_def fun_upd_idem insert_Diff_if)
  have c5: "?step (sample_sys sample_recorded {1} 6000000000) MCreated (sample_sys w {} 7000000000)"
    using create[of 1 "sample_sys sample_recorded {1} 6000000000" w sample_tick sample_tick 7000000000 "sample_stamp 7" sample_marks_env
        "''file_complete_ingest_mark''" sample_mark_path "Inr ()" "[]"] s2 ne
    by (simp add: sample_sys_def after_section_def clock_ok_def sample_stamp_def fun_upd_idem)
  have "load_entries_uncached sample_marks_env ''file_complete_ingest_mark'' w sample_mark_path = Inr []" unfolding w_def by code_simp
  then have "mark_keys sample_marks_env ''file_complete_ingest_mark'' sample_mark_path (mworld_of (sample_sys w {} 7000000000)) = {}"
    by (simp add: mark_keys_def sample_sys_def)
  then show ?thesis using imark_run.cons[OF c1 imark_run.cons[OF c2 imark_run.cons[OF c3 imark_run.cons[OF sample_record_step
    imark_run.cons[OF c5 imark_run.nil]]]]] by blast
qed

definition tick_cache :: mcache where
  "tick_cache = snd (load_mark_entries sample_marks_env ''file_complete_ingest_mark'' sample_recorded sample_mark_path [])"

definition tick_cleared :: mworld where
  "tick_cleared = fst (snd (clear_locked sample_marks_env ''file_complete_ingest_mark'' [''a/r''] \<lparr>st_mtime = 6, st_mtime_ns = 6000000000, st_size = 5\<rparr>
     sample_mark_path (sample_recorded, [])))"

definition tick_rewritten :: mworld where
  "tick_rewritten = fst (snd (record_locked sample_marks_env ''file_complete_ingest_mark'' ''a/s|3|10'' ''a/s'' (sample_stamp 3)
     (Fin 0) (sample_stamp 6) sample_mark_path (tick_cleared, [])))"

definition tick_stale :: mworld where
  "tick_stale = fst (snd (record_locked sample_marks_env ''file_complete_ingest_mark'' ''a/t|3|10'' ''a/t'' (sample_stamp 3)
     (Fin 0) (sample_stamp 7) sample_mark_path (tick_rewritten, tick_cache)))"

lemma tick_results:
  "clear_locked sample_marks_env ''file_complete_ingest_mark'' (norm_paths [''a/r'']) \<lparr>st_mtime = 6, st_mtime_ns = 6000000000, st_size = 5\<rparr>
     sample_mark_path (sample_recorded, []) = (Inr 1, tick_cleared, [])"
  "record_locked sample_marks_env ''file_complete_ingest_mark'' ''a/s|3|10'' ''a/s'' (sample_stamp 3) (Fin 0) (sample_stamp 6)
     sample_mark_path (tick_cleared, []) = (Inr True, tick_rewritten, [])"
  "record_locked sample_marks_env ''file_complete_ingest_mark'' ''a/t|3|10'' ''a/t'' (sample_stamp 3) (Fin 0) (sample_stamp 7)
     sample_mark_path (tick_rewritten, tick_cache) = (Inr True, tick_stale, [])"
  by code_simp+

lemma tick_marks:
  "marks_of_paths sample_marks_env ''file_complete_ingest_mark'' sample_mark_path sample_recorded [''a/r''] = {''a/r|3|10''}"
  "mark_keys sample_marks_env ''file_complete_ingest_mark'' sample_mark_path tick_stale = {''a/r|3|10'', ''a/t|3|10''}"
proof -
  obtain v where v: "load_entries_uncached sample_marks_env ''file_complete_ingest_mark'' sample_recorded sample_mark_path =
      Inr [(''a/r|3|10'', v)]" and m: "mark_of_path sample_marks_env sample_recorded ''a/r'' (''a/r|3|10'', v)"
  proof -
    have "case load_entries_uncached sample_marks_env ''file_complete_ingest_mark'' sample_recorded sample_mark_path of
        Inr es \<Rightarrow> length es = 1 \<and> fst (hd es) = ''a/r|3|10'' \<and> mark_of_path sample_marks_env sample_recorded ''a/r'' (hd es)
      | Inl _ \<Rightarrow> False" by code_simp
    then show ?thesis using that by (auto simp: length_Suc_conv split: sum.splits)
  qed
  have "normpath ''a/r'' = ''a/r''" by code_simp
  then show "marks_of_paths sample_marks_env ''file_complete_ingest_mark'' sample_mark_path sample_recorded [''a/r''] = {''a/r|3|10''}"
    using v m by (auto simp: marks_of_paths_def split: if_splits)
  have "map_sum id keys (load_entries_uncached sample_marks_env ''file_complete_ingest_mark'' tick_stale sample_mark_path) =
      Inr [''a/r|3|10'', ''a/t|3|10'']" by code_simp
  then show "mark_keys sample_marks_env ''file_complete_ingest_mark'' sample_mark_path tick_stale = {''a/r|3|10'', ''a/t|3|10''}"
    by (cases "load_entries_uncached sample_marks_env ''file_complete_ingest_mark'' tick_stale sample_mark_path") (auto simp: mark_keys_def)
qed

text \<open>
  Within one tick of the file system's clock the caches are not coherent: from a sound state,
  where a process has cached the document, another process clears a mark and records one of the
  same length in the same tick, so time and size are as before; the first process then records a
  mark from its stale copy, under the lock. The cleared mark is back and the record of
  the other process is lost.
\<close>
theorem same_tick_loses_record:
  "\<exists>es t. imark_run sample_marks_env ''file_complete_ingest_mark'' sample_mark_path sample_tick 0
       (sample_sys sample_recorded {} 6000000000) es t \<and>
     mark_sys_ok sample_marks_env ''file_complete_ingest_mark'' sample_mark_path sample_tick (sample_sys sample_recorded {} 6000000000) \<and>
     es = [MOther, MOther, MCleared {''a/r|3|10''}, MRecorded ''a/s|3|10'', MRecorded ''a/t|3|10''] \<and>
     mark_keys sample_marks_env ''file_complete_ingest_mark'' sample_mark_path (mworld_of t) = {''a/r|3|10'', ''a/t|3|10''}"
proof -
  let ?kd = "''file_complete_ingest_mark''"
  let ?step = "imark_step sample_marks_env ?kd sample_mark_path sample_tick 0"
  define sys where "sys w c = (sample_sys w {} 6000000000)\<lparr>mcaches := (\<lambda>_. [])(0 := c)\<rparr>" for w c
  have sys [simp]: "mworld_of (sys w c) = w" "mcaches (sys w c) 0 = c" "mcaches (sys w c) (Suc 0) = []" "mlast (sys w c) = 6000000000" for w c
    by (simp_all add: sys_def sample_sys_def)
  have sect [simp]: "after_section (Suc 0) 6000000000 (w', []) (sys w c) = sys w' c" for w w' c
    by (simp add: after_section_def sys_def sample_sys_def fun_eq_iff)
  let ?seen = "(sample_sys sample_recorded {} 6000000000)\<lparr>mseen := (\<lambda>_. None)(0 := Some (Some (sample_stamp 6)))\<rparr>"
  have c1: "?step (sample_sys sample_recorded {} 6000000000) MOther ?seen"
    using observe[of sample_marks_env ?kd sample_mark_path sample_tick 0 "sample_sys sample_recorded {} 6000000000" 0] sample_stats(2)
    by (simp add: sample_sys_def)
  have l: "load_cached_mark_entries (load_entries_uncached sample_marks_env ?kd sample_recorded sample_mark_path) (Some (sample_stamp 6))
      sample_mark_path [] = (load_entries_uncached sample_marks_env ?kd sample_recorded sample_mark_path, tick_cache)" by code_simp
  have c2: "?step ?seen MOther (sys sample_recorded tick_cache)"
    using probe[of ?seen 0 "Some (sample_stamp 6)" sample_marks_env ?kd sample_mark_path _ tick_cache sample_tick 0] l
    by (simp add: sample_sys_def sys_def fun_upd_idem)
  have c3: "?step (sys sample_recorded tick_cache) (MCleared {''a/r|3|10''}) (sys tick_cleared tick_cache)"
    using clearing[of tick_cleared "sys sample_recorded tick_cache" sample_tick 0 6000000000 "\<lparr>st_mtime = 6, st_mtime_ns = 6000000000, st_size = 5\<rparr>"
        sample_marks_env ?kd "[''a/r'']" sample_mark_path "Suc 0" "Inr 1" "[]"] tick_results(1) tick_marks(1)
    by (simp add: clock_ok_def)
  have c4: "?step (sys tick_cleared tick_cache) (MRecorded ''a/s|3|10'') (sys tick_rewritten tick_cache)"
    using recording[of tick_rewritten "sys tick_cleared tick_cache" sample_tick 0 6000000000 "sample_stamp 6"
        sample_marks_env ?kd "''a/s|3|10''" "''a/s''" "sample_stamp 3" "Fin 0" sample_mark_path "Suc 0" "Inr True" "[]"] tick_results(2)
    by (simp add: clock_ok_def sample_stamp_def)
  have c5: "?step (sys tick_rewritten tick_cache) (MRecorded ''a/t|3|10'')
      (after_section 0 7000000000 (tick_stale, []) (sys tick_rewritten tick_cache))"
    using recording[of tick_stale "sys tick_rewritten tick_cache" sample_tick 0 7000000000 "sample_stamp 7"
        sample_marks_env ?kd "''a/t|3|10''" "''a/t''" "sample_stamp 3" "Fin 0" sample_mark_path 0 "Inr True" "[]"] tick_results(3)
    by (simp add: clock_ok_def sample_stamp_def)
  have "case load_entries_uncached sample_marks_env ?kd sample_recorded sample_mark_path of Inr es \<Rightarrow> distinct (keys es) | Inl _ \<Rightarrow> False"
    "isfile (mfiles sample_recorded) sample_mark_path" by code_simp+
  then have "mark_sys_ok sample_marks_env ?kd sample_mark_path sample_tick (sample_sys sample_recorded {} 6000000000)"
    using sample_stats(2)
    by (auto simp: mark_sys_ok_def doc_loads_def sample_sys_def coherent_def stamps_ok_def sample_stamp_def split: sum.splits)
  moreover have "mark_keys sample_marks_env ?kd sample_mark_path
      (mworld_of (after_section 0 7000000000 (tick_stale, []) (sys tick_rewritten tick_cache))) = {''a/r|3|10'', ''a/t|3|10''}"
    using tick_marks(2) by (simp add: after_section_def)
  ultimately show ?thesis using imark_run.cons[OF c1 imark_run.cons[OF c2 imark_run.cons[OF c3 imark_run.cons[OF c4
    imark_run.cons[OF c5 imark_run.nil]]]]] by blast
qed

subsection \<open>Clearing\<close>

lemma fingerprint_path:
  assumes "path_fingerprint_key w path = Some key" "CHR ''|'' \<notin> set path"
  shows "CHR ''|'' \<in> set key" "takeWhile (\<lambda>ch. ch \<noteq> CHR ''|'') key = normpath path"
proof -
  have "CHR ''|'' \<notin> set (normpath path)" using normpath_chars[of "CHR ''|''" path] assms(2) by auto
  then have "takeWhile (\<lambda>ch. ch \<noteq> CHR ''|'') (normpath path @ CHR ''|'' # rest) = normpath path" for rest
    by (subst takeWhile_append2) auto
  then show "CHR ''|'' \<in> set key" "takeWhile (\<lambda>ch. ch \<noteq> CHR ''|'') key = normpath path"
    using assms(1) by (auto simp: path_fingerprint_key_def)
qed

context mark_file
begin

lemma no_mark_left:
  assumes "mark_keys me kd mp w' = mark_keys me kd mp w - marks_of_paths me kd mp w paths" "path \<in> set paths" "path \<noteq> []"
    "CHR ''|'' \<notin> set path" "path_fingerprint_key w'' path = Some key"
  shows "key \<notin> mark_keys me kd mp w'"
proof
  assume "key \<in> mark_keys me kd mp w'"
  then have k: "key \<in> mark_keys me kd mp w" "key \<notin> marks_of_paths me kd mp w paths" using assms(1) by auto
  then obtain es meta where "load_entries_uncached me kd w mp = Inr es" "dget es key = Some meta"
    by (auto simp: mark_keys_def keys_dget simp del: set_map split: sum.splits)
  moreover have "mark_of_path me w (normpath path) (key, meta)"
    using fingerprint_path[OF assms(5,4)] key_path_prefix[of "normpath path" key] by (auto simp: mark_of_path_def normpath_def Let_def)
  ultimately show False using k(2) assms(2,3) by (auto simp: marks_of_paths_def)
qed

lemma clear_exact:
  assumes "archive_dir_of me dir \<noteq> []" "ingest_mark_path kd (archive_dir_of me dir) = Inr mp"
    "clear_ingest_marks me kd dir paths stamp (w, c) = (Inr n, w', c')" "coherent me kd mp w c" "doc_loads me kd mp w"
  defines "D \<equiv> marks_of_paths me kd mp w paths"
  shows "n = card D \<and> mark_keys me kd mp w' = mark_keys me kd mp w - D \<and>
    (path \<in> set paths \<and> path \<noteq> [] \<and> CHR ''|'' \<notin> set path \<longrightarrow> fst (has_ingest_mark me kd dir path w' c') = Inr False)"
proof -
  let ?ps = "norm_paths paths"
  have main: "n = card D \<and> mark_keys me kd mp w' = mark_keys me kd mp w - D \<and> coherent me kd mp w' c' \<and> doc_loads me kd mp w'"
  proof (cases "?ps = []")
    case True
    then have "D = {}" by (auto simp: D_def marks_of_paths_def filter_empty_conv split: sum.split)
    then show ?thesis using assms(3-5) True by (simp add: clear_ingest_marks_def)
  next
    case False
    then have "clear_locked me kd ?ps stamp mp (w, c) = (Inr n, w', c')"
      using assms(1-3,5) by (simp add: clear_ingest_marks_def doc_loads_def)
    from clear_locked_effect[OF this assms(4,5)] show ?thesis
      using assms(4,5) coherent_uncached[of c' mp me kd w'] load_coherent(2)[OF assms(4)] by (auto simp: D_def)
  qed
  moreover have "key \<notin> mark_keys me kd mp w'" if "path \<in> set paths" "path \<noteq> []" "CHR ''|'' \<notin> set path" "path_fingerprint_key w' path = Some key" for key
    using that main by (intro no_mark_left[where w = w and w'' = w' and paths = paths and path = path]) (auto simp: D_def)
  ultimately show ?thesis using has_exact[OF _ _ assms(1,2), of w' c' path] by (auto split: option.split)
qed

end

text \<open>
  C27. Clearing is exact: when \<^verbatim>\<open>clear_*_ingest_marks\<close> returns, it has removed precisely the marks
  that belong to one of the paths (the metadata names it, the key starts with it and a bar,
  or the key is its present fingerprint), has returned their number and has left every other mark. A path
  that is listed is not marked any more whatever its size and time are.
\<close>
theorem clear_marks_exact:
  assumes "kd \<in> {''file_complete_ingest_mark'', ''zero_host_ingest_mark''}" "ingest_mark_path kd dir = Inr mp" "dir \<noteq> []"
    "clear_ingest_marks me kd (Some dir) paths stamp (w, c) = (Inr n, w', c')" "coherent me kd mp w c" "doc_loads me kd mp w"
    "D = marks_of_paths me kd mp w paths"
  shows "n = card D \<and> mark_keys me kd mp w' = mark_keys me kd mp w - D \<and>
    (path \<in> set paths \<and> path \<noteq> [] \<and> CHR ''|'' \<notin> set path \<longrightarrow> fst (has_ingest_mark me kd (Some dir) path w' c') = Inr False)"
proof -
  have d: "archive_dir_of me (Some dir) \<noteq> []" "ingest_mark_path kd (archive_dir_of me (Some dir)) = Inr mp"
    using assms(2,3) by (simp_all add: archive_dir_of_def)
  from assms(1) show ?thesis
  proof (elim insertE emptyE)
    assume k: "kd = ''file_complete_ingest_mark''"
    have m: "mp = path_join dir ''.sync_timedb_file_complete_ingest_mark.json''" using assms(2) by (simp add: k ingest_mark_paths)
    show ?thesis unfolding assms(7) using file_complete.clear_exact[OF d[unfolded k m] assms(4-6)[unfolded k m], of path] unfolding k m .
  next
    assume k: "kd = ''zero_host_ingest_mark''"
    have m: "mp = path_join dir ''.sync_timedb_zero_host_ingest_mark.json''" using assms(2) by (simp add: k ingest_mark_paths)
    show ?thesis unfolding assms(7) using zero_host.clear_exact[OF d[unfolded k m] assms(4-6)[unfolded k m], of path] unfolding k m .
  qed
qed

theorem clear_marks_exact_witness:
  "\<exists>w' c'. clear_ingest_marks sample_marks_env ''file_complete_ingest_mark'' (Some ''a'') [''a/r''] (sample_stamp 8) (sample_recorded, []) =
      (Inr 1, w', c') \<and>
    fst (has_ingest_mark sample_marks_env ''file_complete_ingest_mark'' (Some ''a'') ''a/r'' w' c') = Inr False"
proof -
  define x where "x = clear_ingest_marks sample_marks_env ''file_complete_ingest_mark'' (Some ''a'') [''a/r''] (sample_stamp 8) (sample_recorded, [])"
  have "fst x = Inr 1" unfolding x_def by code_simp
  then obtain w' c' where x: "x = (Inr 1, w', c')" by (metis prod.collapse)
  have p: "ingest_mark_path ''file_complete_ingest_mark'' ''a'' = Inr sample_mark_path" by code_simp
  have co: "coherent sample_marks_env ''file_complete_ingest_mark'' sample_mark_path sample_recorded []" by (simp add: coherent_def)
  have "(case load_entries_uncached sample_marks_env ''file_complete_ingest_mark'' sample_recorded sample_mark_path of
      Inr es \<Rightarrow> distinct (keys es) | Inl _ \<Rightarrow> False)" "isfile (mfiles sample_recorded) sample_mark_path" by code_simp+
  then have dl: "doc_loads sample_marks_env ''file_complete_ingest_mark'' sample_mark_path sample_recorded"
    by (auto simp: doc_loads_def split: sum.splits)
  show ?thesis using clear_marks_exact[OF _ p _ x[unfolded x_def] co dl refl, of "''a/r''"] x unfolding x_def by auto
qed

end
