(* ===== verification/Members_Store.thy ===== *)
theory Members_Store
  imports Persistence_Docs
begin

text \<open>
  The archive member store of \<^verbatim>\<open>dbload/lib/sync_timedb_archive_members_store.py\<close>: per archive day a
  shard with the members of the day's tar file, who is populating it and who waits for it, and
  the process-wide queue of populate jobs. A method body under the shard's lock is one function;
  what a method does after releasing the lock (setting events, writing the day's document) is a
  function of its own, and the loop of \<^verbatim>\<open>merge_members\<close> is split at its two critical sections.
  Python objects whose identity matters, the member dicts compared with \<^verbatim>\<open>is\<close> and the
  \<^verbatim>\<open>threading.Event\<close>s, are numbered by \<open>sh_next\<close>; \<open>sh_fired\<close> holds the events that are set.
\<close>

type_synonym member_map = "(string \<times> int) list"

record day_shard =
  sh_members :: "(string \<times> (nat \<times> member_map)) list"
  sh_complete :: "(string \<times> bool) list"
  sh_day_skip :: "(string \<times> string) option"
  sh_degraded :: bool
  sh_dedupe_hint :: bool
  sh_events :: "(string \<times> nat) list"
  sh_populate_owner :: "(string \<times> int) list"
  sh_tar_hot :: string
  sh_append_inflight :: bool
  sh_restore :: string
  sh_populate_source :: "(string \<times> string) list"
  sh_next :: nat
  sh_fired :: "nat list"

definition new_shard :: day_shard where
  "new_shard = \<lparr>sh_members = [], sh_complete = [], sh_day_skip = None, sh_degraded = False, sh_dedupe_hint = False,
     sh_events = [], sh_populate_owner = [], sh_tar_hot = [], sh_append_inflight = False, sh_restore = [],
     sh_populate_source = [], sh_next = 0, sh_fired = []\<rparr>"

definition set_threading_events :: "nat list \<Rightarrow> day_shard \<Rightarrow> day_shard" where
  "set_threading_events evs sh = sh\<lparr>sh_fired := evs @ sh_fired sh\<rparr>"

subsection \<open>Events\<close>

definition event_locked :: "string \<Rightarrow> day_shard \<Rightarrow> nat \<times> day_shard" where
  "event_locked ident sh = (case dget (sh_events sh) ident of
     Some ev \<Rightarrow> (ev, sh)
   | None \<Rightarrow> (sh_next sh, sh\<lparr>sh_events := dset ident (sh_next sh) (sh_events sh), sh_next := Suc (sh_next sh)\<rparr>))"

definition wake_and_drop_event_locked :: "string \<Rightarrow> day_shard \<Rightarrow> nat list \<times> day_shard" where
  \<comment> \<open>The event, if there is one.\<close>
  "wake_and_drop_event_locked ident sh =
     ((case dget (sh_events sh) ident of Some ev \<Rightarrow> [ev] | None \<Rightarrow> []), sh\<lparr>sh_events := ddel ident (sh_events sh)\<rparr>)"

definition stale :: "string \<Rightarrow> day_shard \<Rightarrow> string \<Rightarrow> bool" where
  "stale keep sh identity = (identity \<noteq> keep \<and> identity \<notin> set (keys (sh_populate_owner sh)))"

definition drop_stale_identities_locked :: "string \<Rightarrow> day_shard \<Rightarrow> nat list \<times> day_shard" where
  "drop_stale_identities_locked keep sh =
     (map snd (filter (\<lambda>(i, _). stale keep sh i) (sh_events sh)),
      sh\<lparr>sh_members := filter (\<lambda>(i, _). \<not> stale keep sh i) (sh_members sh),
         sh_complete := filter (\<lambda>(i, _). \<not> (i \<in> set (keys (sh_members sh)) \<and> stale keep sh i)) (sh_complete sh),
         sh_events := filter (\<lambda>(i, _). \<not> stale keep sh i) (sh_events sh)\<rparr>)"

subsection \<open>Populating and waiting\<close>

definition is_complete :: "string \<Rightarrow> day_shard \<Rightarrow> bool" where
  "is_complete ident sh = (dget (sh_complete sh) ident = Some True)"

definition try_begin_populate :: "int \<Rightarrow> string \<Rightarrow> day_shard \<Rightarrow> bool \<times> day_shard" where
  "try_begin_populate thread_ident ident sh =
     (if ident \<in> set (keys (sh_populate_owner sh)) then (False, sh)
      else if is_complete ident sh then (False, sh)
      else let (ev, sh1) = event_locked ident (sh\<lparr>sh_populate_owner := dset ident thread_ident (sh_populate_owner sh)\<rparr>)
           in (True, sh1\<lparr>sh_fired := removeAll ev (sh_fired sh1)\<rparr>))"

definition put_members :: "string \<Rightarrow> member_map \<Rightarrow> day_shard \<Rightarrow> day_shard" where
  \<comment> \<open>\<^verbatim>\<open>shard.members[ident] = d\<close> for a new dict \<^verbatim>\<open>d\<close>\<close>
  "put_members ident d sh = sh\<lparr>sh_members := dset ident (sh_next sh, d) (sh_members sh), sh_next := Suc (sh_next sh)\<rparr>"

definition put_complete :: "string \<Rightarrow> day_shard \<Rightarrow> day_shard" where
  "put_complete ident sh = sh\<lparr>sh_complete := dset ident True (sh_complete sh)\<rparr>"

definition wake_and_drop_stale :: "string \<Rightarrow> day_shard \<Rightarrow> nat list \<times> day_shard" where
  "wake_and_drop_stale ident sh =
     (let (evs1, sh1) = wake_and_drop_event_locked ident sh; (evs2, sh2) = drop_stale_identities_locked ident sh1 in (evs1 @ evs2, sh2))"

definition finish_populate_locked :: "string \<Rightarrow> member_map option \<Rightarrow> bool \<Rightarrow> day_shard \<Rightarrow> nat list \<times> day_shard" where
  "finish_populate_locked ident members compl sh =
     (let sh1 = (case members of None \<Rightarrow> sh | Some d \<Rightarrow> put_members ident d sh);
          sh2 = (if compl then put_complete ident sh1 else sh1);
          sh3 = sh2\<lparr>sh_populate_owner := ddel ident (sh_populate_owner sh2)\<rparr>
      in if compl then wake_and_drop_stale ident sh3 else wake_and_drop_event_locked ident sh3)"

definition store_complete_locked :: "string \<Rightarrow> member_map \<Rightarrow> bool \<Rightarrow> day_shard \<Rightarrow> nat list \<times> day_shard" where
  "store_complete_locked ident members saw_duplicates sh =
     (let sh1 = put_complete ident (put_members ident members sh);
          sh2 = (if saw_duplicates then sh1\<lparr>sh_dedupe_hint := True\<rparr> else sh1)
      in wake_and_drop_stale ident sh2)"

definition merge_map :: "member_map \<Rightarrow> member_map \<Rightarrow> member_map" where
  \<comment> \<open>The larger size of every member wins.\<close>
  "merge_map incoming current = foldl (\<lambda>current (name, size_i). (case dget current name of
     None \<Rightarrow> dset name size_i current
   | Some prev \<Rightarrow> (if size_i > prev then dset name size_i current else current))) current incoming"

definition merge_read :: "string \<Rightarrow> day_shard \<Rightarrow> (nat \<times> member_map) option" where
  "merge_read ident sh = dget (sh_members sh) ident"

definition merge_commit :: "string \<Rightarrow> member_map \<Rightarrow> bool \<Rightarrow> (nat \<times> member_map) option \<Rightarrow> day_shard \<Rightarrow> (nat list \<times> day_shard) option" where
  \<comment> \<open>\<open>None\<close>: the dict was replaced in between, \<^verbatim>\<open>continue\<close>.\<close>
  "merge_commit ident incoming saw_duplicates members_ref sh =
     (let current = merge_map incoming (case members_ref of None \<Rightarrow> [] | Some (_, d) \<Rightarrow> d) in
      if map_option fst (dget (sh_members sh) ident) \<noteq> map_option fst members_ref then None
      else let sh1 = put_complete ident (put_members ident current sh);
               sh2 = (if saw_duplicates then sh1\<lparr>sh_dedupe_hint := True\<rparr> else sh1)
           in Some (wake_and_drop_stale ident (sh2\<lparr>sh_degraded := False\<rparr>)))"

definition clear_incomplete_locked :: "string \<Rightarrow> day_shard \<Rightarrow> nat list \<times> day_shard" where
  "clear_incomplete_locked ident sh =
     (if is_complete ident sh then ([], sh)
      else wake_and_drop_event_locked ident
        (sh\<lparr>sh_members := ddel ident (sh_members sh), sh_populate_owner := ddel ident (sh_populate_owner sh)\<rparr>))"

definition set_day_skip_locked :: "string \<Rightarrow> string \<Rightarrow> day_shard \<Rightarrow> nat list \<times> day_shard" where
  "set_day_skip_locked kd detail sh = (map snd (sh_events sh), sh\<lparr>sh_day_skip := Some (kd, detail), sh_events := []\<rparr>)"

definition invalidate_locked :: "string \<Rightarrow> day_shard \<Rightarrow> nat list \<times> day_shard" where
  "invalidate_locked ident sh = wake_and_drop_event_locked ident
     (sh\<lparr>sh_members := ddel ident (sh_members sh), sh_complete := ddel ident (sh_complete sh),
         sh_populate_owner := ddel ident (sh_populate_owner sh), sh_populate_source := []\<rparr>)"

definition reset_shard :: "day_shard \<Rightarrow> nat list \<times> day_shard" where
  \<comment> \<open>What \<^verbatim>\<open>invalidate_all\<close> does to each shard.\<close>
  "reset_shard sh = (map snd (sh_events sh), new_shard\<lparr>sh_next := sh_next sh, sh_fired := sh_fired sh\<rparr>)"

datatype poll_result = Skipped | Members member_map | Blocked nat

definition wait_poll :: "string \<Rightarrow> day_shard \<Rightarrow> poll_result \<times> day_shard" where
  \<comment> \<open>One turn of \<^verbatim>\<open>wait_for_complete\<close> up to the wait.\<close>
  "wait_poll ident sh =
     (if sh_day_skip sh \<noteq> None then (Skipped, sh)
      else if is_complete ident sh then (Members (case dget (sh_members sh) ident of Some (_, d) \<Rightarrow> d | None \<Rightarrow> []), sh)
      else let (ev, sh') = event_locked ident sh in (Blocked ev, sh'))"

definition lookup_complete_map :: "string \<Rightarrow> day_shard \<Rightarrow> member_map option" where
  \<comment> \<open>Also the last look of \<^verbatim>\<open>wait_for_complete\<close>, after its deadline.\<close>
  "lookup_complete_map ident sh =
     (if is_complete ident sh then Some (case dget (sh_members sh) ident of Some (_, d) \<Rightarrow> d | None \<Rightarrow> []) else None)"

definition lookup_member :: "string \<Rightarrow> string \<Rightarrow> day_shard \<Rightarrow> int option" where
  "lookup_member ident name sh =
     (if sh_day_skip sh \<noteq> None then None
      else (case dget (sh_members sh) ident of None \<Rightarrow> None | Some (_, d) \<Rightarrow> dget d name))"

definition is_fully_warm :: "string \<Rightarrow> day_shard \<Rightarrow> bool" where
  "is_fully_warm ident sh =
     (is_complete ident sh \<and> (case dget (sh_members sh) ident of Some (_, d) \<Rightarrow> d \<noteq> [] | None \<Rightarrow> False))"

subsection \<open>Flags, restore tokens, counts\<close>

definition set_degraded :: "day_shard \<Rightarrow> day_shard" where
  "set_degraded sh = sh\<lparr>sh_degraded := True\<rparr>"

definition clear_degraded :: "day_shard \<Rightarrow> day_shard" where
  "clear_degraded sh = sh\<lparr>sh_degraded := False\<rparr>"

definition clear_day_skip :: "day_shard \<Rightarrow> day_shard" where
  "clear_day_skip sh = sh\<lparr>sh_day_skip := None\<rparr>"

definition clear_dedupe_hint :: "day_shard \<Rightarrow> day_shard" where
  "clear_dedupe_hint sh = sh\<lparr>sh_dedupe_hint := False\<rparr>"

definition set_ingest_tar_hot :: "string \<Rightarrow> day_shard \<Rightarrow> day_shard" where
  "set_ingest_tar_hot reason sh = sh\<lparr>sh_tar_hot := reason\<rparr>"

definition clear_ingest_tar_hot :: "day_shard \<Rightarrow> day_shard" where
  "clear_ingest_tar_hot sh = sh\<lparr>sh_tar_hot := []\<rparr>"

definition set_append_inflight :: "day_shard \<Rightarrow> day_shard" where
  "set_append_inflight sh = sh\<lparr>sh_append_inflight := True\<rparr>"

definition clear_append_inflight :: "day_shard \<Rightarrow> day_shard" where
  "clear_append_inflight sh = sh\<lparr>sh_append_inflight := False\<rparr>"

definition try_acquire_restore :: "string \<Rightarrow> string \<Rightarrow> day_shard \<Rightarrow> bool \<times> day_shard" where
  "try_acquire_restore day token sh =
     (if day = [] \<or> day = ''unknown'' then (False, sh)
      else if sh_restore sh \<noteq> [] \<and> sh_restore sh \<noteq> token then (False, sh)
      else (True, sh\<lparr>sh_restore := token\<rparr>))"

definition renew_restore :: "string \<Rightarrow> day_shard \<Rightarrow> bool" where
  "renew_restore token sh = (sh_restore sh = token)"

definition clear_restore :: "string option \<Rightarrow> day_shard \<Rightarrow> day_shard" where
  "clear_restore token sh = (if token = None \<or> Some (sh_restore sh) = token then sh\<lparr>sh_restore := []\<rparr> else sh)"

definition restore_in_progress :: "day_shard \<Rightarrow> bool" where
  "restore_in_progress sh = (sh_restore sh \<noteq> [])"

definition complete_identity_count :: "day_shard \<Rightarrow> nat" where
  "complete_identity_count sh = length (filter snd (sh_complete sh))"

definition populate_owner_active :: "day_shard \<Rightarrow> bool" where
  "populate_owner_active sh = (sh_populate_owner sh \<noteq> [])"

definition set_populate_source :: "string \<Rightarrow> string \<Rightarrow> day_shard \<Rightarrow> day_shard" where
  "set_populate_source canonical source sh = sh\<lparr>sh_populate_source := dset canonical source (sh_populate_source sh)\<rparr>"

definition consume_populate_source :: "string \<Rightarrow> day_shard \<Rightarrow> string option \<times> day_shard" where
  "consume_populate_source canonical sh =
     (dget (sh_populate_source sh) canonical, sh\<lparr>sh_populate_source := ddel canonical (sh_populate_source sh)\<rparr>)"

definition basename :: "string \<Rightarrow> string" where
  \<comment> \<open>\<^verbatim>\<open>os.path.basename\<close>: what follows the last slash\<close>
  "basename path = rev (takeWhile (\<lambda>c. c \<noteq> CHR ''/'') (rev path))"

definition endswith :: "string \<Rightarrow> string \<Rightarrow> bool" where
  "endswith s sfx = startswith (rev s) (rev sfx)"

definition day_token_from_canonical :: "string \<Rightarrow> string" where
  "day_token_from_canonical canonical = (let base = basename canonical in
     (case filter (endswith base) [''.tar.zst'', ''.tar.gz'', ''.tar''] of
        sfx # _ \<Rightarrow> take (length base - length sfx) base
      | [] \<Rightarrow> (if base = [] then ''unknown'' else base)))"

subsection \<open>The day's document\<close>

definition MEMBERS_DAY_SCHEMA_VERSION :: int where
  "MEMBERS_DAY_SCHEMA_VERSION = 1"

definition store_dir :: "string \<Rightarrow> string res" where
  "store_dir dir = artifact_path dir ''archive_members_store_dir''"

definition day_path :: "string \<Rightarrow> string \<Rightarrow> string res" where
  "day_path dir day = bindE (store_dir dir) (\<lambda>sd. Inr (path_join sd (day @ ''.json'')))"

definition day_payload :: "string \<Rightarrow> day_shard \<Rightarrow> json" where
  \<comment> \<open>Taken under the shard's lock.\<close>
  "day_payload day sh = JObj
     [(''schema_version'', JInt MEMBERS_DAY_SCHEMA_VERSION), (''day_token'', JStr day),
      (''identities'', JObj (map (\<lambda>(i, (_, d)). (i, JObj [(''members'', JObj (map (\<lambda>(n, sz). (n, JInt sz)) d)), (''complete'', JBool True)]))
         (filter (\<lambda>(i, _). is_complete i sh) (sh_members sh)))),
      (''day_skip'', (case sh_day_skip sh of None \<Rightarrow> JNull | Some (kd, detail) \<Rightarrow> JObj [(''kind'', JStr kd), (''detail'', JStr detail)])),
      (''degraded'', JBool (sh_degraded sh)), (''dedupe_hint'', JBool (sh_dedupe_hint sh))]"

definition write_day :: "os_env \<Rightarrow> string \<Rightarrow> string \<Rightarrow> json \<Rightarrow> files \<Rightarrow> files res" where
  \<comment> \<open>After the lock is released.\<close>
  "write_day env dir day payload fs =
     bindE (day_path dir day) (\<lambda>path. save_persistence_document env path ''archive_members_day'' payload True fs)"

definition persist_day :: "os_env \<Rightarrow> string \<Rightarrow> string \<Rightarrow> day_shard \<Rightarrow> files \<Rightarrow> files res" where
  "persist_day env dir day sh fs = write_day env dir day (day_payload day sh) fs"

fun items_of_json :: "json \<Rightarrow> (string \<times> json) list res" where
  "items_of_json (JObj kvs) = Inr kvs" | "items_of_json _ = Inl AttributeError"

definition load_identity :: "string \<times> json \<Rightarrow> (string \<times> member_map) list res" where
  "load_identity = (\<lambda>(identity, body).
     (if \<not> is_obj body \<or> \<not> truthy (jget body ''complete'') then Inr []
      else bindE (items_of_json (jor (jget body ''members'') (JObj []))) (\<lambda>ms.
        bindE (mapE (\<lambda>(member, sz). bindE (int_of_json sz) (\<lambda>n. Inr (member, n))) ms) (\<lambda>d. Inr [(identity, d)]))))"

definition load_shard :: "(json \<Rightarrow> string) \<Rightarrow> json \<Rightarrow> day_shard \<Rightarrow> day_shard res" where
  "load_shard rp raw sh =
     (let identities = jor (jget raw ''identities'') (JObj []); skip = jget raw ''day_skip'';
          skip_payload = (if is_obj skip \<and> truthy (jget skip ''kind'')
            then Some (str_of_json rp (jget skip ''kind''), str_of_json rp (jor (jget skip ''detail'') (JStr []))) else None) in
      bindE (if is_obj identities then mapE load_identity (obj_of identities) else Inr []) (\<lambda>ready.
        Inr (let sh1 = sh\<lparr>sh_day_skip := (if skip_payload = None then sh_day_skip sh else skip_payload),
                          sh_degraded := (truthy (jget raw ''degraded'') \<or> sh_degraded sh),
                          sh_dedupe_hint := (truthy (jget raw ''dedupe_hint'') \<or> sh_dedupe_hint sh)\<rparr>
             in foldl (\<lambda>sh (i, d). put_complete i (put_members i d sh)) sh1 (concat ready))))"

definition load_day_file :: "(json \<Rightarrow> string) \<Rightarrow> files \<Rightarrow> string \<Rightarrow> string \<Rightarrow> (string \<times> day_shard) list \<Rightarrow> (string \<times> day_shard) list res" where
  \<comment> \<open>One turn of the loop of \<^verbatim>\<open>load\<close>.\<close>
  "load_day_file rp fs sd name shards =
     bindE (load_persistence_document rp fs (path_join sd name) ''archive_members_day'' (JObj [])) (\<lambda>raw.
       if \<not> is_obj raw then Inr shards
       else let day = str_of_json rp (jor (jget raw ''day_token'') (JStr (take (length name - 5) name)))
            in bindE (load_shard rp raw (case dget shards day of Some sh \<Rightarrow> sh | None \<Rightarrow> new_shard)) (\<lambda>sh. Inr (dset day sh shards)))"

definition listdir :: "files \<Rightarrow> string \<Rightarrow> string list" where
  \<comment> \<open>The files in a directory.\<close>
  "listdir fs dir = filter (\<lambda>n. CHR ''/'' \<notin> set n) (map (drop (length dir + 1)) (filter (\<lambda>f. startswith f (dir @ ''/'')) (keys fs)))"

definition load_members_store :: "(json \<Rightarrow> string) \<Rightarrow> files \<Rightarrow> string \<Rightarrow> (string \<times> day_shard) list \<Rightarrow> (string \<times> day_shard) list res" where
  "load_members_store rp fs dir shards = bindE (store_dir dir) (\<lambda>sd.
     if \<not> isdir fs sd then Inr shards
     else foldE (\<lambda>shards name. load_day_file rp fs sd name shards) shards (filter (\<lambda>n. endswith n ''.json'') (listdir fs sd)))"

subsection \<open>Whole methods\<close>

definition after_locked :: "os_env \<Rightarrow> string \<Rightarrow> string \<Rightarrow> bool \<Rightarrow> nat list \<times> day_shard \<Rightarrow> files \<Rightarrow> day_shard \<times> files res" where
  \<comment> \<open>Set the dropped events and write the document, as the methods do once the lock is released.\<close>
  "after_locked env dir day persist = (\<lambda>(evs, sh) fs. let sh' = set_threading_events evs sh in
     (sh', if persist then persist_day env dir day sh' fs else Inr fs))"

definition finish_populate :: "os_env \<Rightarrow> string \<Rightarrow> string \<Rightarrow> string \<Rightarrow> member_map option \<Rightarrow> bool \<Rightarrow> day_shard \<Rightarrow> files \<Rightarrow> day_shard \<times> files res" where
  "finish_populate env dir day ident members compl sh = after_locked env dir day compl (finish_populate_locked ident members compl sh)"

definition store_complete :: "os_env \<Rightarrow> string \<Rightarrow> string \<Rightarrow> string \<Rightarrow> member_map \<Rightarrow> bool \<Rightarrow> day_shard \<Rightarrow> files \<Rightarrow> day_shard \<times> files res" where
  "store_complete env dir day ident members dup sh = after_locked env dir day True (store_complete_locked ident members dup sh)"

definition set_day_skip :: "os_env \<Rightarrow> string \<Rightarrow> string \<Rightarrow> string \<Rightarrow> string \<Rightarrow> day_shard \<Rightarrow> files \<Rightarrow> day_shard \<times> files res" where
  "set_day_skip env dir day kd detail sh = after_locked env dir day True (set_day_skip_locked kd detail sh)"

definition clear_incomplete :: "os_env \<Rightarrow> string \<Rightarrow> string \<Rightarrow> string \<Rightarrow> day_shard \<Rightarrow> files \<Rightarrow> day_shard \<times> files res" where
  "clear_incomplete env dir day ident sh = after_locked env dir day False (clear_incomplete_locked ident sh)"

definition invalidate :: "os_env \<Rightarrow> string \<Rightarrow> string \<Rightarrow> string \<Rightarrow> day_shard \<Rightarrow> files \<Rightarrow> day_shard \<times> files res" where
  "invalidate env dir day ident sh = after_locked env dir day True (invalidate_locked ident sh)"

definition merge_members :: "os_env \<Rightarrow> string \<Rightarrow> string \<Rightarrow> string \<Rightarrow> member_map \<Rightarrow> bool \<Rightarrow> day_shard \<Rightarrow> day_shard \<Rightarrow> files \<Rightarrow>
    (bool \<times> day_shard \<times> files res) option" where
  \<comment> \<open>One turn of the loop: \<open>sh0\<close> is the shard when the dict is read, \<open>sh\<close> when it is written back.\<close>
  "merge_members env dir day ident member_map dup sh0 sh fs =
     (if member_map = [] then Some (False, sh, Inr fs)
      else map_option (\<lambda>l. (True, after_locked env dir day True l fs)) (merge_commit ident member_map dup (merge_read ident sh0) sh))"

subsection \<open>Populate queue\<close>

record populate_queue =
  jobs_hot :: "json list"
  jobs_cold :: "json list"
  populate_queued :: "string list"

definition job_day :: "(json \<Rightarrow> string) \<Rightarrow> json \<Rightarrow> string" where
  "job_day rp job = (if is_obj job then str_of_json rp (jor (jget job ''day_token'') (JStr [])) else [])"

definition populate_job_hot_rank :: "(json \<Rightarrow> string) \<Rightarrow> (string \<Rightarrow> string) \<Rightarrow> json \<Rightarrow> int" where
  \<comment> \<open>\<open>hot_reason\<close> is \<^verbatim>\<open>ingest_tar_hot_reason\<close>, the \<open>sh_tar_hot\<close> of a day's shard.\<close>
  "populate_job_hot_rank rp hot_reason job =
     (if job_day rp job = [] then 0
      else get_or 0 [(''chunk_prewarm'', 3), (''populate_wait'', 2), (''populate_enqueue'', 1)] (hot_reason (job_day rp job)))"

definition enqueue_populate_job_locked :: "json \<Rightarrow> int \<Rightarrow> populate_queue \<Rightarrow> populate_queue" where
  "enqueue_populate_job_locked job rank q =
     (if rank > 0 then q\<lparr>jobs_hot := jobs_hot q @ [job]\<rparr> else q\<lparr>jobs_cold := jobs_cold q @ [job]\<rparr>)"

definition enqueue_populate :: "(json \<Rightarrow> string) \<Rightarrow> (string \<Rightarrow> string) \<Rightarrow> json \<Rightarrow> populate_queue \<Rightarrow> bool \<times> populate_queue" where
  "enqueue_populate rp hot_reason job q =
     (let day = job_day rp job; hot_rank = populate_job_hot_rank rp hot_reason job in
      if day \<noteq> [] \<and> day \<in> set (populate_queued q) then (False, q)
      else (True, enqueue_populate_job_locked job hot_rank
             (if day \<noteq> [] then q\<lparr>populate_queued := day # populate_queued q\<rparr> else q)))"

definition dequeue_populate :: "populate_queue \<Rightarrow> json option \<times> populate_queue" where
  \<comment> \<open>\<open>None\<close> when nothing was queued until the deadline.\<close>
  "dequeue_populate q = (case jobs_hot q of
     job # rest \<Rightarrow> (Some job, q\<lparr>jobs_hot := rest\<rparr>)
   | [] \<Rightarrow> (case jobs_cold q of job # rest \<Rightarrow> (Some job, q\<lparr>jobs_cold := rest\<rparr>) | [] \<Rightarrow> (None, q)))"

definition complete_populate_job :: "(json \<Rightarrow> string) \<Rightarrow> json \<Rightarrow> populate_queue \<Rightarrow> populate_queue" where
  "complete_populate_job rp job q =
     (if job_day rp job = [] then q else q\<lparr>populate_queued := removeAll (job_day rp job) (populate_queued q)\<rparr>)"

definition requeue_populate_job :: "(json \<Rightarrow> string) \<Rightarrow> (string \<Rightarrow> string) \<Rightarrow> json \<Rightarrow> populate_queue \<Rightarrow> populate_queue" where
  "requeue_populate_job rp hot_reason job q =
     (if \<not> is_obj job then q else enqueue_populate_job_locked job (populate_job_hot_rank rp hot_reason job) q)"

subsection \<open>The whole store\<close>

record members_store =
  ms_shards :: "(string \<times> day_shard) list"
  ms_queue :: populate_queue
  ms_files :: files

definition shard_at :: "string \<Rightarrow> members_store \<Rightarrow> day_shard \<times> members_store" where
  \<comment> \<open>The day's shard, made on first use.\<close>
  "shard_at day ms = (case dget (ms_shards ms) day of
     Some sh \<Rightarrow> (sh, ms)
   | None \<Rightarrow> (new_shard, ms\<lparr>ms_shards := dset day new_shard (ms_shards ms)\<rparr>))"

definition list_dedupe_hint_days :: "members_store \<Rightarrow> string list" where
  "list_dedupe_hint_days ms = sort (map fst (filter (\<lambda>(_, sh). sh_dedupe_hint sh) (ms_shards ms)))"

definition new_members_store :: "(json \<Rightarrow> string) \<Rightarrow> string \<Rightarrow> files \<Rightarrow> members_store res" where
  "new_members_store rp dir fs =
     bindE (if dir = [] then Inr [] else load_members_store rp fs dir []) (\<lambda>shards.
       Inr \<lparr>ms_shards = shards, ms_queue = \<lparr>jobs_hot = [], jobs_cold = [], populate_queued = []\<rparr>, ms_files = fs\<rparr>)"

definition unlink_day_files :: "os_env \<Rightarrow> string \<Rightarrow> files \<Rightarrow> files" where
  "unlink_day_files env sd fs =
     foldl (\<lambda>fs name. unlink_path env (path_join sd name) fs) fs (filter (\<lambda>n. endswith n ''.json'') (listdir fs sd))"

definition invalidate_all :: "os_env \<Rightarrow> string \<Rightarrow> members_store \<Rightarrow> ((string \<times> day_shard) list \<times> members_store) res" where
  \<comment> \<open>The cleared shard objects, which threads may still hold, and the emptied store.\<close>
  "invalidate_all env dir ms = bindE (store_dir dir) (\<lambda>sd.
     Inr (map (\<lambda>(day, sh). (day, let (evs, sh') = reset_shard sh in set_threading_events evs sh')) (ms_shards ms),
          \<lparr>ms_shards = [], ms_queue = \<lparr>jobs_hot = [], jobs_cold = [], populate_queued = []\<rparr>,
           ms_files = (if isdir (ms_files ms) sd then unlink_day_files env sd (ms_files ms) else ms_files ms)\<rparr>))"

subsection \<open>The queue serves hot days first, in order, and each day once\<close>

fun drain :: "nat \<Rightarrow> populate_queue \<Rightarrow> json list" where
  "drain 0 q = []"
| "drain (Suc n) q = (case dequeue_populate q of (None, _) \<Rightarrow> [] | (Some job, q') \<Rightarrow> job # drain n q')"

lemma drain_order: "length (jobs_hot q) + length (jobs_cold q) \<le> n \<Longrightarrow> drain n q = jobs_hot q @ jobs_cold q"
proof (induction n arbitrary: q)
  case (Suc n)
  then show ?case
    by (cases "jobs_hot q"; cases "jobs_cold q") (auto simp: dequeue_populate_def)
qed simp

definition queue_ok :: "(json \<Rightarrow> string) \<Rightarrow> populate_queue \<Rightarrow> bool" where
  \<comment> \<open>Queued days are registered and queued once.\<close>
  "queue_ok rp q \<longleftrightarrow> distinct (filter (\<lambda>d. d \<noteq> []) (map (job_day rp) (jobs_hot q @ jobs_cold q))) \<and>
     set (filter (\<lambda>d. d \<noteq> []) (map (job_day rp) (jobs_hot q @ jobs_cold q))) \<subseteq> set (populate_queued q)"

lemma enqueue_queue_ok: "queue_ok rp q \<Longrightarrow> queue_ok rp (snd (enqueue_populate rp hot job q))"
  by (auto simp: enqueue_populate_def enqueue_populate_job_locked_def queue_ok_def Let_def)

lemma dequeue_head:
  assumes "dequeue_populate q = (Some job, q')"
  shows "jobs_hot q @ jobs_cold q = job # jobs_hot q' @ jobs_cold q'" "populate_queued q' = populate_queued q"
  using assms by (auto simp: dequeue_populate_def split: list.splits)

lemma dequeue_queue_ok: "queue_ok rp q \<Longrightarrow> dequeue_populate q = (Some job, q') \<Longrightarrow> queue_ok rp q'"
  unfolding queue_ok_def dequeue_head by (auto simp del: filter_append map_append split: if_splits)

subsection \<open>A day survives a restart\<close>

definition members_of :: "string \<Rightarrow> day_shard \<Rightarrow> member_map" where
  "members_of i sh = (case dget (sh_members sh) i of None \<Rightarrow> [] | Some (_, d) \<Rightarrow> d)"

lemma dget_filter_key: "dget (filter (\<lambda>(k, _). P k) d) k = (if P k then dget d k else None)"
  by (induction d) auto

lemma load_saved_identity:
  "load_identity (i, canon (JObj [(''members'', JObj (map (\<lambda>(n, sz). (n, JInt sz)) d)), (''complete'', JBool True)])) =
     Inr [(i, sort_key fst d)]"
proof -
  let ?b = "[(''members'', JObj (map (\<lambda>(n, sz). (n, JInt sz)) d)), (''complete'', JBool True)]"
  have g: "jget (canon (JObj ?b)) k = canon (jget (JObj ?b) k)" for k by (rule jget_canon) simp
  have "canon (JObj (map (\<lambda>(n, sz). (n, JInt sz)) d)) = JObj (map (\<lambda>(n, sz). (n, JInt sz)) (sort_key fst d))"
    by (simp add: o_def split_beta sort_by_key_map[where h = fst])
  then have m: "jget (canon (JObj ?b)) ''members'' = JObj (map (\<lambda>(n, sz). (n, JInt sz)) (sort_key fst d))"
    using g[of "''members''"] by (simp add: jget_def del: canon.simps)
  have c: "jget (canon (JObj ?b)) ''complete'' = JBool True" using g[of "''complete''"] by (simp add: jget_def)
  have "mapE (\<lambda>(member, sz). bindE (int_of_json sz) (\<lambda>n. Inr (member, n))) (map (\<lambda>(n, sz). (n, JInt sz)) xs) = Inr xs" for xs :: member_map
    by (induction xs) auto
  then show ?thesis unfolding load_identity_def using m c by (simp add: jor_def del: canon.simps)
qed

lemma load_saved_identities:
  fixes ms :: "(string \<times> (nat \<times> member_map)) list"
  defines "body \<equiv> \<lambda>d. JObj [(''members'', JObj (map (\<lambda>(n, sz). (n, JInt sz)) d)), (''complete'', JBool True)]"
  shows "mapE load_identity (obj_of (canon (JObj (map (\<lambda>(i, (_, d)). (i, body d)) ms)))) =
    Inr (map (\<lambda>(i, (_, d)). [(i, sort_key fst d)]) (sort_key fst ms))"
proof -
  have "obj_of (canon (JObj (map (\<lambda>(i, (_, d)). (i, body d)) ms))) = map (\<lambda>(i, (_, d)). (i, canon (body d))) (sort_key fst ms)"
    unfolding canon.simps obj_of.simps map_map by (simp add: o_def split_beta sort_by_key_map[where h = fst])
  moreover have "mapE load_identity (map (\<lambda>(i, (_, d)). (i, canon (body d))) xs) = Inr (map (\<lambda>(i, (_, d)). [(i, sort_key fst d)]) xs)"
    for xs :: "(string \<times> (nat \<times> member_map)) list"
    unfolding body_def by (induction xs) (auto simp: load_saved_identity simp del: canon.simps)
  ultimately show ?thesis by simp
qed

lemma fold_put:
  defines "step \<equiv> \<lambda>sh (i, d). put_complete i (put_members i d sh)"
  assumes "distinct (keys R)"
  shows "members_of i (foldl step sh R) = (case dget R i of Some d \<Rightarrow> d | None \<Rightarrow> members_of i sh)"
    "is_complete i (foldl step sh R) \<longleftrightarrow> is_complete i sh \<or> dget R i \<noteq> None"
    "sh_day_skip (foldl step sh R) = sh_day_skip sh" "sh_degraded (foldl step sh R) = sh_degraded sh"
    "sh_dedupe_hint (foldl step sh R) = sh_dedupe_hint sh"
proof -
  have s: "members_of i (step sh (j, d)) = (if i = j then d else members_of i sh)"
    "is_complete i (step sh (j, d)) \<longleftrightarrow> i = j \<or> is_complete i sh"
    "sh_day_skip (step sh e) = sh_day_skip sh" "sh_degraded (step sh e) = sh_degraded sh" "sh_dedupe_hint (step sh e) = sh_dedupe_hint sh"
    for sh j d e
    by (auto simp: step_def put_complete_def put_members_def members_of_def is_complete_def split: prod.split)
  from assms(2) show "members_of i (foldl step sh R) = (case dget R i of Some d \<Rightarrow> d | None \<Rightarrow> members_of i sh)"
  proof (induction R arbitrary: sh)
    case (Cons e R)
    then show ?case by (cases e) (auto simp: s map_of_eq_None_iff[symmetric] split: option.split)
  qed simp
  show "is_complete i (foldl step sh R) \<longleftrightarrow> is_complete i sh \<or> dget R i \<noteq> None"
    by (induction R arbitrary: sh) (auto simp: s)
  show "sh_day_skip (foldl step sh R) = sh_day_skip sh" "sh_degraded (foldl step sh R) = sh_degraded sh"
    "sh_dedupe_hint (foldl step sh R) = sh_dedupe_hint sh"
    by (induction R arbitrary: sh; simp add: s)+
qed

lemma jget_day_payload:
  assumes "jget (day_payload day sh) k = v"
  shows "jget (canon (day_payload day sh)) k = canon v"
  unfolding assms[symmetric] day_payload_def by (rule jget_canon) simp

lemma dget_saved_members:
  "dget (map (\<lambda>(i, (_, d)). (i, sort_key fst d)) ms) i = map_option (\<lambda>(_, d). sort_key fst d) (dget (ms :: (string \<times> (nat \<times> member_map)) list) i)"
  by (induction ms) auto

lemma concat_singletons: "concat (map (\<lambda>(i, (_, d)). [(i, f d)]) xs) = map (\<lambda>(i, (_, d)). (i, f d)) xs"
  by (induction xs) auto

definition dicts_ok :: "day_shard \<Rightarrow> bool" where
  \<comment> \<open>Dicts have each key once; a skip reason has a kind.\<close>
  "dicts_ok sh = (distinct (keys (sh_members sh)) \<and> (\<forall>(i, (r, d)) \<in> set (sh_members sh). distinct (keys d)) \<and>
     (case sh_day_skip sh of None \<Rightarrow> True | Some (kd, _) \<Rightarrow> kd \<noteq> []))"

lemma load_saved_shard:
  assumes ok: "dicts_ok sh"
  shows "\<exists>sh'. load_shard rp (canon (day_payload day sh)) new_shard = Inr sh' \<and>
    (\<forall>i. is_complete i sh' \<longleftrightarrow> is_complete i sh \<and> dget (sh_members sh) i \<noteq> None) \<and>
    (\<forall>i. is_complete i sh' \<longrightarrow> dget (members_of i sh') = dget (members_of i sh)) \<and>
    sh_day_skip sh' = sh_day_skip sh \<and> sh_degraded sh' = sh_degraded sh \<and> sh_dedupe_hint sh' = sh_dedupe_hint sh"
proof -
  have assms: "distinct (keys (sh_members sh))" "\<And>i r d. dget (sh_members sh) i = Some (r, d) \<Longrightarrow> distinct (keys d)"
    "\<And>kd detail. sh_day_skip sh = Some (kd, detail) \<Longrightarrow> kd \<noteq> []"
    using ok by (auto simp: dicts_ok_def dest: map_of_SomeD)
  let ?raw = "canon (day_payload day sh)"
  let ?ms = "filter (\<lambda>(i, _). is_complete i sh) (sh_members sh)"
  let ?ids = "JObj (map (\<lambda>(i, (_, d)). (i, JObj [(''members'', JObj (map (\<lambda>(n, sz). (n, JInt sz)) d)), (''complete'', JBool True)])) ?ms)"
  let ?skip = "case sh_day_skip sh of None \<Rightarrow> JNull | Some (kd, detail) \<Rightarrow> JObj [(''kind'', JStr kd), (''detail'', JStr detail)]"
  have g: "jget ?raw ''identities'' = canon ?ids" "jget ?raw ''day_skip'' = canon ?skip"
    "jget ?raw ''degraded'' = JBool (sh_degraded sh)" "jget ?raw ''dedupe_hint'' = JBool (sh_dedupe_hint sh)"
    using jget_day_payload[of day sh] by (simp_all add: day_payload_def jget_def del: canon.simps(2))
  have ids: "jor (canon ?ids) (JObj []) = canon ?ids"
    by (cases "truthy ?ids") (auto simp: jor_def)
  define R where "R = map (\<lambda>(i, (_, d)). (i, sort_key fst d)) (sort_key fst ?ms)"
  have cR: "concat (map (\<lambda>(i, (_, d)). [(i, sort_key fst d)]) (sort_key fst ?ms)) = R"
    unfolding R_def by (rule concat_singletons)
  have kR: "keys R = keys (sort_key fst ?ms)" unfolding R_def by (simp add: o_def split_beta)
  have dms: "distinct (keys ?ms)" using assms(1) by (simp add: distinct_map_filter)
  have dR: "distinct (keys R)" unfolding kR using dms by (simp add: distinct_map)
  have gR: "dget R i = (if is_complete i sh then map_option (\<lambda>(_, d). sort_key fst d) (dget (sh_members sh) i) else None)" for i
    unfolding R_def dget_saved_members dget_sort_key[OF dms] dget_filter_key by simp
  define sk where "sk = (if is_obj (canon ?skip) \<and> truthy (jget (canon ?skip) ''kind'')
      then Some (str_of_json rp (jget (canon ?skip) ''kind''), str_of_json rp (jor (jget (canon ?skip) ''detail'') (JStr []))) else None)"
  have sk: "sk = sh_day_skip sh"
  proof (cases "sh_day_skip sh")
    case (Some kv)
    obtain kd detail where kv: "kv = (kd, detail)" by (cases kv)
    have "jget (canon (JObj [(''kind'', JStr kd), (''detail'', JStr detail)])) k = canon (jget (JObj [(''kind'', JStr kd), (''detail'', JStr detail)]) k)" for k
      by (rule jget_canon) simp
    then show ?thesis unfolding sk_def using assms(3) Some kv by (simp add: jget_def[of "JObj _"] jor_def del: canon.simps(2))
  qed (simp add: sk_def)
  define sh1 where "sh1 = new_shard\<lparr>sh_day_skip := (if sk = None then sh_day_skip new_shard else sk),
      sh_degraded := (sh_degraded sh \<or> sh_degraded new_shard), sh_dedupe_hint := (sh_dedupe_hint sh \<or> sh_dedupe_hint new_shard)\<rparr>"
  define sh' where "sh' = foldl (\<lambda>sh (i, d). put_complete i (put_members i d sh)) sh1 R"
  have "load_shard rp ?raw new_shard = Inr sh'"
    unfolding load_shard_def Let_def g ids load_saved_identities sk_def[symmetric]
    by (simp add: cR sh'_def sh1_def del: canon.simps)
  moreover have "is_complete i sh' \<longleftrightarrow> is_complete i sh \<and> dget (sh_members sh) i \<noteq> None" for i
    unfolding sh'_def fold_put(2)[OF dR] gR by (simp add: sh1_def new_shard_def is_complete_def)
  moreover have "dget (members_of i sh') = dget (members_of i sh)" if "is_complete i sh \<and> dget (sh_members sh) i \<noteq> None" for i
    unfolding sh'_def fold_put(1)[OF dR] gR using that assms(2) by (auto simp: members_of_def dget_sort_key)
  moreover have "sh_day_skip sh' = sh_day_skip sh" "sh_degraded sh' = sh_degraded sh" "sh_dedupe_hint sh' = sh_dedupe_hint sh"
    unfolding sh'_def fold_put(3-5)[OF dR] by (simp_all add: sh1_def sk new_shard_def)
  ultimately show ?thesis by blast
qed

text \<open>
  C20. A day survives a restart: the document that \<^verbatim>\<open>persist_day\<close> writes is loaded into a new shard
  in which exactly the complete identities that have members are complete, with the same member sizes, and
  the skip reason, the degraded flag and the duplicate hint are as they were. Events, owners and
  other process-local state start empty.
\<close>
theorem day_roundtrip:
  assumes "persist_day env dir day sh fs = Inr fs'" "store_dir dir = Inr sd" "dicts_ok sh"
  shows "\<exists>sh'. load_day_file rp fs' sd (day @ ''.json'') [] = Inr [(day, sh')] \<and>
    (\<forall>i. is_complete i sh' \<longleftrightarrow> is_complete i sh \<and> dget (sh_members sh) i \<noteq> None) \<and>
    (\<forall>i. is_complete i sh' \<longrightarrow> dget (members_of i sh') = dget (members_of i sh)) \<and>
    sh_day_skip sh' = sh_day_skip sh \<and> sh_degraded sh' = sh_degraded sh \<and> sh_dedupe_hint sh' = sh_dedupe_hint sh"
proof -
  let ?raw = "canon (day_payload day sh)" and ?path = "path_join sd (day @ ''.json'')"
  have o: "is_obj ?raw" "?raw \<noteq> JNull" by (simp_all add: day_payload_def del: canon.simps)
  have k: "''archive_members_day'' \<notin> set LIST_ENTRY_KINDS" "''archive_members_day'' \<notin> set MANIFEST_KINDS"
    "''archive_members_day'' \<notin> set DICT_ENTRIES_KINDS" "''archive_members_day'' \<notin> set DICT_PASSTHROUGH_KINDS"
    by (simp_all add: kind_defs)
  have w: "wrap_envelope ''archive_members_day'' p = Inr p" for p using k by (simp add: wrap_envelope_def)
  then have fs': "fs' = dset ?path (Some ?raw) fs"
    using assms(1,2) by (auto simp: persist_day_def write_day_def day_path_def save_persistence_document_def save_json_atomic_def split: if_splits)
  have v: "validate_envelope rp ?raw ''archive_members_day'' = Inr True" "unwrap_envelope ?raw ''archive_members_day'' = ?raw"
    using k o by (simp_all add: validate_envelope_def unwrap_envelope_def)
  have p: "?path \<noteq> []" by (simp add: path_join_def)
  have l: "load_persistence_document rp fs' ?path ''archive_members_day'' (JObj []) = Inr ?raw"
    using load_saved[OF p fs' v(1)] v(2) o(2) by simp
  have d: "jget ?raw ''day_token'' = JStr day"
    using jget_day_payload[of day sh "''day_token''"] by (simp add: day_payload_def jget_def del: canon.simps(2))
  have day: "str_of_json rp (jor (jget ?raw ''day_token'') (JStr (take (length (day @ ''.json'') - 5) (day @ ''.json'')))) = day"
    unfolding d by (simp add: jor_def)
  obtain sh' where sh': "load_shard rp ?raw new_shard = Inr sh'"
    "\<forall>i. is_complete i sh' \<longleftrightarrow> is_complete i sh \<and> dget (sh_members sh) i \<noteq> None"
    "\<forall>i. is_complete i sh' \<longrightarrow> dget (members_of i sh') = dget (members_of i sh)"
    "sh_day_skip sh' = sh_day_skip sh" "sh_degraded sh' = sh_degraded sh" "sh_dedupe_hint sh' = sh_dedupe_hint sh"
    using load_saved_shard[OF assms(3), where rp = rp and day = day] by blast
  have "load_day_file rp fs' sd (day @ ''.json'') [] = Inr [(day, sh')]"
    unfolding load_day_file_def l bindE_simps Let_def day using sh'(1) o(1) by simp
  then show ?thesis using sh'(2-6) by blast
qed

definition sample_shard :: day_shard where
  "sample_shard = new_shard\<lparr>sh_members := [(''v2'', (0, [(''b'', 5), (''a'', 3)])), (''v1'', (1, [(''a'', 1)]))],
     sh_complete := [(''v2'', True)], sh_day_skip := Some (''corrupt'', []), sh_degraded := True, sh_next := 2\<rparr>"

theorem day_roundtrip_witness:
  "\<exists>fs' sh'. persist_day sample_env ''arch'' ''2024-01-02'' sample_shard [] = Inr fs' \<and>
     load_day_file (\<lambda>_. []) fs' ''arch/.sync_timedb_archive_members'' ''2024-01-02.json'' [] = Inr [(''2024-01-02'', sh')] \<and>
     is_complete ''v2'' sh' \<and> dget (members_of ''v2'' sh') ''b'' = Some 5 \<and> \<not> is_complete ''v1'' sh' \<and>
     sh_day_skip sh' = Some (''corrupt'', [])"
proof -
  define r where "r = persist_day sample_env ''arch'' ''2024-01-02'' sample_shard []"
  have "\<not> isl r" unfolding r_def by code_simp
  then obtain fs' where r: "r = Inr fs'" by (cases r) auto
  have sd: "store_dir ''arch'' = Inr ''arch/.sync_timedb_archive_members''" by code_simp
  have ok: "dicts_ok sample_shard" by code_simp
  have c: "is_complete ''v2'' sample_shard" "\<not> is_complete ''v1'' sample_shard" "dget (members_of ''v2'' sample_shard) ''b'' = Some 5"
    "dget (sh_members sample_shard) ''v2'' \<noteq> None" "sh_day_skip sample_shard = Some (''corrupt'', [])"
    by (simp_all add: sample_shard_def is_complete_def members_of_def)
  have n: "''2024-01-02.json'' = ''2024-01-02'' @ ''.json''" by simp
  from day_roundtrip[OF r[unfolded r_def] sd ok, where rp = "\<lambda>_. []"] obtain sh' where
    l: "load_day_file (\<lambda>_. []) fs' ''arch/.sync_timedb_archive_members'' (''2024-01-02'' @ ''.json'') [] = Inr [(''2024-01-02'', sh')]"
    and i: "\<forall>i. is_complete i sh' \<longleftrightarrow> is_complete i sample_shard \<and> dget (sh_members sample_shard) i \<noteq> None"
    and m: "\<forall>i. is_complete i sh' \<longrightarrow> dget (members_of i sh') = dget (members_of i sample_shard)"
    and k: "sh_day_skip sh' = sh_day_skip sample_shard"
    by (elim exE conjE)
  have "is_complete ''v2'' sh'" "\<not> is_complete ''v1'' sh'" using i c by blast+
  moreover from this(1) have "dget (members_of ''v2'' sh') ''b'' = Some 5" using m c(3) by metis
  ultimately show ?thesis using r c(5) k l unfolding r_def n by metis
qed

end
