(* ===== verification/Members_Conc.thy ===== *)
theory Members_Conc
  imports Members_Store
begin

text \<open>
  Threads on one day shard of the archive member store. Every critical section of
  \<open>Members_Store\<close> is one step; between a method's critical section and the moment it sets the events
  it dropped, and between the two critical sections of \<^verbatim>\<open>merge_members\<close>, other threads run.
  Locale \<open>shard_op\<close> is what a critical section promises its environment.
\<close>

declare map_of_eq_Some_iff [simp del]

subsection \<open>What a critical section may do\<close>

definition shard_ok :: "day_shard \<Rightarrow> bool" where
  \<comment> \<open>Events in the dict are unset, distinct objects, and only of incomplete identities.\<close>
  "shard_ok sh \<longleftrightarrow> distinct (keys (sh_events sh)) \<and>
     (\<forall>i ev. dget (sh_events sh) i = Some ev \<longrightarrow> ev < sh_next sh \<and> ev \<notin> set (sh_fired sh) \<and> \<not> is_complete i sh) \<and>
     (\<forall>i j ev. dget (sh_events sh) i = Some ev \<and> dget (sh_events sh) j = Some ev \<longrightarrow> i = j) \<and>
     (\<forall>i r d. dget (sh_members sh) i = Some (r, d) \<longrightarrow> r < sh_next sh) \<and> (\<forall>ev \<in> set (sh_fired sh). ev < sh_next sh)"

definition in_dict :: "day_shard \<Rightarrow> nat \<Rightarrow> bool" where
  "in_dict sh ev \<longleftrightarrow> (\<exists>i. dget (sh_events sh) i = Some ev)"

definition shard_change :: "day_shard \<Rightarrow> nat list \<Rightarrow> day_shard \<Rightarrow> bool" where
  \<comment> \<open>A critical section that drops the events \<open>evs\<close>.\<close>
  "shard_change sh evs sh' \<longleftrightarrow> shard_ok sh' \<and> sh_next sh \<le> sh_next sh' \<and> set (sh_fired sh') = set (sh_fired sh) \<and>
     (\<forall>i ev. dget (sh_events sh') i = Some ev \<longrightarrow> dget (sh_events sh) i = Some ev \<or> sh_next sh \<le> ev) \<and>
     (\<forall>i ev. dget (sh_events sh) i = Some ev \<longrightarrow> dget (sh_events sh') i = Some ev \<or> ev \<in> set evs) \<and>
     (\<forall>ev \<in> set evs. ev < sh_next sh' \<and> \<not> in_dict sh' ev) \<and>
     (\<forall>i r d. dget (sh_members sh') i = Some (r, d) \<longrightarrow> dget (sh_members sh) i = Some (r, d) \<or> sh_next sh \<le> r) \<and>
     (\<forall>i ev. dget (sh_events sh) i = Some ev \<and> dget (sh_events sh') i = Some ev \<and> sh_day_skip sh = None \<longrightarrow> sh_day_skip sh' = None)"

lemma change_dict:
  assumes "shard_change sh evs sh'" "ev < sh_next sh" "\<not> in_dict sh ev"
  shows "\<not> in_dict sh' ev"
  using assms unfolding shard_change_def in_dict_def by (metis leD)

lemma change_next: "shard_change sh evs sh' \<Longrightarrow> n < sh_next sh \<Longrightarrow> n < sh_next sh'"
  unfolding shard_change_def by (meson less_le_trans)

lemma change_members:
  assumes "shard_change sh evs sh'" "dget (sh_members sh') i = Some (r, d)" "r < sh_next sh"
  shows "dget (sh_members sh) i = Some (r, d)"
  using assms unfolding shard_change_def by (meson leD)

lemma change_trans:
  assumes ok: "shard_ok sh" and a: "shard_change sh e1 s1" and b: "shard_change s1 e2 s2"
  shows "shard_change sh (e1 @ e2) s2"
proof -
  have n: "sh_next sh \<le> sh_next s1" "sh_next s1 \<le> sh_next s2" using a b by (simp_all add: shard_change_def)
  have old: "dget (sh_events s1) i = Some ev" if "dget (sh_events s2) i = Some ev" "ev < sh_next s1" for i ev
    using that b unfolding shard_change_def by (meson leD)
  have lt: "ev < sh_next s1" if "dget (sh_events sh) i = Some ev" for i ev
    using ok that n(1) unfolding shard_ok_def by (meson less_le_trans)
  have e1: "ev < sh_next s2 \<and> \<not> in_dict s2 ev" if "ev \<in> set e1" for ev
    using that a change_dict[OF b] n(2) unfolding shard_change_def by (meson less_le_trans)
  show ?thesis unfolding shard_change_def
  proof (intro conjI allI ballI impI)
    show "shard_ok s2" using b by (simp add: shard_change_def)
    show "sh_next sh \<le> sh_next s2" using n by simp
    show "set (sh_fired s2) = set (sh_fired sh)" using a b by (simp add: shard_change_def)
    show "dget (sh_events sh) i = Some ev \<or> sh_next sh \<le> ev" if "dget (sh_events s2) i = Some ev" for i ev
      using that a b n unfolding shard_change_def by (meson le_trans)
    show "dget (sh_events s2) i = Some ev \<or> ev \<in> set (e1 @ e2)" if "dget (sh_events sh) i = Some ev" for i ev
      using that a b unfolding shard_change_def by (metis UnCI set_append)
    show "ev < sh_next s2" "\<not> in_dict s2 ev" if "ev \<in> set (e1 @ e2)" for ev
      using that e1 b unfolding shard_change_def by auto
    show "dget (sh_members sh) i = Some (r, d) \<or> sh_next sh \<le> r" if "dget (sh_members s2) i = Some (r, d)" for i r d
      using that a b n unfolding shard_change_def by (meson le_trans)
    show "sh_day_skip s2 = None"
      if "dget (sh_events sh) i = Some ev \<and> dget (sh_events s2) i = Some ev \<and> sh_day_skip sh = None" for i ev
      using that old lt a b unfolding shard_change_def by metis
  qed
qed

lemma change_drop:
  \<comment> \<open>Sections that only take things away.\<close>
  assumes "shard_ok sh" "sh_next sh' = sh_next sh" "sh_fired sh' = sh_fired sh" "distinct (keys (sh_events sh'))"
    and ev: "\<And>i ev. dget (sh_events sh') i = Some ev \<Longrightarrow> dget (sh_events sh) i = Some ev"
    and dropped: "\<And>i ev. dget (sh_events sh) i = Some ev \<Longrightarrow> dget (sh_events sh') i = None \<Longrightarrow> ev \<in> set evs"
    and evs: "\<And>ev. ev \<in> set evs \<Longrightarrow> \<exists>i. dget (sh_events sh) i = Some ev \<and> dget (sh_events sh') i = None"
    and mem: "\<And>i v. dget (sh_members sh') i = Some v \<Longrightarrow> dget (sh_members sh) i = Some v"
    and com: "\<And>i. is_complete i sh' \<Longrightarrow> is_complete i sh"
    and skip: "\<And>i. dget (sh_events sh') i \<noteq> None \<Longrightarrow> sh_day_skip sh = None \<Longrightarrow> sh_day_skip sh' = None"
  shows "shard_change sh evs sh'"
  unfolding shard_change_def
proof (intro conjI allI ballI impI)
  show "shard_ok sh'" using assms(1-4) ev mem com unfolding shard_ok_def by metis
  show "dget (sh_events sh') i = Some e \<or> e \<in> set evs" if "dget (sh_events sh) i = Some e" for i e
    using dropped[OF that] ev[of i] that by (cases "dget (sh_events sh') i") auto
  show "\<not> in_dict sh' e" if "e \<in> set evs" for e
    using evs[OF that] ev assms(1) unfolding in_dict_def shard_ok_def by (metis option.distinct(1))
  show "e < sh_next sh'" if "e \<in> set evs" for e
    using evs[OF that] assms(1,2) unfolding shard_ok_def by metis
  show "sh_day_skip sh' = None" if "dget (sh_events sh) i = Some e \<and> dget (sh_events sh') i = Some e \<and> sh_day_skip sh = None" for i e
    using skip[of i] that by simp
qed (use assms in auto)

lemma change_put_members: "shard_ok sh \<Longrightarrow> shard_change sh [] (put_members i d sh)"
  unfolding shard_change_def shard_ok_def put_members_def is_complete_def by (auto simp: less_Suc_eq)

lemma change_put_complete: "shard_ok sh \<Longrightarrow> dget (sh_events sh) i = None \<Longrightarrow> shard_change sh [] (put_complete i sh)"
  unfolding shard_change_def shard_ok_def put_complete_def is_complete_def by auto

lemma change_event: "shard_ok sh \<Longrightarrow> \<not> is_complete i sh \<Longrightarrow> shard_change sh [] (snd (event_locked i sh))"
  unfolding shard_change_def shard_ok_def event_locked_def is_complete_def
  by (auto simp: less_Suc_eq split: option.splits if_splits)

lemma change_wake: "shard_ok sh \<Longrightarrow> wake_and_drop_event_locked i sh = (evs, sh') \<Longrightarrow> shard_change sh evs sh'"
  by (rule change_drop)
    (auto simp: wake_and_drop_event_locked_def shard_ok_def is_complete_def split: option.splits if_splits)

lemma distinct_keys_filter: "distinct (keys d) \<Longrightarrow> distinct (keys (filter P d))"
  by (simp add: distinct_map_filter)

lemma change_drop_stale:
  assumes "shard_ok sh" "drop_stale_identities_locked keep sh = (evs, sh')"
  shows "shard_change sh evs sh'"
proof (rule change_drop[OF assms(1)])
  have d: "distinct (keys (sh_events sh))" using assms(1) by (simp add: shard_ok_def)
  have evs: "evs = map snd (filter (\<lambda>(i, _). stale keep sh i) (sh_events sh))"
    and sh': "sh_events sh' = filter (\<lambda>(i, _). \<not> stale keep sh i) (sh_events sh)"
    using assms(2) by (auto simp: drop_stale_identities_locked_def)
  show "distinct (keys (sh_events sh'))" unfolding sh' by (rule distinct_keys_filter[OF d])
  show "e \<in> set evs" if "dget (sh_events sh) i = Some e" "dget (sh_events sh') i = None" for i e
  proof -
    have "(i, e) \<in> set (sh_events sh)" "stale keep sh i" using that map_of_SomeD by (auto simp: sh' dget_filter_key split: if_splits)
    then show ?thesis unfolding evs by (force simp: image_iff)
  qed
  show "\<exists>i. dget (sh_events sh) i = Some e \<and> dget (sh_events sh') i = None" if "e \<in> set evs" for e
    using that d unfolding evs sh' dget_filter_key by (auto simp: map_of_eq_Some_iff)
qed (use assms(2) in \<open>auto simp: drop_stale_identities_locked_def dget_filter_key is_complete_def split: if_splits\<close>)

lemma change_wake_complete:
  assumes "shard_ok sh" "wake_and_drop_stale i (put_complete i sh) = (evs, sh')"
  shows "shard_change sh evs sh'"
proof -
  obtain e1 s1 where w: "wake_and_drop_event_locked i sh = (e1, s1)" by (cases "wake_and_drop_event_locked i sh")
  have w': "wake_and_drop_event_locked i (put_complete i sh) = (e1, put_complete i s1)"
    using w by (auto simp: wake_and_drop_event_locked_def put_complete_def)
  obtain e2 s2 where d: "drop_stale_identities_locked i (put_complete i s1) = (e2, s2)"
    by (cases "drop_stale_identities_locked i (put_complete i s1)")
  have c1: "shard_change sh e1 s1" by (rule change_wake[OF assms(1) w])
  then have ok1: "shard_ok s1" by (simp add: shard_change_def)
  have "dget (sh_events s1) i = None" using w by (auto simp: wake_and_drop_event_locked_def)
  from change_put_complete[OF ok1 this] have c2: "shard_change s1 [] (put_complete i s1)" .
  then have "shard_ok (put_complete i s1)" by (simp add: shard_change_def)
  from change_trans[OF ok1 c2 change_drop_stale[OF this d]] have "shard_change s1 e2 s2" by simp
  from change_trans[OF assms(1) c1 this] show ?thesis
    using assms(2) w' d by (simp add: wake_and_drop_stale_def)
qed

lemma change_flags:
  assumes "shard_ok sh" "sh_events sh' = sh_events sh" "sh_members sh' = sh_members sh" "sh_complete sh' = sh_complete sh"
    "sh_next sh' = sh_next sh" "sh_fired sh' = sh_fired sh" "sh_day_skip sh = None \<longrightarrow> sh_day_skip sh' = None"
  shows "shard_change sh [] sh'"
  using assms by (intro change_drop) (auto simp: is_complete_def shard_ok_def)

subsection \<open>The critical sections keep the contract\<close>

locale shard_op =
  fixes crit :: "day_shard \<Rightarrow> nat list \<times> day_shard"
  assumes crit_change: "shard_ok sh \<Longrightarrow> crit sh = (evs, sh') \<Longrightarrow> shard_change sh evs sh'"
begin

lemma crit_ok: "shard_ok sh \<Longrightarrow> shard_ok (snd (crit sh))"
  using crit_change[of sh] by (cases "crit sh") (simp add: shard_change_def)

lemma nobody_left_behind:
  \<comment> \<open>An event that leaves the dict is handed over to be set.\<close>
  assumes "shard_ok sh" "in_dict sh ev" "\<not> in_dict (snd (crit sh)) ev"
  shows "ev \<in> set (fst (crit sh))"
proof -
  have "shard_change sh (fst (crit sh)) (snd (crit sh))" using crit_change[OF assms(1)] by simp
  then show ?thesis using assms(2,3) unfolding shard_change_def in_dict_def by metis
qed

end

lemma finish_section: "shard_ok sh \<Longrightarrow> finish_populate_locked i m c sh = (evs, sh') \<Longrightarrow> shard_change sh evs sh'"
proof -
  assume ok: "shard_ok sh" and f: "finish_populate_locked i m c sh = (evs, sh')"
  define s1 where "s1 = (case m of None \<Rightarrow> sh | Some d \<Rightarrow> put_members i d sh)"
  define s2 where "s2 = s1\<lparr>sh_populate_owner := ddel i (sh_populate_owner s1)\<rparr>"
  have c1: "shard_change sh [] s1"
    using change_put_members[OF ok] change_flags[OF ok] by (auto simp: s1_def split: option.split)
  then have ok1: "shard_ok s1" by (simp add: shard_change_def)
  have c2: "shard_change s1 [] s2" by (rule change_flags[OF ok1]) (simp_all add: s2_def)
  then have ok2: "shard_ok s2" by (simp add: shard_change_def)
  have "shard_change s2 evs sh'"
  proof (cases c)
    case True
    have "(put_complete i s1)\<lparr>sh_populate_owner := ddel i (sh_populate_owner (put_complete i s1))\<rparr> = put_complete i s2"
      by (simp add: put_complete_def s2_def)
    then have "wake_and_drop_stale i (put_complete i s2) = (evs, sh')"
      using f True by (simp add: finish_populate_locked_def s1_def Let_def)
    then show ?thesis by (rule change_wake_complete[OF ok2])
  next
    case False
    then have "wake_and_drop_event_locked i s2 = (evs, sh')" using f by (simp add: finish_populate_locked_def s1_def s2_def Let_def)
    then show ?thesis by (rule change_wake[OF ok2])
  qed
  from change_trans[OF ok c1 change_trans[OF ok1 c2 this]] show "shard_change sh evs sh'" by simp
qed

lemma fill_section:
  assumes "shard_ok sh" "wake_and_drop_stale i ((put_complete i (put_members i d sh))\<lparr>sh_dedupe_hint := b, sh_degraded := g\<rparr>) = (evs, sh')"
  shows "shard_change sh evs sh'"
proof -
  define s1 where "s1 = (put_members i d sh)\<lparr>sh_dedupe_hint := b, sh_degraded := g\<rparr>"
  have ok0: "shard_ok (put_members i d sh)" using change_put_members[OF assms(1)] by (simp add: shard_change_def)
  have c0: "shard_change (put_members i d sh) [] s1" by (rule change_flags[OF ok0]) (simp_all add: s1_def)
  note c1 = change_trans[OF assms(1) change_put_members[OF assms(1)] c0]
  then have ok1: "shard_ok s1" by (simp add: shard_change_def)
  have "(put_complete i (put_members i d sh))\<lparr>sh_dedupe_hint := b, sh_degraded := g\<rparr> = put_complete i s1"
    by (rule day_shard.equality) (simp_all add: s1_def put_complete_def)
  then have "wake_and_drop_stale i (put_complete i s1) = (evs, sh')" using assms(2) by simp
  from change_trans[OF assms(1) c1 change_wake_complete[OF ok1 this]] show ?thesis by simp
qed

lemma store_section: "shard_ok sh \<Longrightarrow> store_complete_locked i d dup sh = (evs, sh') \<Longrightarrow> shard_change sh evs sh'"
  by (rule fill_section[where b = "dup \<or> sh_dedupe_hint sh" and g = "sh_degraded sh"])
    (simp_all add: store_complete_locked_def Let_def put_complete_def put_members_def split: if_splits)

lemma merge_section: "shard_ok sh \<Longrightarrow> merge_commit i inc dup ref sh = Some (evs, sh') \<Longrightarrow> shard_change sh evs sh'"
  by (rule fill_section[where b = "dup \<or> sh_dedupe_hint sh" and g = False])
    (auto simp: merge_commit_def Let_def put_complete_def put_members_def split: if_splits)

interpretation finish: shard_op "finish_populate_locked i m c" for i m c
  by unfold_locales (rule finish_section)

interpretation fill: shard_op "store_complete_locked i d dup" for i d dup
  by unfold_locales (rule store_section)

interpretation clear_inc: shard_op "clear_incomplete_locked i" for i
proof
  fix sh evs sh' assume ok: "shard_ok sh" and c: "clear_incomplete_locked i sh = (evs, sh')"
  define s1 where "s1 = sh\<lparr>sh_members := ddel i (sh_members sh), sh_populate_owner := ddel i (sh_populate_owner sh)\<rparr>"
  have c1: "shard_change sh [] s1"
    using ok by (intro change_drop) (auto simp: s1_def is_complete_def shard_ok_def split: if_splits)
  then have "shard_ok s1" by (simp add: shard_change_def)
  from change_trans[OF ok c1 change_wake[OF this]] c change_flags[OF ok refl]
  show "shard_change sh evs sh'" by (auto simp: clear_incomplete_locked_def s1_def split: if_splits)
qed

interpretation inval: shard_op "invalidate_locked i" for i
proof
  fix sh evs sh' assume ok: "shard_ok sh" and c: "invalidate_locked i sh = (evs, sh')"
  define s1 where "s1 = sh\<lparr>sh_members := ddel i (sh_members sh), sh_complete := ddel i (sh_complete sh),
      sh_populate_owner := ddel i (sh_populate_owner sh), sh_populate_source := []\<rparr>"
  have c1: "shard_change sh [] s1"
    using ok by (intro change_drop) (auto simp: s1_def is_complete_def shard_ok_def split: if_splits)
  then have "shard_ok s1" by (simp add: shard_change_def)
  from change_trans[OF ok c1 change_wake[OF this]] c
  show "shard_change sh evs sh'" by (auto simp: invalidate_locked_def s1_def)
qed

lemma dict_values: "shard_ok sh \<Longrightarrow> ev \<in> snd ` set (sh_events sh) \<longleftrightarrow> in_dict sh ev"
proof -
  assume "shard_ok sh"
  then have "distinct (keys (sh_events sh))" by (simp add: shard_ok_def)
  then have "in_dict sh ev \<longleftrightarrow> (\<exists>i. (i, ev) \<in> set (sh_events sh))" by (simp add: in_dict_def map_of_eq_Some_iff)
  then show ?thesis by force
qed

interpretation skip: shard_op "set_day_skip_locked kd detail" for kd detail
  by unfold_locales (rule change_drop, auto simp: set_day_skip_locked_def is_complete_def dict_values in_dict_def)

interpretation reset: shard_op reset_shard
  by unfold_locales (rule change_drop, auto simp: reset_shard_def new_shard_def is_complete_def dict_values in_dict_def)

subsection \<open>Threads\<close>

datatype thread = Idle | Merging string member_map bool "(nat \<times> member_map) option" | Setting "nat list" | Waiting string nat

datatype slabel = LBegan nat string | LFinished nat string | LRevoked nat string | LReset | LMerged string member_map | LTau

record ssys =
  shard_of :: day_shard
  thread_of :: "nat \<Rightarrow> thread"

definition flag_ops :: "(day_shard \<Rightarrow> day_shard) set" where
  \<comment> \<open>The sections that only set a flag or a token.\<close>
  "flag_ops = {set_degraded, clear_degraded, clear_day_skip, clear_dedupe_hint, clear_ingest_tar_hot, set_append_inflight,
     clear_append_inflight} \<union> range set_ingest_tar_hot \<union> range clear_restore \<union>
     range (\<lambda>(day, token). snd \<circ> try_acquire_restore day token) \<union> range (\<lambda>(c, src). set_populate_source c src) \<union>
     range (\<lambda>c. snd \<circ> consume_populate_source c)"

definition revoke_label :: "nat \<Rightarrow> string \<Rightarrow> day_shard \<Rightarrow> day_shard \<Rightarrow> slabel" where
  \<comment> \<open>A clear or invalidate of thread \<open>p\<close> is visible when it takes the identity from its owner.\<close>
  "revoke_label p i sh sh' =
     (if dget (sh_populate_owner sh) i \<noteq> None \<and> dget (sh_populate_owner sh') i = None then LRevoked p i else LTau)"

inductive shard_step :: "ssys \<Rightarrow> slabel \<Rightarrow> ssys \<Rightarrow> bool" where
  beginning: "thread_of s p = Idle \<Longrightarrow> try_begin_populate (int p) i (shard_of s) = (True, sh') \<Longrightarrow>
    shard_step s (LBegan p i) (s\<lparr>shard_of := sh'\<rparr>)"
| finishing: "thread_of s p = Idle \<Longrightarrow> finish_populate_locked i m c (shard_of s) = (evs, sh') \<Longrightarrow>
    shard_step s (LFinished p i) (s\<lparr>shard_of := sh', thread_of := (thread_of s)(p := Setting evs)\<rparr>)"
| storing: "thread_of s p = Idle \<Longrightarrow> store_complete_locked i d dup (shard_of s) = (evs, sh') \<Longrightarrow>
    shard_step s LTau (s\<lparr>shard_of := sh', thread_of := (thread_of s)(p := Setting evs)\<rparr>)"
| clearing: "thread_of s p = Idle \<Longrightarrow> clear_incomplete_locked i (shard_of s) = (evs, sh') \<Longrightarrow>
    shard_step s (revoke_label p i (shard_of s) sh') (s\<lparr>shard_of := sh', thread_of := (thread_of s)(p := Setting evs)\<rparr>)"
| invalidating: "thread_of s p = Idle \<Longrightarrow> invalidate_locked i (shard_of s) = (evs, sh') \<Longrightarrow>
    shard_step s (revoke_label p i (shard_of s) sh') (s\<lparr>shard_of := sh', thread_of := (thread_of s)(p := Setting evs)\<rparr>)"
| resetting: "thread_of s p = Idle \<Longrightarrow> reset_shard (shard_of s) = (evs, sh') \<Longrightarrow>
    shard_step s LReset (s\<lparr>shard_of := sh', thread_of := (thread_of s)(p := Setting evs)\<rparr>)"
| skipping: "thread_of s p = Idle \<Longrightarrow> set_day_skip_locked kd detail (shard_of s) = (evs, sh') \<Longrightarrow>
    shard_step s LTau (s\<lparr>shard_of := sh', thread_of := (thread_of s)(p := Setting evs)\<rparr>)"
| flagging: "thread_of s p = Idle \<Longrightarrow> f \<in> flag_ops \<Longrightarrow> shard_step s LTau (s\<lparr>shard_of := f (shard_of s)\<rparr>)"
| reading: "thread_of s p = Idle \<Longrightarrow> inc \<noteq> [] \<Longrightarrow>
    shard_step s LTau (s\<lparr>thread_of := (thread_of s)(p := Merging i inc dup (merge_read i (shard_of s)))\<rparr>)"
| retrying: "thread_of s p = Merging i inc dup ref \<Longrightarrow> merge_commit i inc dup ref (shard_of s) = None \<Longrightarrow>
    shard_step s LTau (s\<lparr>thread_of := (thread_of s)(p := Merging i inc dup (merge_read i (shard_of s)))\<rparr>)"
| committing: "thread_of s p = Merging i inc dup ref \<Longrightarrow> merge_commit i inc dup ref (shard_of s) = Some (evs, sh') \<Longrightarrow>
    shard_step s (LMerged i inc) (s\<lparr>shard_of := sh', thread_of := (thread_of s)(p := Setting evs)\<rparr>)"
| polling: "thread_of s p = Idle \<Longrightarrow> wait_poll i (shard_of s) = (Blocked ev, sh') \<Longrightarrow>
    shard_step s LTau (s\<lparr>shard_of := sh', thread_of := (thread_of s)(p := Waiting i ev)\<rparr>)"
| resuming: "thread_of s p = Waiting i ev \<Longrightarrow> shard_step s LTau (s\<lparr>thread_of := (thread_of s)(p := Idle)\<rparr>)"
| firing: "thread_of s p = Setting evs \<Longrightarrow>
    shard_step s LTau (s\<lparr>shard_of := set_threading_events evs (shard_of s), thread_of := (thread_of s)(p := Idle)\<rparr>)"

inductive shard_run :: "ssys \<Rightarrow> slabel list \<Rightarrow> ssys \<Rightarrow> bool" where
  nil: "shard_run s [] s"
| cons: "shard_step s l s1 \<Longrightarrow> shard_run s1 ls t \<Longrightarrow> shard_run s (l # ls) t"

definition start_sys :: "ssys \<Rightarrow> bool" where
  \<comment> \<open>A new or freshly loaded shard.\<close>
  "start_sys s \<longleftrightarrow> shard_ok (shard_of s) \<and> (\<forall>p. thread_of s p = Idle)"

definition will_fire :: "ssys \<Rightarrow> nat \<Rightarrow> bool" where
  "will_fire s ev \<longleftrightarrow> ev \<in> set (sh_fired (shard_of s)) \<or> (\<exists>q evs. thread_of s q = Setting evs \<and> ev \<in> set evs)"

fun thread_ok :: "ssys \<Rightarrow> thread \<Rightarrow> bool" where
  "thread_ok s Idle = True"
| "thread_ok s (Setting evs) = (\<forall>ev \<in> set evs. ev < sh_next (shard_of s) \<and> \<not> in_dict (shard_of s) ev)"
| "thread_ok s (Waiting i ev) = (ev < sh_next (shard_of s) \<and>
     (dget (sh_events (shard_of s)) i = Some ev \<and> sh_day_skip (shard_of s) = None \<or> \<not> in_dict (shard_of s) ev \<and> will_fire s ev))"
| "thread_ok s (Merging i inc dup ref) = (\<forall>r m. ref = Some (r, m) \<longrightarrow> r < sh_next (shard_of s) \<and>
     (\<forall>m'. dget (sh_members (shard_of s)) i = Some (r, m') \<longrightarrow> m' = m))"

definition sys_ok :: "ssys \<Rightarrow> bool" where
  "sys_ok s \<longleftrightarrow> shard_ok (shard_of s) \<and> (\<forall>p. thread_ok s (thread_of s p))"

lemma thread_ok_change:
  \<comment> \<open>A section of another thread that hands over the events it drops.\<close>
  assumes c: "shard_change (shard_of s) evs (shard_of t)" and "thread_ok s T"
    and keep: "\<And>ev. will_fire s ev \<Longrightarrow> will_fire t ev" and drop: "\<And>ev. ev \<in> set evs \<Longrightarrow> will_fire t ev"
  shows "thread_ok t T"
proof (cases T)
  case (Setting es)
  then show ?thesis using assms(2) change_dict[OF c] change_next[OF c] by simp
next
  case (Merging i inc dup ref)
  have "r < sh_next (shard_of t) \<and> (\<forall>m'. dget (sh_members (shard_of t)) i = Some (r, m') \<longrightarrow> m' = m)"
    if "ref = Some (r, m)" for r m
  proof -
    have "r < sh_next (shard_of s)" "\<forall>m'. dget (sh_members (shard_of s)) i = Some (r, m') \<longrightarrow> m' = m"
      using assms(2) Merging that by simp_all
    then show ?thesis using change_members[OF c] change_next[OF c] by blast
  qed
  then show ?thesis using Merging by simp
next
  case (Waiting i ev)
  have lt: "ev < sh_next (shard_of s)" "ev < sh_next (shard_of t)" using assms(2) change_next[OF c] Waiting by simp_all
  consider (dict) "dget (sh_events (shard_of s)) i = Some ev" "sh_day_skip (shard_of s) = None"
    | (gone) "\<not> in_dict (shard_of s) ev" "will_fire s ev"
    using assms(2) Waiting by auto
  then show ?thesis
  proof cases
    case dict
    then have "dget (sh_events (shard_of t)) i = Some ev \<and> sh_day_skip (shard_of t) = None \<or> ev \<in> set evs"
      using c unfolding shard_change_def by metis
    moreover have "\<not> in_dict (shard_of t) ev" if "ev \<in> set evs" using that c unfolding shard_change_def by blast
    ultimately show ?thesis using Waiting lt drop by auto
  next
    case gone
    then show ?thesis using Waiting lt change_dict[OF c lt(1)] keep by simp
  qed
qed simp

lemma sys_ok_section:
  assumes "sys_ok s" "shard_change (shard_of s) evs sh'" "\<not> (\<exists>es. thread_of s p = Setting es)"
  shows "sys_ok (s\<lparr>shard_of := sh', thread_of := (thread_of s)(p := Setting evs)\<rparr>)"
proof -
  let ?t = "s\<lparr>shard_of := sh', thread_of := (thread_of s)(p := Setting evs)\<rparr>"
  have f: "set (sh_fired sh') = set (sh_fired (shard_of s))" using assms(2) by (simp add: shard_change_def)
  have k: "will_fire ?t ev" if "will_fire s ev" for ev
    using that assms(3) f unfolding will_fire_def by auto
  have d: "will_fire ?t ev" if "ev \<in> set evs" for ev using that by (auto simp: will_fire_def)
  have "thread_ok ?t (thread_of s q)" for q
    using thread_ok_change[of s evs ?t "thread_of s q"] assms(1,2) k d by (simp add: sys_ok_def)
  moreover have "thread_ok ?t (Setting evs)" using assms(2) by (simp add: shard_change_def)
  ultimately show ?thesis using assms(2) by (simp add: sys_ok_def shard_change_def)
qed

lemma sys_ok_quiet:
  assumes "sys_ok s" "shard_change (shard_of s) [] sh'" "\<not> (\<exists>es. thread_of s p = Setting es)"
    and "thread_ok (s\<lparr>shard_of := sh', thread_of := (thread_of s)(p := T)\<rparr>) T"
  shows "sys_ok (s\<lparr>shard_of := sh', thread_of := (thread_of s)(p := T)\<rparr>)"
proof -
  let ?t = "s\<lparr>shard_of := sh', thread_of := (thread_of s)(p := T)\<rparr>"
  have f: "set (sh_fired sh') = set (sh_fired (shard_of s))" using assms(2) by (simp add: shard_change_def)
  have k: "will_fire ?t ev" if "will_fire s ev" for ev
    using that assms(3) f unfolding will_fire_def by auto
  have "thread_ok ?t (thread_of s q)" for q
    using thread_ok_change[of s "[]" ?t "thread_of s q"] assms(1,2) k by (simp add: sys_ok_def)
  then show ?thesis using assms(2,4) by (simp add: sys_ok_def shard_change_def)
qed

lemma change_begin:
  assumes "shard_ok sh" "try_begin_populate t i sh = (True, sh')"
  shows "shard_change sh [] sh'" "i \<notin> set (keys (sh_populate_owner sh))" "i \<in> set (keys (sh_populate_owner sh'))"
proof -
  define s1 where "s1 = sh\<lparr>sh_populate_owner := dset i t (sh_populate_owner sh)\<rparr>"
  have c1: "shard_change sh [] s1" by (rule change_flags[OF assms(1)]) (simp_all add: s1_def)
  then have ok1: "shard_ok s1" by (simp add: shard_change_def)
  obtain ev s2 where e: "event_locked i s1 = (ev, s2)" by (cases "event_locked i s1")
  have nc: "\<not> is_complete i sh" and no: "i \<notin> set (keys (sh_populate_owner sh))"
    and sh': "sh' = s2\<lparr>sh_fired := removeAll ev (sh_fired s2)\<rparr>"
    using assms(2) e by (auto simp: try_begin_populate_def s1_def split: if_splits)
  then have "\<not> is_complete i s1" by (simp add: is_complete_def s1_def)
  then have c2: "shard_change s1 [] s2" using change_event[OF ok1] e by (metis snd_conv)
  then have ok2: "shard_ok s2" by (simp add: shard_change_def)
  have "dget (sh_events s2) i = Some ev" using e by (auto simp: event_locked_def split: option.splits)
  then have "removeAll ev (sh_fired s2) = sh_fired s2" using ok2 by (auto simp: shard_ok_def)
  then have "sh' = s2" unfolding sh' by simp
  then show "shard_change sh [] sh'" using change_trans[OF assms(1) c1 c2] by simp
  show "i \<notin> set (keys (sh_populate_owner sh))" by (rule no)
  have "sh_populate_owner s2 = sh_populate_owner s1" using e by (auto simp: event_locked_def split: option.splits)
  then show "i \<in> set (keys (sh_populate_owner sh'))" using \<open>sh' = s2\<close> by (simp add: s1_def keys_dset_mem)
qed

lemma change_flag_ops: "shard_ok sh \<Longrightarrow> f \<in> flag_ops \<Longrightarrow> shard_change sh [] (f sh) \<and> sh_populate_owner (f sh) = sh_populate_owner sh"
  unfolding flag_ops_def
  by (auto intro!: change_flags simp: set_degraded_def clear_degraded_def clear_day_skip_def clear_dedupe_hint_def clear_ingest_tar_hot_def
      set_append_inflight_def clear_append_inflight_def set_ingest_tar_hot_def clear_restore_def try_acquire_restore_def
      set_populate_source_def consume_populate_source_def)

lemma poll_blocked:
  assumes "shard_ok sh" "wait_poll i sh = (Blocked ev, sh')"
  shows "shard_change sh [] sh'" "dget (sh_events sh') i = Some ev" "sh_day_skip sh' = None" "ev < sh_next sh'"
    "sh_populate_owner sh' = sh_populate_owner sh"
proof -
  have n: "\<not> is_complete i sh" "sh_day_skip sh = None" "event_locked i sh = (ev, sh')"
    using assms(2) unfolding wait_poll_def by (auto simp del: not_None_eq split: if_splits prod.splits)
  show c: "shard_change sh [] sh'" using change_event[OF assms(1) n(1)] n(3) by simp
  show e: "dget (sh_events sh') i = Some ev" and "sh_day_skip sh' = None" "sh_populate_owner sh' = sh_populate_owner sh"
    using n by (auto simp: event_locked_def split: option.splits)
  show "ev < sh_next sh'" using c e by (auto simp: shard_change_def shard_ok_def)
qed

lemma shard_step_ok:
  assumes "shard_step s l t" "sys_ok s"
  shows "sys_ok t"
proof -
  have ok: "shard_ok (shard_of s)" using assms(2) by (simp add: sys_ok_def)
  from assms(1) show ?thesis
  proof cases
    case (beginning p i sh')
    have "thread_of s = (thread_of s)(p := Idle)" using beginning(3) by auto
    then show ?thesis using sys_ok_quiet[OF assms(2) change_begin(1)[OF ok beginning(4)], of p Idle] beginning by simp
  next
    case (finishing p i m c evs sh')
    then show ?thesis using sys_ok_section[OF assms(2) finish.crit_change[OF ok finishing(4)]] by simp
  next
    case (storing p i d dup evs sh')
    then show ?thesis using sys_ok_section[OF assms(2) fill.crit_change[OF ok storing(4)]] by simp
  next
    case (clearing p i evs sh')
    then show ?thesis using sys_ok_section[OF assms(2) clear_inc.crit_change[OF ok clearing(4)]] by simp
  next
    case (invalidating p i evs sh')
    then show ?thesis using sys_ok_section[OF assms(2) inval.crit_change[OF ok invalidating(4)]] by simp
  next
    case (resetting p evs sh')
    then show ?thesis using sys_ok_section[OF assms(2) reset.crit_change[OF ok resetting(4)]] by simp
  next
    case (skipping p kd detail evs sh')
    then show ?thesis using sys_ok_section[OF assms(2) skip.crit_change[OF ok skipping(4)]] by simp
  next
    case (flagging p f)
    have "thread_of s = (thread_of s)(p := Idle)" using flagging(3) by auto
    then show ?thesis using sys_ok_quiet[OF assms(2) conjunct1[OF change_flag_ops[OF ok flagging(4)]], of p Idle] flagging by simp
  next
    case (reading p inc i dup)
    have "shard_change (shard_of s) [] (shard_of s)" by (rule change_flags[OF ok]) simp_all
    from sys_ok_quiet[OF assms(2) this, of p "Merging i inc dup (merge_read i (shard_of s))"] show ?thesis
      using reading ok by (simp add: merge_read_def shard_ok_def)
  next
    case (retrying p i inc dup ref)
    have "shard_change (shard_of s) [] (shard_of s)" by (rule change_flags[OF ok]) simp_all
    from sys_ok_quiet[OF assms(2) this, of p "Merging i inc dup (merge_read i (shard_of s))"] show ?thesis
      using retrying ok by (simp add: merge_read_def shard_ok_def)
  next
    case (committing p i inc dup ref evs sh')
    then show ?thesis using sys_ok_section[OF assms(2) merge_section[OF ok committing(4)]] by simp
  next
    case (polling p i ev sh')
    note b = poll_blocked[OF ok polling(4)]
    show ?thesis using sys_ok_quiet[OF assms(2) b(1), of p "Waiting i ev"] b polling by simp
  next
    case (resuming p i ev)
    have "shard_change (shard_of s) [] (shard_of s)" by (rule change_flags[OF ok]) simp_all
    from sys_ok_quiet[OF assms(2) this, of p Idle] show ?thesis using resuming by simp
  next
    case (firing p evs)
    have e: "\<forall>ev \<in> set evs. ev < sh_next (shard_of s) \<and> \<not> in_dict (shard_of s) ev"
      using assms(2) firing(3) unfolding sys_ok_def by (metis thread_ok.simps(2))
    have f: "will_fire t ev" if w: "will_fire s ev" for ev
    proof (cases "ev \<in> set evs \<or> ev \<in> set (sh_fired (shard_of s))")
      case True
      then show ?thesis using firing(2) by (auto simp: will_fire_def set_threading_events_def)
    next
      case False
      then obtain q es where q: "thread_of s q = Setting es" "ev \<in> set es" using w unfolding will_fire_def by blast
      then have "thread_of t q = Setting es" using False firing(2,3) by auto
      then show ?thesis using q(2) by (auto simp: will_fire_def)
    qed
    have "shard_ok (shard_of t)" using ok e firing(2)
      unfolding shard_ok_def in_dict_def set_threading_events_def is_complete_def by auto
    moreover have "thread_ok t (thread_of s q)" for q
    proof -
      have "thread_ok s (thread_of s q)" using assms(2) by (simp add: sys_ok_def)
      then show ?thesis using f firing(2)
        by (cases "thread_of s q") (auto simp: set_threading_events_def in_dict_def)
    qed
    ultimately show ?thesis using firing(2) by (simp add: sys_ok_def)
  qed
qed

lemma shard_run_ok: "shard_run s ls t \<Longrightarrow> sys_ok s \<Longrightarrow> sys_ok t"
  by (induction rule: shard_run.induct) (auto dest: shard_step_ok)

lemma start_ok: "start_sys s \<Longrightarrow> sys_ok s"
  by (simp add: start_sys_def sys_ok_def)

subsection \<open>Waiting, merging, populating\<close>

text \<open>
  C17. No waiter sleeps on: in every state that threads can reach, a thread that waits for an identity
  that is complete by now, or on a day that is marked skipped, waits on an event that is set
  or that another thread is about to set, so that at most one more step of that thread wakes it.
\<close>
theorem waiters_wake:
  assumes "start_sys s0" "shard_run s0 ls s" "thread_of s p = Waiting i ev"
    "is_complete i (shard_of s) \<or> sh_day_skip (shard_of s) \<noteq> None"
  shows "\<exists>k t. k \<le> 1 \<and> shard_run s (replicate k LTau) t \<and> ev \<in> set (sh_fired (shard_of t)) \<and> thread_of t p = Waiting i ev"
proof -
  have ok: "sys_ok s" using shard_run_ok[OF assms(2) start_ok[OF assms(1)]] .
  then have "thread_ok s (Waiting i ev)" unfolding sys_ok_def by (metis assms(3))
  moreover have "\<not> (dget (sh_events (shard_of s)) i = Some ev \<and> sh_day_skip (shard_of s) = None)"
    using ok assms(4) by (auto simp: sys_ok_def shard_ok_def)
  ultimately consider "ev \<in> set (sh_fired (shard_of s))" | q evs where "thread_of s q = Setting evs" "ev \<in> set evs"
    by (auto simp: will_fire_def)
  then show ?thesis
  proof cases
    case 1
    then show ?thesis using assms(3) shard_run.nil[of s] by (intro exI[of _ 0]) auto
  next
    case 2
    let ?t = "s\<lparr>shard_of := set_threading_events evs (shard_of s), thread_of := (thread_of s)(q := Idle)\<rparr>"
    have "shard_run s [LTau] ?t" using shard_run.cons[OF firing[OF 2(1)] shard_run.nil] .
    moreover have "ev \<in> set (sh_fired (shard_of ?t))" using 2(2) by (simp add: set_threading_events_def)
    moreover have "thread_of ?t p = Waiting i ev" using 2(1) assms(3) by auto
    ultimately show ?thesis by (intro exI[of _ 1] exI[of _ ?t]) simp
  qed
qed

fun larger :: "int option \<Rightarrow> int option \<Rightarrow> int option" where
  "larger None y = y"
| "larger x None = x"
| "larger (Some a) (Some b) = Some (max a b)"

lemma larger_None [simp]: "larger x None = x"
  by (cases x) simp_all

lemma merge_map_larger: "distinct (keys inc) \<Longrightarrow> dget (merge_map inc cur) n = larger (dget cur n) (dget inc n)"
proof (induction inc arbitrary: cur)
  case (Cons e inc)
  obtain m z where e: "e = (m, z)" by (cases e)
  have i: "merge_map (e # inc) cur = merge_map inc (case dget cur m of None \<Rightarrow> dset m z cur | Some prev \<Rightarrow> (if z > prev then dset m z cur else cur))"
    by (simp add: merge_map_def e)
  have m: "dget inc m = None" using Cons.prems by (simp add: e map_of_eq_None_iff)
  show ?case unfolding i using Cons.IH Cons.prems m
    by (cases "dget cur m"; cases "n = m") (auto simp: e max_def)
qed (simp add: merge_map_def)

lemma filled_members:
  assumes "wake_and_drop_stale i sh = (evs, sh')"
  shows "members_of i sh' = members_of i sh" "is_complete i sh' = is_complete i sh"
    "sh_populate_owner sh' = sh_populate_owner sh"
  using assms by (auto simp: wake_and_drop_stale_def wake_and_drop_event_locked_def drop_stale_identities_locked_def members_of_def
      is_complete_def dget_filter_key stale_def)

lemma commit_members:
  assumes "merge_commit i inc dup ref sh = Some (evs, sh')" "\<forall>r m m'. ref = Some (r, m) \<longrightarrow> dget (sh_members sh) i = Some (r, m') \<longrightarrow> m' = m"
  shows "members_of i sh' = merge_map inc (members_of i sh)" "is_complete i sh'" "sh_populate_owner sh' = sh_populate_owner sh"
proof -
  have r: "map_option fst (dget (sh_members sh) i) = map_option fst ref"
    using assms(1) by (auto simp: merge_commit_def Let_def split: if_splits)
  then have "members_of i sh = (case ref of None \<Rightarrow> [] | Some (_, d) \<Rightarrow> d)"
    using assms(2) by (cases ref; cases "dget (sh_members sh) i") (auto simp: members_of_def)
  note m = this
  define sh2 where "sh2 = (put_complete i (put_members i (merge_map inc (members_of i sh)) sh))\<lparr>
      sh_dedupe_hint := (dup \<or> sh_dedupe_hint sh), sh_degraded := False\<rparr>"
  have "wake_and_drop_stale i sh2 = (evs, sh')"
    using assms(1) r unfolding m sh2_def
    by (cases dup) (simp_all add: merge_commit_def Let_def put_complete_def put_members_def m)
  note w = filled_members[OF this]
  show "members_of i sh' = merge_map inc (members_of i sh)" "is_complete i sh'" "sh_populate_owner sh' = sh_populate_owner sh"
    unfolding w by (simp_all add: sh2_def put_complete_def put_members_def is_complete_def members_of_def)
qed

text \<open>
  C18. Concurrent merges lose nothing: whatever other threads did between the moment the loop of
  \<^verbatim>\<open>merge_members\<close> read the members of an identity and the moment it writes them back, a write that is not
  retried leaves, for every member, the larger of the size the shard holds just before the
  write and the size that is merged in, and marks the identity complete.
\<close>
theorem merge_keeps_larger:
  assumes "start_sys s0" "shard_run s0 ls s" "shard_step s (LMerged i inc) t" "distinct (keys inc)"
  shows "is_complete i (shard_of t) \<and>
    dget (members_of i (shard_of t)) name = larger (dget (members_of i (shard_of s)) name) (dget inc name)"
proof -
  have ok: "sys_ok s" using shard_run_ok[OF assms(2) start_ok[OF assms(1)]] .
  from assms(3) obtain p dup ref evs sh' where c: "thread_of s p = Merging i inc dup ref"
    "merge_commit i inc dup ref (shard_of s) = Some (evs, sh')" "shard_of t = sh'"
    by cases (auto simp: revoke_label_def split: if_splits)
  have "thread_ok s (Merging i inc dup ref)" using ok c(1) unfolding sys_ok_def by metis
  then have "\<forall>r m m'. ref = Some (r, m) \<longrightarrow> dget (sh_members (shard_of s)) i = Some (r, m') \<longrightarrow> m' = m" by simp
  from commit_members[OF c(2) this] show ?thesis using merge_map_larger[OF assms(4)] c(3) by simp
qed

lemma section_owner:
  "finish_populate_locked j m c sh = (evs, sh') \<Longrightarrow> sh_populate_owner sh' = ddel j (sh_populate_owner sh)"
  "store_complete_locked j d dup sh = (evs, sh') \<Longrightarrow> sh_populate_owner sh' = sh_populate_owner sh"
  "clear_incomplete_locked j sh = (evs, sh') \<Longrightarrow> i \<noteq> j \<Longrightarrow> dget (sh_populate_owner sh') i = dget (sh_populate_owner sh) i"
  "invalidate_locked j sh = (evs, sh') \<Longrightarrow> sh_populate_owner sh' = ddel j (sh_populate_owner sh)"
  "set_day_skip_locked kd detail sh = (evs, sh') \<Longrightarrow> sh_populate_owner sh' = sh_populate_owner sh"
  "merge_commit j inc dup' ref sh = Some (evs, sh') \<Longrightarrow> sh_populate_owner sh' = sh_populate_owner sh"
  "try_begin_populate t j sh = (True, sh') \<Longrightarrow> sh_populate_owner sh' = dset j t (sh_populate_owner sh)"
  by (auto simp: finish_populate_locked_def store_complete_locked_def clear_incomplete_locked_def invalidate_locked_def
      set_day_skip_locked_def merge_commit_def try_begin_populate_def event_locked_def wake_and_drop_event_locked_def put_members_def
      put_complete_def Let_def dest!: filled_members(3) split: if_splits option.splits)

fun releases :: "string \<Rightarrow> slabel \<Rightarrow> bool" where
  \<comment> \<open>The steps that may take an identity from its owner.\<close>
  "releases i (LFinished p j) = (j = i)"
| "releases i (LRevoked p j) = (j = i)"
| "releases i LReset = True"
| "releases i l = False"

lemma owner_kept:
  assumes "shard_step s l t" "sys_ok s" "\<not> releases i l" "dget (sh_populate_owner (shard_of s)) i \<noteq> None"
  shows "dget (sh_populate_owner (shard_of t)) i \<noteq> None"
proof -
  have ok: "shard_ok (shard_of s)" using assms(2) by (simp add: sys_ok_def)
  from assms(1) show ?thesis
  proof cases
    case (beginning p j sh')
    then show ?thesis using section_owner(7)[OF beginning(4)] assms(4) by simp
  next
    case (finishing p j m c evs sh')
    then show ?thesis using section_owner(1)[OF finishing(4)] assms(3,4) by auto
  next
    case (storing p j d dup evs sh')
    then show ?thesis using section_owner(2)[OF storing(4)] assms(4) by simp
  next
    case (clearing p j evs sh')
    then show ?thesis using section_owner(3)[OF clearing(4), of i] assms(3,4)
      by (cases "i = j") (auto simp: revoke_label_def split: if_splits)
  next
    case (invalidating p j evs sh')
    then show ?thesis using section_owner(4)[OF invalidating(4)] assms(3,4)
      by (cases "i = j") (auto simp: revoke_label_def split: if_splits)
  next
    case (skipping p kd detail evs sh')
    then show ?thesis using section_owner(5)[OF skipping(4)] assms(4) by simp
  next
    case (flagging p f)
    then show ?thesis using change_flag_ops[OF ok flagging(4)] assms(4) by simp
  next
    case (committing p j inc dup ref evs sh')
    then show ?thesis using section_owner(6)[OF committing(4)] assms(4) by simp
  next
    case (polling p j ev sh')
    then show ?thesis using poll_blocked(5)[OF ok polling(4)] assms(4) by simp
  qed (use assms(3,4) in \<open>auto simp: set_threading_events_def\<close>)
qed

lemma began_owner:
  assumes "shard_step s (LBegan p i) t" "sys_ok s"
  shows "dget (sh_populate_owner (shard_of s)) i = None" "dget (sh_populate_owner (shard_of t)) i \<noteq> None"
proof -
  obtain sh' where b: "try_begin_populate (int p) i (shard_of s) = (True, sh')" "shard_of t = sh'"
    using assms(1) by cases (auto simp: revoke_label_def split: if_splits)
  have "shard_ok (shard_of s)" using assms(2) by (simp add: sys_ok_def)
  from change_begin(2,3)[OF this b(1)] b(2)
  show "dget (sh_populate_owner (shard_of s)) i = None" "dget (sh_populate_owner (shard_of t)) i \<noteq> None"
    by (simp_all add: map_of_eq_None_iff)
qed

fun scan_step :: "string \<Rightarrow> nat list \<Rightarrow> slabel \<Rightarrow> nat list" where
  \<comment> \<open>The threads that scan identity \<open>i\<close>, one entry per \<^verbatim>\<open>try_begin_populate\<close> that returned true and
    that the same thread has not finished yet.\<close>
  "scan_step i S (LBegan p j) = (if j = i then p # S else S)"
| "scan_step i S (LFinished p j) = (if j = i then remove1 p S else S)"
| "scan_step i S l = S"

definition scanners :: "string \<Rightarrow> slabel list \<Rightarrow> nat list" where
  "scanners i ls = foldl (scan_step i) [] ls"

fun finishes_own :: "string \<Rightarrow> nat list \<Rightarrow> slabel list \<Rightarrow> bool" where
  \<comment> \<open>Threads call \<^verbatim>\<open>finish_populate\<close> only to end a scan of their own.\<close>
  "finishes_own i S [] = True"
| "finishes_own i S (l # ls) = ((case l of LFinished p j \<Rightarrow> j = i \<longrightarrow> p \<in> set S | _ \<Rightarrow> True) \<and> finishes_own i (scan_step i S l) ls)"

definition revocations :: "string \<Rightarrow> slabel list \<Rightarrow> nat" where
  "revocations i ls = length (filter (\<lambda>l. case l of LRevoked p j \<Rightarrow> j = i | LReset \<Rightarrow> True | _ \<Rightarrow> False) ls)"

abbreviation owned :: "string \<Rightarrow> ssys \<Rightarrow> nat" where
  "owned i s \<equiv> (if dget (sh_populate_owner (shard_of s)) i = None then 0 else 1)"

lemma scan_count_step:
  assumes "shard_step s l t" "sys_ok s" "finishes_own i S [l]" "length S \<le> n + owned i s"
  shows "length (scan_step i S l) \<le> n + revocations i [l] + owned i t"
proof (cases l)
  case (LBegan p j)
  then show ?thesis
    using assms began_owner[of s p i t] owner_kept[OF assms(1,2), of i] by (cases "j = i") (auto simp: revocations_def split: if_splits)
next
  case (LFinished p j)
  then show ?thesis
    using assms owner_kept[OF assms(1,2), of i] by (cases "j = i") (auto simp: length_remove1 revocations_def split: if_splits)
next
  case (LRevoked p j)
  then show ?thesis
    using assms(4) owner_kept[OF assms(1,2), of i] by (cases "j = i") (auto simp: revocations_def split: if_splits)
qed (use assms(4) owner_kept[OF assms(1,2), of i] in \<open>auto simp: revocations_def split: if_splits\<close>)

lemma scan_count_run:
  assumes "shard_run s ls t" "sys_ok s" "finishes_own i S ls" "length S \<le> n + owned i s"
  shows "length (foldl (scan_step i) S ls) \<le> n + revocations i ls + owned i t"
  using assms
proof (induction arbitrary: S n rule: shard_run.induct)
  case (nil s)
  then show ?case by (simp add: revocations_def)
next
  case (cons s l s1 ls t)
  have "length (scan_step i S l) \<le> (n + revocations i [l]) + owned i s1"
    using scan_count_step[OF cons.hyps(1) cons.prems(1) _ cons.prems(3)] cons.prems(2) by simp
  from cons.IH[OF shard_step_ok[OF cons.hyps(1) cons.prems(1)] _ this] cons.prems(2)
  show ?case by (simp add: revocations_def split: if_splits)
qed

text \<open>
  C19. Population is single flight: where threads finish only scans they began, the number of scans
  of an identity that are under way at a time (a \<^verbatim>\<open>try_begin_populate\<close> that returned true and
  has not been finished by its thread) is at most one more than the number of times a clear, an
  invalidate or a reset took the identity from a thread that owned it. Without such a
  revocation at most one thread scans, and it only once; a revocation lets one further scan start
  beside the old one.
\<close>
theorem populate_single_flight:
  assumes "start_sys s0" "shard_run s0 ls t" "finishes_own i [] ls"
  shows "length (scanners i ls) \<le> Suc (revocations i ls)"
  using scan_count_run[OF assms(2) start_ok[OF assms(1)] assms(3), of 0] by (simp add: scanners_def split: if_splits)

subsection \<open>Sample runs\<close>

definition sample_start :: ssys where
  "sample_start = \<lparr>shard_of = new_shard, thread_of = (\<lambda>_. Idle)\<rparr>"

lemma sample_start: "start_sys sample_start"
  by (simp add: start_sys_def sample_start_def shard_ok_def new_shard_def)

definition sample_blocked :: day_shard where
  "sample_blocked = new_shard\<lparr>sh_events := [(''v'', 0)], sh_next := 1\<rparr>"

definition sample_stored :: day_shard where
  "sample_stored = new_shard\<lparr>sh_members := [(''v'', (1, [(''a'', 3)]))], sh_complete := [(''v'', True)], sh_next := 2\<rparr>"

lemma sample_wait_run:
  "shard_run sample_start [LTau, LTau]
     (sample_start\<lparr>shard_of := sample_stored, thread_of := (\<lambda>_. Idle)(0 := Waiting ''v'' 0, 1 := Setting [0])\<rparr>)"
proof -
  let ?s1 = "sample_start\<lparr>shard_of := sample_blocked, thread_of := (thread_of sample_start)(0 := Waiting ''v'' 0)\<rparr>"
  have p: "wait_poll ''v'' (shard_of sample_start) = (Blocked 0, sample_blocked)" unfolding sample_start_def by code_simp
  have i: "thread_of sample_start 0 = Idle" by (simp add: sample_start_def)
  have c: "store_complete_locked ''v'' [(''a'', 3)] False sample_blocked = ([0], sample_stored)" by code_simp
  have i1: "thread_of ?s1 1 = Idle" by (simp add: sample_start_def)
  have c1: "store_complete_locked ''v'' [(''a'', 3)] False (shard_of ?s1) = ([0], sample_stored)" using c by simp
  show ?thesis using shard_run.cons[OF polling[OF i p] shard_run.cons[OF storing[OF i1 c1] shard_run.nil]]
    by (simp add: sample_start_def)
qed

theorem waiters_wake_witness:
  "\<exists>k t. k \<le> 1 \<and> shard_run (sample_start\<lparr>shard_of := sample_stored, thread_of := (\<lambda>_. Idle)(0 := Waiting ''v'' 0, 1 := Setting [0])\<rparr>)
      (replicate k LTau) t \<and> 0 \<in> set (sh_fired (shard_of t)) \<and> thread_of t 0 = Waiting ''v'' 0"
proof -
  let ?s = "sample_start\<lparr>shard_of := sample_stored, thread_of := (\<lambda>_. Idle)(0 := Waiting ''v'' 0, 1 := Setting [0])\<rparr>"
  have w: "thread_of ?s 0 = Waiting ''v'' 0" by simp
  have c: "is_complete ''v'' (shard_of ?s) \<or> sh_day_skip (shard_of ?s) \<noteq> None" by (simp add: sample_stored_def is_complete_def)
  show ?thesis using waiters_wake[OF sample_start sample_wait_run w c] .
qed

definition sample_merged :: day_shard where
  "sample_merged = new_shard\<lparr>sh_members := [(''v'', (0, [(''a'', 3)]))], sh_complete := [(''v'', True)], sh_next := 1\<rparr>"

theorem merge_keeps_larger_witness:
  "\<exists>s t. shard_step s (LMerged ''v'' [(''a'', 3)]) t \<and> is_complete ''v'' (shard_of t) \<and> dget (members_of ''v'' (shard_of t)) ''a'' = Some 3"
proof -
  let ?s1 = "sample_start\<lparr>thread_of := (thread_of sample_start)(0 := Merging ''v'' [(''a'', 3)] False (merge_read ''v'' (shard_of sample_start)))\<rparr>"
  have i: "thread_of sample_start 0 = Idle" by (simp add: sample_start_def)
  have r: "shard_run sample_start [LTau] ?s1" by (rule shard_run.cons[OF reading[OF i] shard_run.nil]) simp
  have t: "thread_of ?s1 0 = Merging ''v'' [(''a'', 3)] False (merge_read ''v'' (shard_of sample_start))" by simp
  have c: "merge_commit ''v'' [(''a'', 3)] False (merge_read ''v'' (shard_of sample_start)) (shard_of ?s1) = Some ([], sample_merged)"
    unfolding sample_start_def by (simp add: merge_commit_def merge_read_def new_shard_def merge_map_def put_complete_def put_members_def
        wake_and_drop_stale_def wake_and_drop_event_locked_def drop_stale_identities_locked_def stale_def sample_merged_def)
  have d: "distinct (keys [(''a'', 3::int)])" by simp
  note st = committing[OF t c]
  have "members_of ''v'' (shard_of ?s1) = []" by (simp add: sample_start_def new_shard_def members_of_def)
  then have "is_complete ''v'' (shard_of (?s1\<lparr>shard_of := sample_merged, thread_of := (thread_of ?s1)(0 := Setting [])\<rparr>)) \<and>
      dget (members_of ''v'' (shard_of (?s1\<lparr>shard_of := sample_merged, thread_of := (thread_of ?s1)(0 := Setting [])\<rparr>))) ''a'' = Some 3"
    using merge_keeps_larger[OF sample_start r st d, of "''a''"] by simp
  then show ?thesis using st by blast
qed

definition sample_owned :: day_shard where
  "sample_owned = sample_blocked\<lparr>sh_populate_owner := [(''v'', 0)]\<rparr>"

definition sample_retried :: day_shard where
  "sample_retried = new_shard\<lparr>sh_events := [(''v'', 1)], sh_populate_owner := [(''v'', 1)], sh_next := 2\<rparr>"

theorem populate_single_flight_witness:
  "(\<exists>t. shard_run sample_start [LBegan 0 ''v'', LFinished 0 ''v'', LBegan 1 ''v''] t) \<and>
    length (scanners ''v'' [LBegan 0 ''v'', LFinished 0 ''v'', LBegan 1 ''v'']) \<le> Suc 0"
proof -
  let ?s1 = "sample_start\<lparr>shard_of := sample_owned\<rparr>"
  let ?s2 = "?s1\<lparr>shard_of := new_shard\<lparr>sh_next := 1\<rparr>, thread_of := (thread_of ?s1)(0 := Setting [0])\<rparr>"
  have i: "thread_of sample_start 0 = Idle" "thread_of ?s1 0 = Idle" "thread_of ?s2 1 = Idle" by (simp_all add: sample_start_def)
  have "try_begin_populate 0 ''v'' new_shard = (True, sample_owned)" by code_simp
  then have b: "try_begin_populate (int 0) ''v'' (shard_of sample_start) = (True, sample_owned)" by (simp add: sample_start_def)
  have "finish_populate_locked ''v'' None False sample_owned = ([0], new_shard\<lparr>sh_next := 1\<rparr>)" by code_simp
  then have f: "finish_populate_locked ''v'' None False (shard_of ?s1) = ([0], new_shard\<lparr>sh_next := 1\<rparr>)" by simp
  have "try_begin_populate 1 ''v'' (new_shard\<lparr>sh_next := 1\<rparr>) = (True, sample_retried)" by code_simp
  then have b2: "try_begin_populate (int 1) ''v'' (shard_of ?s2) = (True, sample_retried)" by simp
  note run = shard_run.cons[OF beginning[OF i(1) b] shard_run.cons[OF finishing[OF i(2) f] shard_run.cons[OF beginning[OF i(3) b2] shard_run.nil]]]
  moreover have "finishes_own ''v'' [] [LBegan 0 ''v'', LFinished 0 ''v'', LBegan 1 ''v'']" by simp
  ultimately show ?thesis using populate_single_flight[OF sample_start run, of "''v''"] by (auto simp: revocations_def)
qed

end
