(* ===== verification/Day_Close.thy ===== *)
theory Day_Close
  imports Persistence_Docs
begin

text \<open>
  The day-close manifest of \<^verbatim>\<open>dbload/lib/sync_timedb_day_close_manifest.py\<close>: which archive days are
  being closed, in which phase, and how the manifest is kept in step with the debt heap of the
  queue and with the document on disk. The record \<open>day_close\<close> holds the manifest (the entries and
  the other top-level keys), the files and the debt heap. The constructor's callbacks are fields of
  \<open>dc_env\<close>; a callback that raises is one that returns the value the code then uses. The
  test whether a day is finished on disk (\<^verbatim>\<open>day_close_filesystem_complete\<close>, over the archive) is
  a parameter. Phase notifications and log lines have no effect on this state. The clock is
  read once per operation. The operations are the methods run one at a time: the code writes a
  copy of the manifest after it has released its lock, and what other threads may do before
  that write is the subject of \<open>Day_Close_Conc\<close>.
\<close>

record day_close =
  dc_head :: "(string \<times> json) list"
  dc_entries :: "(string \<times> json) list"
  dc_files :: files
  dc_debt :: "string list"

record dc_env =
  dc_os :: os_env
  dc_repr :: "json \<Rightarrow> string"
  dc_path :: string
  dc_stale_seconds :: int
  dc_enqueue :: "(string \<Rightarrow> string \<Rightarrow> string list \<Rightarrow> bool \<times> string list) option"
  dc_inflight :: "(string list \<Rightarrow> string list) option"
  dc_eligible :: "(string \<Rightarrow> bool \<times> string) option"
  dc_disqualified :: "string list"
  dc_fs_complete :: "string \<Rightarrow> bool"

subsection \<open>Entries\<close>

definition DAY_CLOSE_PIPELINE_PENDING_STATUSES :: "string list" where
  "DAY_CLOSE_PIPELINE_PENDING_STATUSES = [''submitted'', ''queued'', ''sealing'', ''raw_removal'', ''deferred'']"

definition DAY_CLOSE_WORKER_SLOT_STATUSES :: "string list" where
  "DAY_CLOSE_WORKER_SLOT_STATUSES = [''submitted'', ''queued'', ''sealing'', ''raw_removal'']"

definition entry_text :: "dc_env \<Rightarrow> string \<Rightarrow> json \<Rightarrow> string" where
  \<comment> \<open>\<^verbatim>\<open>str(entry.get(key) or "")\<close>\<close>
  "entry_text de key entry = str_of_json (dc_repr de) (jor (jget entry key) (JStr []))"

definition is_day_close_pipeline_pending_entry :: "dc_env \<Rightarrow> json \<Rightarrow> bool" where
  "is_day_close_pipeline_pending_entry de entry =
     (is_obj entry \<and> entry_text de ''status'' entry \<in> set DAY_CLOSE_PIPELINE_PENDING_STATUSES)"

definition is_worker_slot_pending_entry :: "dc_env \<Rightarrow> json \<Rightarrow> bool" where
  "is_worker_slot_pending_entry de entry =
     (is_obj entry \<and> entry_text de ''status'' entry \<in> set DAY_CLOSE_WORKER_SLOT_STATUSES)"

definition is_deferred_waiting_on_ingest_entry :: "dc_env \<Rightarrow> json \<Rightarrow> bool" where
  "is_deferred_waiting_on_ingest_entry de entry =
     (is_obj entry \<and> entry_text de ''status'' entry = ''deferred'' \<and>
      entry_text de ''detail'' entry \<in> {''waiting_on_ingest'', ''legacy_raw_delete_pending'', []})"

definition set_fields :: "(string \<times> json) list \<Rightarrow> json \<Rightarrow> json" where
  \<comment> \<open>\<^verbatim>\<open>entry[k] = v\<close> for each pair\<close>
  "set_fields kvs entry = JObj (foldl (\<lambda>d (k, v). dset k v d) (obj_of entry) kvs)"

definition entry_at :: "day_close \<Rightarrow> string \<Rightarrow> json" where
  \<comment> \<open>\<^verbatim>\<open>entries.get(tar_norm)\<close>\<close>
  "entry_at st tar = (case dget (dc_entries st) tar of None \<Rightarrow> JNull | Some e \<Rightarrow> e)"

subsection \<open>The document\<close>

definition MANIFEST_VERSION :: int where
  "MANIFEST_VERSION = 1"

definition manifest_payload :: "day_close \<Rightarrow> json" where
  "manifest_payload st = JObj (dset ''entries'' (JObj (dc_entries st)) (dc_head st))"

definition load_manifest :: "dc_env \<Rightarrow> files \<Rightarrow> string list \<Rightarrow> day_close res" where
  \<comment> \<open>The code takes \<open>entries\<close> to be a dict and raises when it is used otherwise.\<close>
  "load_manifest de fs debt =
     bindE (load_persistence_document (dc_repr de) fs (dc_path de) ''day_close_manifest'' JNull) (\<lambda>payload.
       if \<not> is_obj payload then
         Inr \<lparr>dc_head = [(''version'', JInt MANIFEST_VERSION), (''last_progress'', JStr []), (''last_progress_at'', JNull)],
              dc_entries = [], dc_files = fs, dc_debt = debt\<rparr>
       else let d = setdefault ''entries'' (JObj []) (setdefault ''version'' (JInt MANIFEST_VERSION) (obj_of payload)) in
         if is_obj (jget (JObj d) ''entries'') then
           Inr \<lparr>dc_head = ddel ''entries'' d, dc_entries = obj_of (jget (JObj d) ''entries''), dc_files = fs, dc_debt = debt\<rparr>
         else Inl AttributeError)"

definition save_manifest :: "dc_env \<Rightarrow> 'a \<Rightarrow> day_close \<Rightarrow> 'a res \<times> day_close" where
  \<comment> \<open>Write the manifest and return \<open>v\<close>. The code copies the manifest under its lock and writes the copy
    after it has released it; no other thread runs in between here.\<close>
  "save_manifest de v st =
     (case save_persistence_document (dc_os de) (dc_path de) ''day_close_manifest'' (manifest_payload st) True (dc_files st) of
        Inl e \<Rightarrow> (Inl e, st) | Inr fs \<Rightarrow> (Inr v, st\<lparr>dc_files := fs\<rparr>))"

subsection \<open>Steps on the manifest\<close>

definition put_entry :: "string \<Rightarrow> json \<Rightarrow> day_close \<Rightarrow> day_close" where
  "put_entry tar e st = st\<lparr>dc_entries := dset tar e (dc_entries st)\<rparr>"

definition touch_manifest_locked :: "string \<Rightarrow> string \<Rightarrow> f64 \<Rightarrow> day_close \<Rightarrow> day_close" where
  "touch_manifest_locked stage tar now st =
     (let st1 = st\<lparr>dc_head := dset ''last_progress_at'' (JFloat now) (dset ''last_progress'' (JStr stage) (dc_head st))\<rparr>;
          st2 = (if dget (dc_entries st1) tar = None then put_entry tar (JObj []) st1 else st1) in
      if tar = [] then st1
      else if is_obj (entry_at st2 tar)
        then put_entry tar (set_fields [(''last_progress'', JStr stage), (''last_progress_at'', JFloat now)] (entry_at st2 tar)) st2
        else st2)"

definition restore_queued :: "string \<Rightarrow> string \<Rightarrow> f64 \<Rightarrow> day_close \<Rightarrow> day_close" where
  \<comment> \<open>Back to \<open>queued\<close> after a debt push.\<close>
  "restore_queued reason tar now st =
     (let e = (if is_obj (entry_at st tar) then entry_at st tar else JObj [(''tar_path'', JStr tar)]);
          e1 = set_fields [(''status'', JStr ''queued''), (''reason'', JStr reason)] e;
          e2 = set_fields [(''submitted_at'', JFloat now)] (JObj (ddel ''detail'' (obj_of e1)))
      in touch_manifest_locked ''queued'' tar now (put_entry tar e2 st))"

definition run_enqueue :: "dc_env \<Rightarrow> string \<Rightarrow> string \<Rightarrow> day_close \<Rightarrow> bool \<times> day_close" where
  "run_enqueue de tar reason st = (case dc_enqueue de of None \<Rightarrow> (False, st)
   | Some f \<Rightarrow> (let (ok, debt) = f tar reason (dc_debt st) in (ok, st\<lparr>dc_debt := debt\<rparr>)))"

definition inflight_paths :: "dc_env \<Rightarrow> day_close \<Rightarrow> string list" where
  "inflight_paths de st = (case dc_inflight de of None \<Rightarrow> [] | Some f \<Rightarrow> f (dc_debt st))"

definition set_entry_status :: "dc_env \<Rightarrow> string \<Rightarrow> string \<Rightarrow> (string \<times> json) list \<Rightarrow> day_close \<Rightarrow> unit res \<times> day_close" where
  "set_entry_status de tar status extra st =
     (let e = (if is_obj (entry_at st tar) then entry_at st tar else JObj [])
      in save_manifest de () (put_entry tar (set_fields ((''status'', JStr status) # extra) e) st))"

definition touch_manifest :: "dc_env \<Rightarrow> string \<Rightarrow> string \<Rightarrow> f64 \<Rightarrow> day_close \<Rightarrow> unit res \<times> day_close" where
  "touch_manifest de stage tar now st = save_manifest de () (touch_manifest_locked stage tar now st)"

definition touch_progress :: "dc_env \<Rightarrow> string \<Rightarrow> string \<Rightarrow> f64 \<Rightarrow> day_close \<Rightarrow> unit res \<times> day_close" where
  "touch_progress de stage tar_path now st = touch_manifest de stage (normpath tar_path) now st"

definition live_set :: "string list \<Rightarrow> string list" where
  "live_set tars = map normpath (filter (\<lambda>t. t \<noteq> []) tars)"

subsection \<open>Which days are active\<close>

definition entries_where :: "(json \<Rightarrow> bool) \<Rightarrow> day_close \<Rightarrow> string set" where
  "entries_where P st = (\<lambda>(tar, _). normpath tar) ` set (filter (\<lambda>(_, e). P e) (dc_entries st))"

definition manifest_worker_slot_tar_paths :: "dc_env \<Rightarrow> day_close \<Rightarrow> string set" where
  "manifest_worker_slot_tar_paths de st = entries_where (is_worker_slot_pending_entry de) st"

definition deferred_waiting_on_ingest_tar_paths :: "dc_env \<Rightarrow> day_close \<Rightarrow> string set" where
  "deferred_waiting_on_ingest_tar_paths de st = entries_where (is_deferred_waiting_on_ingest_entry de) st"

definition active_or_submitted_tar_paths :: "dc_env \<Rightarrow> day_close \<Rightarrow> string set" where
  "active_or_submitted_tar_paths de st =
     (set (inflight_paths de st) \<union> entries_where (is_day_close_pipeline_pending_entry de) st) - deferred_waiting_on_ingest_tar_paths de st"

definition active_discover_cap_tar_paths :: "dc_env \<Rightarrow> string list \<Rightarrow> day_close \<Rightarrow> string set" where
  "active_discover_cap_tar_paths de live st = set (live_set live) \<union> manifest_worker_slot_tar_paths de st"

definition active_worker_tar_paths :: "dc_env \<Rightarrow> string list \<Rightarrow> day_close \<Rightarrow> string set" where
  "active_worker_tar_paths de live st =
     set (live_set live) \<union> (set (inflight_paths de st) - deferred_waiting_on_ingest_tar_paths de st) \<union> manifest_worker_slot_tar_paths de st"

subsection \<open>Operations\<close>

definition is_complete_day :: "dc_env \<Rightarrow> string \<Rightarrow> day_close \<Rightarrow> bool" where
  "is_complete_day de tar_path st = (let tar = normpath tar_path; entry = entry_at st tar in
     is_obj entry \<and> jget entry ''status'' = JStr ''complete'' \<and> dc_fs_complete de tar)"

definition clear_deferred_waiting_on_ingest :: "dc_env \<Rightarrow> string \<Rightarrow> day_close \<Rightarrow> bool res \<times> day_close" where
  "clear_deferred_waiting_on_ingest de tar_path st = (let tar = normpath tar_path in
     if tar = [] then (Inr False, st)
     else if \<not> is_deferred_waiting_on_ingest_entry de (entry_at st tar) then (Inr False, st)
     else save_manifest de True (st\<lparr>dc_entries := ddel tar (dc_entries st)\<rparr>))"

definition defer_for_ingest_handoff :: "dc_env \<Rightarrow> string \<Rightarrow> f64 \<Rightarrow> day_close \<Rightarrow> unit res \<times> day_close" where
  "defer_for_ingest_handoff de tar_path now st = (let tar = normpath tar_path in
     if tar = [] then (Inr (), st)
     else if \<not> is_obj (entry_at st tar) then
       save_manifest de () (touch_manifest_locked ''deferred_waiting_on_ingest'' tar now
         (put_entry tar (JObj [(''tar_path'', JStr tar), (''status'', JStr ''deferred''), (''detail'', JStr ''waiting_on_ingest''),
            (''submitted_at'', JFloat now)]) st))
     else if entry_text de ''status'' (entry_at st tar) \<notin> set DAY_CLOSE_PIPELINE_PENDING_STATUSES then (Inr (), st)
     else (case set_entry_status de tar ''deferred'' [(''detail'', JStr ''waiting_on_ingest'')] st of
         (Inl e, st1) \<Rightarrow> (Inl e, st1)
       | (Inr _, st1) \<Rightarrow> touch_manifest de ''deferred_waiting_on_ingest'' tar now st1))"

definition finalize_complete_if_filesystem :: "dc_env \<Rightarrow> string \<Rightarrow> f64 \<Rightarrow> day_close \<Rightarrow> bool res \<times> day_close" where
  "finalize_complete_if_filesystem de tar_path now st = (let tar = normpath tar_path in
     if tar = [] \<or> \<not> dc_fs_complete de tar then (Inr False, st)
     else (case set_entry_status de tar ''complete'' [(''completed_at'', JFloat now)] st of
         (Inl e, st1) \<Rightarrow> (Inl e, st1)
       | (Inr _, st1) \<Rightarrow> (case touch_manifest de ''complete'' tar now st1 of
            (Inl e, st2) \<Rightarrow> (Inl e, st2) | (Inr _, st2) \<Rightarrow> (Inr True, st2))))"

definition enqueue_day_close_impl :: "dc_env \<Rightarrow> string \<Rightarrow> string \<Rightarrow> string list option \<Rightarrow> f64 \<Rightarrow> day_close \<Rightarrow> (bool \<times> string) res \<times> day_close" where
  "enqueue_day_close_impl de tar_path reason disqualified now st =
     (let tar = normpath tar_path; entry = entry_at st tar; inflight = inflight_paths de st;
          dis = (case disqualified of Some d \<Rightarrow> d | None \<Rightarrow> dc_disqualified de);
          (eligible, skip_reason) = (case dc_eligible de of None \<Rightarrow> (True, []) | Some f \<Rightarrow> f tar);
          waiting = is_deferred_waiting_on_ingest_entry de entry; pending = is_day_close_pipeline_pending_entry de entry in
      if tar = [] then (Inr (False, []), st)
      else if is_complete_day de tar st then (Inr (True, ''already_complete''), st)
      else if tar \<in> set dis then (Inr (False, ''disqualified''), st)
      else if \<not> eligible then (Inr (False, if skip_reason \<noteq> [] then skip_reason else ''submit_ineligible''), st)
      else if pending \<and> entry_text de ''status'' entry = ''deferred'' \<and> \<not> waiting \<and> tar \<in> set inflight then
        (let r = (if reason \<noteq> [] then reason else ''promoted_from_deferred'') in save_manifest de (True, r) (restore_queued r tar now st))
      else if pending \<and> waiting then (Inr (False, ''deferred_waiting_on_ingest''), st)
      else if tar \<in> set inflight then (Inr (True, ''already_inflight''), st)
      else let (enqueued, st1) = run_enqueue de tar reason st in
        if \<not> enqueued then (Inr (False, ''already_on_debt_heap''), st1)
        else save_manifest de (True, reason) (touch_manifest_locked ''queued'' tar now
          (put_entry tar (JObj [(''tar_path'', JStr tar), (''status'', JStr ''queued''), (''reason'', JStr reason), (''submitted_at'', JFloat now)]) st1)))"

definition enqueue_day_close :: "dc_env \<Rightarrow> string \<Rightarrow> string \<Rightarrow> string list option \<Rightarrow> f64 \<Rightarrow> day_close \<Rightarrow> bool res \<times> day_close" where
  "enqueue_day_close de tar_path reason disqualified now st =
     (let (r, st') = enqueue_day_close_impl de tar_path reason disqualified now st in (bindE r (\<lambda>(ok, _). Inr ok), st'))"

subsection \<open>Reconciliation with the debt heap\<close>

definition ghost :: "dc_env \<Rightarrow> string list \<Rightarrow> string list \<Rightarrow> string \<times> json \<Rightarrow> bool" where
  "ghost de debt live = (\<lambda>(tar, entry). is_worker_slot_pending_entry de entry \<and> normpath tar \<notin> set debt \<and> normpath tar \<notin> set live)"

definition defer_entry :: "string \<Rightarrow> f64 \<Rightarrow> json \<Rightarrow> json" where
  "defer_entry detail now entry =
     set_fields [(''status'', JStr ''deferred''), (''detail'', JStr detail), (''recovered_at'', JFloat now)] entry"

fun reenqueue_ghosts :: "dc_env \<Rightarrow> f64 \<Rightarrow> string list \<Rightarrow> day_close \<Rightarrow> unit res \<times> day_close" where
  "reenqueue_ghosts de now [] st = (Inr (), st)"
| "reenqueue_ghosts de now (tar # tars) st =
     (let (enqueued, st1) = run_enqueue de tar ''ghost_manifest_reconcile'' st;
          st2 = (if enqueued then restore_queued ''ghost_manifest_reconcile'' tar now st1
                 else st1\<lparr>dc_entries := ddel tar (dc_entries st1)\<rparr>)
      in (case save_manifest de () st2 of (Inl e, st3) \<Rightarrow> (Inl e, st3) | (Inr _, st3) \<Rightarrow> reenqueue_ghosts de now tars st3))"

definition reconcile_manifest_with_debt_heap :: "dc_env \<Rightarrow> string list \<Rightarrow> string list \<Rightarrow> f64 \<Rightarrow> day_close \<Rightarrow> nat res \<times> day_close" where
  "reconcile_manifest_with_debt_heap de debt_tar_paths live_worker_tars now st =
     (let debt = live_set debt_tar_paths; live = live_set live_worker_tars;
          ghosts = filter (ghost de debt live) (dc_entries st);
          st1 = st\<lparr>dc_entries := map (\<lambda>(tar, e). (tar, if ghost de debt live (tar, e) then defer_entry ''ghost_manifest_reconcile'' now e else e)) (dc_entries st)\<rparr>
      in if ghosts = [] then (Inr 0, st1)
         else (case save_manifest de () st1 of (Inl e, st2) \<Rightarrow> (Inl e, st2)
          | (Inr _, st2) \<Rightarrow> (case reenqueue_ghosts de now (map (normpath \<circ> fst) ghosts) st2 of
               (Inl e, st3) \<Rightarrow> (Inl e, st3) | (Inr _, st3) \<Rightarrow> (Inr (length ghosts), st3))))"

subsection \<open>Recovery of stale entries\<close>

fun float_of_json :: "json \<Rightarrow> f64 res" where
  \<comment> \<open>\<^verbatim>\<open>float(value)\<close>\<close>
  "float_of_json (JFloat v) = Inr v"
| "float_of_json (JInt n) = (let v = of_int_f64 n in if isfinite v then Inr v else Inl OverflowError)"
| "float_of_json (JBool b) = Inr (if b then Fin 1 else Fin 0)"
| "float_of_json (JStr s) = raise_none ValueError (py_float s)"
| "float_of_json _ = Inl TypeError"

definition recover_entry :: "dc_env \<Rightarrow> string list \<Rightarrow> f64 \<Rightarrow> string \<Rightarrow> json \<Rightarrow> (json \<times> bool) option res" where
  \<comment> \<open>The changed entry and whether it held a worker slot; \<open>None\<close>: \<^verbatim>\<open>continue\<close>.\<close>
  "recover_entry de live now tar entry =
     (let status = entry_text de ''status'' entry in
      if \<not> is_obj entry then Inr None
      else if status = ''raw_delete_pending'' then Inr (Some (defer_entry ''legacy_raw_delete_pending'' now entry, False))
      else if status \<notin> set DAY_CLOSE_WORKER_SLOT_STATUSES then Inr None
      else if normpath tar \<in> set live then Inr None
      else let last_at = jor (jget entry ''last_progress_at'') (jget entry ''submitted_at'') in
        if last_at = JNull then Inr None
        else bindE (float_of_json last_at) (\<lambda>t.
          if flt (fsub now t) (of_int_f64 (dc_stale_seconds de)) then Inr None
          else Inr (Some (defer_entry ''stale_manifest_recovery'' now entry, True))))"

fun recover_loop :: "dc_env \<Rightarrow> string list \<Rightarrow> f64 \<Rightarrow> (string \<times> json) list \<Rightarrow> day_close \<Rightarrow> (string \<times> bool) list res \<times> day_close" where
  "recover_loop de live now [] st = (Inr [], st)"
| "recover_loop de live now ((tar, entry) # rest) st =
     (case recover_entry de live now tar entry of
        Inl e \<Rightarrow> (Inl e, st)
      | Inr None \<Rightarrow> recover_loop de live now rest st
      | Inr (Some (entry', slot)) \<Rightarrow>
          (case recover_loop de live now rest (put_entry tar entry' st) of
             (Inl e, st') \<Rightarrow> (Inl e, st') | (Inr rs, st') \<Rightarrow> (Inr ((normpath tar, slot) # rs), st')))"

definition stale_complete :: "dc_env \<Rightarrow> string \<times> json \<Rightarrow> bool" where
  "stale_complete de = (\<lambda>(tar, entry).
     is_obj entry \<and> entry_text de ''status'' entry = ''complete'' \<and> \<not> dc_fs_complete de (normpath tar))"

fun requeue_recovered :: "dc_env \<Rightarrow> f64 \<Rightarrow> string list \<Rightarrow> day_close \<Rightarrow> unit res \<times> day_close" where
  "requeue_recovered de now [] st = (Inr (), st)"
| "requeue_recovered de now (tar # tars) st =
     (let (enqueued, st1) = run_enqueue de tar ''stale_manifest_recovery'' st in
      if \<not> enqueued \<and> tar \<notin> set (inflight_paths de st1) then requeue_recovered de now tars st1
      else (case save_manifest de () (restore_queued ''stale_manifest_recovery'' tar now st1) of
              (Inl e, st2) \<Rightarrow> (Inl e, st2) | (Inr _, st2) \<Rightarrow> requeue_recovered de now tars st2))"

definition recover_stale_manifest_entries :: "dc_env \<Rightarrow> string list \<Rightarrow> f64 \<Rightarrow> day_close \<Rightarrow> unit res \<times> day_close" where
  "recover_stale_manifest_entries de live_worker_tars now st =
     (if dc_stale_seconds de \<le> 0 then (Inr (), st)
      else (case recover_loop de (live_set live_worker_tars) now (dc_entries st) st of
         (Inl e, st1) \<Rightarrow> (Inl e, st1)
       | (Inr recovered, st1) \<Rightarrow>
          (let downgraded = filter (stale_complete de) (dc_entries st1);
               st2 = st1\<lparr>dc_entries := map (\<lambda>(tar, e). (tar, if stale_complete de (tar, e)
                        then defer_entry ''stale_complete_filesystem_mismatch'' now e else e)) (dc_entries st1)\<rparr>
           in if recovered = [] \<and> downgraded = [] then (Inr (), st2)
              else (case save_manifest de () st2 of (Inl e, st3) \<Rightarrow> (Inl e, st3)
               | (Inr _, st3) \<Rightarrow> requeue_recovered de now (map fst (filter snd recovered)) st3))))"

subsection \<open>What the steps keep\<close>

declare map_of_eq_Some_iff [simp del]

lemma jget_set_fields: "jget (set_fields kvs e) k = (case dget (rev kvs) k of Some v \<Rightarrow> v | None \<Rightarrow> jget e k)"
proof -
  have "dget (foldl (\<lambda>d (k, v). dset k v d) d kvs) k = (case dget (rev kvs) k of Some v \<Rightarrow> Some v | None \<Rightarrow> dget d k)" for d
    by (induction kvs rule: rev_induct) (auto split: option.split prod.split)
  then show ?thesis by (auto simp: set_fields_def jget_def split: option.split)
qed

lemma is_obj_set_fields [simp]: "is_obj (set_fields kvs e)"
  by (simp add: set_fields_def)

lemma jget_ddel: "jget (JObj (ddel k d)) k' = (if k' = k then JNull else jget (JObj d) k')"
  by (simp add: jget_def)

lemma deferred_not_slot: "\<not> is_worker_slot_pending_entry de (defer_entry detail now e)"
  by (simp add: is_worker_slot_pending_entry_def entry_text_def defer_entry_def jget_set_fields jor_def
      DAY_CLOSE_WORKER_SLOT_STATUSES_def)

lemma touch_frame:
  "k \<noteq> tar \<Longrightarrow> dget (dc_entries (touch_manifest_locked stage tar now st)) k = dget (dc_entries st) k"
  "dc_debt (touch_manifest_locked stage tar now st) = dc_debt st" "dc_files (touch_manifest_locked stage tar now st) = dc_files st"
  "dc_head (touch_manifest_locked stage tar now st) =
     dset ''last_progress_at'' (JFloat now) (dset ''last_progress'' (JStr stage) (dc_head st))"
  by (simp_all add: touch_manifest_locked_def put_entry_def Let_def)

lemma touch_status:
  assumes "dget (dc_entries st) tar = Some e" "is_obj e" "key \<notin> {''last_progress'', ''last_progress_at''}" "tar \<noteq> []"
  shows "jget (entry_at (touch_manifest_locked stage tar now st) tar) key = jget e key"
    "is_obj (entry_at (touch_manifest_locked stage tar now st) tar)"
  using assms by (auto simp: touch_manifest_locked_def put_entry_def entry_at_def Let_def jget_set_fields)

lemma restore_frame:
  "k \<noteq> tar \<Longrightarrow> dget (dc_entries (restore_queued reason tar now st)) k = dget (dc_entries st) k"
  "dc_debt (restore_queued reason tar now st) = dc_debt st" "dc_files (restore_queued reason tar now st) = dc_files st"
  "dc_head (restore_queued reason tar now st) =
     dset ''last_progress_at'' (JFloat now) (dset ''last_progress'' (JStr ''queued'') (dc_head st))"
  by (simp_all add: restore_queued_def Let_def touch_frame put_entry_def)

lemma restore_status:
  assumes "tar \<noteq> []"
  shows "jget (entry_at (restore_queued reason tar now st) tar) ''status'' = JStr ''queued''"
proof -
  define e where "e = (if is_obj (entry_at st tar) then entry_at st tar else JObj [(''tar_path'', JStr tar)])"
  define e2 where "e2 = set_fields [(''submitted_at'', JFloat now)]
      (JObj (ddel ''detail'' (obj_of (set_fields [(''status'', JStr ''queued''), (''reason'', JStr reason)] e))))"
  have "jget e2 ''status'' = JStr ''queued''"
    unfolding e2_def jget_set_fields by (simp add: jget_ddel set_fields_def jget_def)
  moreover have "jget (entry_at (touch_manifest_locked ''queued'' tar now (put_entry tar e2 st)) tar) ''status'' = jget e2 ''status''"
    by (rule touch_status(1)) (simp_all add: put_entry_def e2_def assms)
  ultimately show ?thesis by (simp add: restore_queued_def Let_def e_def e2_def)
qed

lemma save_manifest_cases:
  assumes "save_manifest de v st = (r, st')"
  obtains (failed) e where "r = Inl e" "st' = st"
    | (saved) e where "r = Inr v" "wrap_envelope ''day_close_manifest'' (manifest_payload st) = Inr e"
        "st' = st\<lparr>dc_files := dset (dc_path de) (Some (canon e)) (dc_files st)\<rparr>"
proof (cases "save_persistence_document (dc_os de) (dc_path de) ''day_close_manifest'' (manifest_payload st) True (dc_files st)")
  case (Inl e)
  then show ?thesis using assms by (intro failed) (auto simp: save_manifest_def)
next
  case (Inr fs)
  then obtain e where "wrap_envelope ''day_close_manifest'' (manifest_payload st) = Inr e" "fs = dset (dc_path de) (Some (stored True e)) (dc_files st)"
    by (rule save_cases)
  then show ?thesis using assms Inr saved by (simp add: save_manifest_def stored_def)
qed

subsection \<open>No ghosts\<close>

definition push_ok :: "dc_env \<Rightarrow> bool" where
  \<comment> \<open>A push that reports success leaves the day on the debt heap; a push removes nothing.\<close>
  "push_ok de \<longleftrightarrow> (\<forall>f tar reason heap. dc_enqueue de = Some f \<longrightarrow> set heap \<subseteq> set (snd (f tar reason heap)) \<and>
     (fst (f tar reason heap) \<longrightarrow> tar \<in> set (snd (f tar reason heap))))"

lemma run_enqueue_frame:
  assumes "run_enqueue de tar reason st = (ok, st')"
  shows "dc_entries st' = dc_entries st" "dc_head st' = dc_head st" "dc_files st' = dc_files st"
    "push_ok de \<Longrightarrow> set (dc_debt st) \<subseteq> set (dc_debt st')" "push_ok de \<Longrightarrow> ok \<Longrightarrow> tar \<in> set (dc_debt st')"
  using assms by (auto simp: run_enqueue_def push_ok_def split: option.splits prod.splits) (metis fst_conv snd_conv subsetD)+

definition slots_backed :: "dc_env \<Rightarrow> string set \<Rightarrow> day_close \<Rightarrow> bool" where
  "slots_backed de D st \<longleftrightarrow> (\<forall>k e. dget (dc_entries st) k = Some e \<longrightarrow> is_worker_slot_pending_entry de e \<longrightarrow> k \<in> D \<union> set (dc_debt st))"

lemma reenqueue_backed:
  assumes "push_ok de" "reenqueue_ghosts de now tars st = (Inr (), st')" "slots_backed de D st"
  shows "slots_backed de D st' \<and> (\<forall>k. k \<notin> set tars \<longrightarrow> dget (dc_entries st') k = dget (dc_entries st) k)"
  using assms(2,3)
proof (induction tars arbitrary: st)
  case (Cons tar tars)
  obtain ok st1 where r: "run_enqueue de tar ''ghost_manifest_reconcile'' st = (ok, st1)" by (cases "run_enqueue de tar ''ghost_manifest_reconcile'' st")
  note f = run_enqueue_frame[OF r]
  define st2 where "st2 = (if ok then restore_queued ''ghost_manifest_reconcile'' tar now st1 else st1\<lparr>dc_entries := ddel tar (dc_entries st1)\<rparr>)"
  have o: "dget (dc_entries st2) k = dget (dc_entries st) k" if "k \<noteq> tar" for k
    using that f(1) by (auto simp: st2_def restore_frame)
  have db: "dc_debt st2 = dc_debt st1" by (simp add: st2_def restore_frame)
  have t: "tar \<in> set (dc_debt st2) \<or> dget (dc_entries st2) tar = None" using f(5)[OF assms(1)] db by (auto simp: st2_def)
  have b: "slots_backed de D st2"
    unfolding slots_backed_def
  proof (intro allI impI)
    fix k e assume k: "dget (dc_entries st2) k = Some e" "is_worker_slot_pending_entry de e"
    show "k \<in> D \<union> set (dc_debt st2)"
    proof (cases "k = tar")
      case False
      then have "k \<in> D \<union> set (dc_debt st)" using Cons.prems(2) k o unfolding slots_backed_def by metis
      then show ?thesis using f(4)[OF assms(1)] db by auto
    qed (use t k in auto)
  qed
  obtain r3 st3 where s: "save_manifest de () st2 = (r3, st3)" by (cases "save_manifest de () st2")
  have rest: "r3 = Inr ()" "reenqueue_ghosts de now tars st3 = (Inr (), st')"
    using Cons.prems(1) r s by (auto simp: st2_def split: sum.splits)
  have e3: "dc_entries st3 = dc_entries st2" "dc_debt st3 = dc_debt st2" using s by (auto elim: save_manifest_cases)
  then have "slots_backed de D st3" using b by (simp add: slots_backed_def)
  from Cons.IH[OF rest(2) this] show ?case using o e3 by auto
qed simp

lemma dget_map_entries: "dget (map (\<lambda>(k, v). (k, if P (k, v) then f v else v)) d) k = map_option (\<lambda>v. if P (k, v) then f v else v) (dget d k)"
  by (induction d) auto

text \<open>
  C21. Reconciliation leaves no ghosts: when \<^verbatim>\<open>reconcile_manifest_with_debt_heap\<close> returns, every manifest
  entry that claims a worker slot belongs to a day that is on the debt heap or has a live
  worker, entries of days that had been backed are untouched, and the result counts the ghosts
  that were found.
\<close>
theorem reconcile_no_ghosts:
  assumes "push_ok de" "\<forall>k \<in> set (keys (dc_entries st)). normpath k = k"
    "reconcile_manifest_with_debt_heap de debt live now st = (Inr n, st')" "distinct (keys (dc_entries st))"
  shows "(\<forall>k e. dget (dc_entries st') k = Some e \<longrightarrow> is_worker_slot_pending_entry de e \<longrightarrow>
      k \<in> set (live_set debt) \<union> set (live_set live) \<union> set (dc_debt st')) \<and>
    (\<forall>k. \<not> ghost de (live_set debt) (live_set live) (k, entry_at st k) \<longrightarrow> dget (dc_entries st') k = dget (dc_entries st) k) \<and>
    n = length (filter (ghost de (live_set debt) (live_set live)) (dc_entries st))"
proof -
  let ?g = "ghost de (live_set debt) (live_set live)" and ?D = "set (live_set debt) \<union> set (live_set live)"
  let ?gs = "filter ?g (dc_entries st)"
  define st1 where "st1 = st\<lparr>dc_entries := map (\<lambda>(tar, e). (tar, if ?g (tar, e) then defer_entry ''ghost_manifest_reconcile'' now e else e)) (dc_entries st)\<rparr>"
  have e1: "dget (dc_entries st1) k = map_option (\<lambda>e. if ?g (k, e) then defer_entry ''ghost_manifest_reconcile'' now e else e) (dget (dc_entries st) k)" for k
    by (simp add: st1_def dget_map_entries)
  have b1: "slots_backed de ?D st1"
    unfolding slots_backed_def
  proof (intro allI impI)
    fix k e assume k: "dget (dc_entries st1) k = Some e" "is_worker_slot_pending_entry de e"
    then obtain v where v: "dget (dc_entries st) k = Some v" "e = (if ?g (k, v) then defer_entry ''ghost_manifest_reconcile'' now v else v)"
      unfolding e1 by auto
    have "\<not> ?g (k, v)" using v(2) k(2) deferred_not_slot by auto
    moreover have "normpath k = k" using assms(2) v(1) by (metis domI dom_map_of_conv_image_fst set_map)
    ultimately show "k \<in> ?D \<union> set (dc_debt st1)" using v(2) k(2) by (auto simp: ghost_def)
  qed
  have u1: "dget (dc_entries st1) k = dget (dc_entries st) k" if "\<not> ?g (k, entry_at st k)" for k
    using that unfolding e1 by (cases "dget (dc_entries st) k") (auto simp: entry_at_def)
  show ?thesis
  proof (cases "?gs = []")
    case True
    then have "st' = st1" "n = 0" using assms(3) by (simp_all add: reconcile_manifest_with_debt_heap_def st1_def)
    then show ?thesis using b1 u1 True by (auto simp: slots_backed_def)
  next
    case False
    obtain r2 st2 where s: "save_manifest de () st1 = (r2, st2)" by (cases "save_manifest de () st1")
    have "r2 = Inr ()" "reenqueue_ghosts de now (map (normpath \<circ> fst) ?gs) st2 = (Inr (), st')" "n = length ?gs"
      using assms(3) False s by (auto simp: reconcile_manifest_with_debt_heap_def st1_def Let_def split: sum.splits prod.splits)
    note r = this
    have e2: "dc_entries st2 = dc_entries st1" "dc_debt st2 = dc_debt st1" using s by (auto elim: save_manifest_cases)
    then have "slots_backed de ?D st2" using b1 by (simp add: slots_backed_def)
    note q = reenqueue_backed[OF assms(1) r(2) this]
    have "dget (dc_entries st') k = dget (dc_entries st) k" if k: "\<not> ?g (k, entry_at st k)" for k
    proof -
      have "k \<notin> set (map (normpath \<circ> fst) ?gs)"
      proof
        assume "k \<in> set (map (normpath \<circ> fst) ?gs)"
        then obtain k' e where e: "(k', e) \<in> set (dc_entries st)" "?g (k', e)" "normpath k' = k" by auto
        then have "k' = k" using assms(2) by force
        then have "entry_at st k = e" using e(1) assms(4) by (simp add: entry_at_def map_of_eq_Some_iff)
        then show False using k e(2) \<open>k' = k\<close> by simp
      qed
      then show ?thesis using q u1[OF k] e2 by simp
    qed
    then show ?thesis using q r(3) by (auto simp: slots_backed_def)
  qed
qed

subsection \<open>Enqueueing\<close>

definition inflight_ok :: "dc_env \<Rightarrow> bool" where
  \<comment> \<open>The inflight callback reads the debt heap.\<close>
  "inflight_ok de \<longleftrightarrow> (\<forall>f heap. dc_inflight de = Some f \<longrightarrow> set (f heap) \<subseteq> set heap)"

lemma inflight_debt: "inflight_ok de \<Longrightarrow> tar \<in> set (inflight_paths de st) \<Longrightarrow> tar \<in> set (dc_debt st)"
  unfolding inflight_ok_def inflight_paths_def by (cases "dc_inflight de") auto

lemma normpath_nonempty: "normpath path \<noteq> []"
  by (simp add: normpath_def Let_def)

lemma enqueue_cases:
  assumes "enqueue_day_close_impl de path reason dis now st = (Inr (ok, r), st')"
  obtains (finished) "ok" "st' = st" "dc_fs_complete de (normpath path)"
    | (same) "ok" "st' = st" "normpath path \<in> set (inflight_paths de st)"
    | (refused) "\<not> ok" "dc_entries st' = dc_entries st" "dc_head st' = dc_head st" "dc_files st' = dc_files st"
    | (promoted) q where "ok" "normpath path \<in> set (inflight_paths de st)"
        "save_manifest de (ok, r) (restore_queued q (normpath path) now st) = (Inr (ok, r), st')"
    | (queued) st1 where "ok" "run_enqueue de (normpath path) reason st = (True, st1)"
        "save_manifest de (ok, r) (touch_manifest_locked ''queued'' (normpath path) now
          (put_entry (normpath path) (JObj [(''tar_path'', JStr (normpath path)), (''status'', JStr ''queued''), (''reason'', JStr reason),
             (''submitted_at'', JFloat now)]) st1)) = (Inr (ok, r), st')"
proof -
  obtain el sk where es: "(case dc_eligible de of None \<Rightarrow> (True, []) | Some f \<Rightarrow> f (normpath path)) = (el, sk)"
    by (cases "case dc_eligible de of None \<Rightarrow> (True, []) | Some f \<Rightarrow> f (normpath path)")
  obtain en st1 where re: "run_enqueue de (normpath path) reason st = (en, st1)" by (cases "run_enqueue de (normpath path) reason st")
  have ret: "v = (ok, r)" if "save_manifest de v s = (Inr (ok, r), st')" for v s
    using that by (auto simp: save_manifest_def split: sum.splits)
  note run_enqueue_frame(1-3)[OF re]
  with assms that ret show thesis
    unfolding enqueue_day_close_impl_def Let_def es re prod.case
    by (auto simp: is_complete_day_def Let_def normpath_idem split: if_splits)
qed

text \<open>
  C22. An enqueued day is real work: when \<^verbatim>\<open>enqueue_day_close\<close> reports success, the day is finished on
  disk or it is on the debt heap afterwards; if the manifest changed, its entry says
  \<^verbatim>\<open>queued\<close>, and entries of other days did not change. When it reports failure, manifest and
  document are as before.
\<close>
theorem enqueue_backed:
  assumes "push_ok de" "inflight_ok de" "enqueue_day_close_impl de path reason dis now st = (Inr (ok, r), st')"
  shows "(ok \<longrightarrow> dc_fs_complete de (normpath path) \<or> normpath path \<in> set (dc_debt st')) \<and>
    (dc_entries st' \<noteq> dc_entries st \<longrightarrow> jget (entry_at st' (normpath path)) ''status'' = JStr ''queued'') \<and>
    (\<forall>k. k \<noteq> normpath path \<longrightarrow> dget (dc_entries st') k = dget (dc_entries st) k) \<and>
    (\<not> ok \<longrightarrow> dc_entries st' = dc_entries st \<and> dc_head st' = dc_head st \<and> dc_files st' = dc_files st)"
  using assms(3)
proof (cases rule: enqueue_cases)
  case same
  then show ?thesis using inflight_debt[OF assms(2)] by simp
next
  case (promoted q)
  then have e: "dc_entries st' = dc_entries (restore_queued q (normpath path) now st)" "dc_debt st' = dc_debt st"
    by (auto elim!: save_manifest_cases simp: restore_frame)
  then have "entry_at st' (normpath path) = entry_at (restore_queued q (normpath path) now st) (normpath path)" by (simp add: entry_at_def)
  then show ?thesis using promoted(1,2) e inflight_debt[OF assms(2)] restore_status[OF normpath_nonempty] by (simp add: restore_frame)
next
  case (queued st1)
  let ?e = "JObj [(''tar_path'', JStr (normpath path)), (''status'', JStr ''queued''), (''reason'', JStr reason), (''submitted_at'', JFloat now)]"
  let ?s = "touch_manifest_locked ''queued'' (normpath path) now (put_entry (normpath path) ?e st1)"
  have e: "dc_entries st' = dc_entries ?s" "dc_debt st' = dc_debt st1"
    using queued(3) by (auto elim!: save_manifest_cases simp: touch_frame put_entry_def)
  note f = run_enqueue_frame[OF queued(2)]
  have "jget (entry_at ?s (normpath path)) ''status'' = jget ?e ''status''"
    by (rule touch_status(1)) (simp_all add: put_entry_def normpath_nonempty)
  then have "jget (entry_at st' (normpath path)) ''status'' = JStr ''queued''" using e(1) by (simp add: entry_at_def jget_def)
  then show ?thesis using queued(1) e f(1) f(5)[OF assms(1)] by (auto simp: touch_frame put_entry_def)
qed simp_all

subsection \<open>The document on disk\<close>

definition on_disk :: "dc_env \<Rightarrow> day_close \<Rightarrow> bool" where
  "on_disk de st \<longleftrightarrow> (\<exists>e. wrap_envelope ''day_close_manifest'' (manifest_payload st) = Inr e \<and>
     dget (dc_files st) (dc_path de) = Some (Some (canon e)))"

definition manifest_ok :: "day_close \<Rightarrow> bool" where
  \<comment> \<open>Dicts have each key once; the manifest as a whole has no phase, and its schema is the current one.\<close>
  "manifest_ok st \<longleftrightarrow> distinct (keys (dc_entries st)) \<and> distinct (keys (dc_head st)) \<and>
     dget (dc_head st) ''phase'' = None \<and> dget (dc_head st) ''schema_version'' \<in> {None, Some (JInt 1)}"

definition durable :: "dc_env \<Rightarrow> day_close \<Rightarrow> bool" where
  "durable de st \<longleftrightarrow> on_disk de st \<and> manifest_ok st"

lemma keys_map_entries: "keys (map (\<lambda>(k, v). (k, f k v)) d) = keys d"
  by (induction d) auto

lemma manifest_ok_steps [simp, intro]:
  "manifest_ok st \<Longrightarrow> manifest_ok (put_entry tar e st)"
  "manifest_ok st \<Longrightarrow> manifest_ok (touch_manifest_locked stage tar now st)"
  "manifest_ok st \<Longrightarrow> manifest_ok (restore_queued reason tar now st)"
  "manifest_ok st \<Longrightarrow> manifest_ok (st\<lparr>dc_entries := ddel tar (dc_entries st)\<rparr>)"
  "manifest_ok st \<Longrightarrow> manifest_ok (st\<lparr>dc_entries := map (\<lambda>(k, v). (k, f k v)) (dc_entries st)\<rparr>)"
proof -
  show p: "manifest_ok st \<Longrightarrow> manifest_ok (put_entry tar e st)" for st tar e by (simp add: manifest_ok_def put_entry_def)
  show t: "manifest_ok st \<Longrightarrow> manifest_ok (touch_manifest_locked stage tar now st)" for st stage tar
    using p[of "st\<lparr>dc_head := dset ''last_progress_at'' (JFloat now) (dset ''last_progress'' (JStr stage) (dc_head st))\<rparr>"]
    by (auto simp: touch_manifest_locked_def Let_def manifest_ok_def put_entry_def)
  show "manifest_ok st \<Longrightarrow> manifest_ok (restore_queued reason tar now st)" by (simp add: restore_queued_def Let_def p t)
  show "manifest_ok st \<Longrightarrow> manifest_ok (st\<lparr>dc_entries := ddel tar (dc_entries st)\<rparr>)" by (simp add: manifest_ok_def)
  show "manifest_ok st \<Longrightarrow> manifest_ok (st\<lparr>dc_entries := map (\<lambda>(k, v). (k, f k v)) (dc_entries st)\<rparr>)"
    using keys_map_entries[of f "dc_entries st"] by (simp add: manifest_ok_def del: map_map)
qed

lemma save_durable: "save_manifest de v st = (Inr r, st') \<Longrightarrow> manifest_ok st \<Longrightarrow> durable de st' \<and> r = v"
  by (erule save_manifest_cases) (auto simp: durable_def on_disk_def manifest_payload_def manifest_ok_def)

lemma durable_ok: "durable de st \<Longrightarrow> manifest_ok st"
  by (simp add: durable_def)

lemma touch_durable:
  "save_manifest de v (touch_manifest_locked stage tar now st) = (Inr r, st') \<Longrightarrow> durable de st \<Longrightarrow> durable de st'"
  using save_durable[of de v "touch_manifest_locked stage tar now st"] by (simp add: durable_def)

lemma durable_same:
  "dc_entries st' = dc_entries st \<Longrightarrow> dc_head st' = dc_head st \<Longrightarrow> dc_files st' = dc_files st \<Longrightarrow> durable de st \<Longrightarrow> durable de st'"
  by (simp add: durable_def on_disk_def manifest_payload_def manifest_ok_def)

lemma run_enqueue_durable: "run_enqueue de tar reason st = (ok, st') \<Longrightarrow> durable de st \<Longrightarrow> durable de st'"
  by (rule durable_same[OF run_enqueue_frame(1-3)])

inductive dc_step :: "dc_env \<Rightarrow> day_close \<Rightarrow> day_close \<Rightarrow> bool" for de where
  enqueue: "enqueue_day_close_impl de path reason dis now st = (Inr r, st') \<Longrightarrow> dc_step de st st'"
| reconcile: "reconcile_manifest_with_debt_heap de debt live now st = (Inr n, st') \<Longrightarrow> dc_step de st st'"
| recover: "recover_stale_manifest_entries de live now st = (Inr (), st') \<Longrightarrow> dc_step de st st'"
| clear: "clear_deferred_waiting_on_ingest de path st = (Inr b, st') \<Longrightarrow> dc_step de st st'"
| handoff: "defer_for_ingest_handoff de path now st = (Inr (), st') \<Longrightarrow> dc_step de st st'"
| finalize: "finalize_complete_if_filesystem de path now st = (Inr b, st') \<Longrightarrow> dc_step de st st'"
| touch: "touch_progress de stage path now st = (Inr (), st') \<Longrightarrow> dc_step de st st'"
| heap: "dc_step de st (st\<lparr>dc_debt := debt\<rparr>)"

inductive dc_reach :: "dc_env \<Rightarrow> day_close \<Rightarrow> day_close \<Rightarrow> bool" for de where
  start: "dc_reach de st st"
| more: "dc_reach de st s1 \<Longrightarrow> dc_step de s1 st' \<Longrightarrow> dc_reach de st st'"

lemma save_then_durable:
  \<comment> \<open>A save followed by steps that keep the document.\<close>
  assumes "(case save_manifest de v s of (Inl e, t) \<Rightarrow> (Inl e, t) | (Inr _, t) \<Rightarrow> next_step t) = (Inr r, st')"
    and "manifest_ok s" "\<And>t. next_step t = (Inr r, st') \<Longrightarrow> durable de t \<Longrightarrow> durable de st'"
  shows "durable de st'"
proof -
  obtain q t where q: "save_manifest de v s = (q, t)" by (cases "save_manifest de v s")
  then obtain x where x: "q = Inr x" "next_step t = (Inr r, st')" using assms(1) by (cases q) auto
  from save_durable[OF q[unfolded x(1)] assms(2)] assms(3)[OF x(2)] show ?thesis by simp
qed

lemma reenqueue_durable: "reenqueue_ghosts de now tars st = (Inr (), st') \<Longrightarrow> durable de st \<Longrightarrow> durable de st'"
proof (induction tars arbitrary: st)
  case (Cons tar tars)
  obtain ok st1 where r: "run_enqueue de tar ''ghost_manifest_reconcile'' st = (ok, st1)" by (cases "run_enqueue de tar ''ghost_manifest_reconcile'' st")
  have ok1: "manifest_ok st1" using run_enqueue_durable[OF r Cons.prems(2)] by (simp add: durable_def)
  from Cons.prems(1) show ?case unfolding reenqueue_ghosts.simps r Let_def prod.case
    by (rule save_then_durable) (use ok1 Cons.IH in auto)
qed simp

lemma requeue_durable: "requeue_recovered de now tars st = (Inr (), st') \<Longrightarrow> durable de st \<Longrightarrow> durable de st'"
proof (induction tars arbitrary: st)
  case (Cons tar tars)
  obtain ok st1 where r: "run_enqueue de tar ''stale_manifest_recovery'' st = (ok, st1)" by (cases "run_enqueue de tar ''stale_manifest_recovery'' st")
  have d: "durable de st1" by (rule run_enqueue_durable[OF r Cons.prems(2)])
  show ?case
  proof (cases "\<not> ok \<and> tar \<notin> set (inflight_paths de st1)")
    case True
    then show ?thesis using Cons.IH[OF _ d] Cons.prems(1) r by simp
  next
    case False
    from Cons.prems(1) show ?thesis unfolding requeue_recovered.simps r Let_def prod.case if_not_P[OF False]
      by (rule save_then_durable) (use d Cons.IH in \<open>auto simp: durable_def\<close>)
  qed
qed simp

lemma recover_loop_none: "recover_loop de live now es st = (Inr [], st') \<Longrightarrow> st' = st"
  by (induction es arbitrary: st) (auto split: sum.splits option.splits prod.splits)

lemma recover_loop_ok: "recover_loop de live now es st = (r, st') \<Longrightarrow> manifest_ok st \<Longrightarrow> manifest_ok st'"
proof (induction es arbitrary: st r)
  case (Cons e es)
  obtain tar entry where e: "e = (tar, entry)" by (cases e)
  show ?case
  proof (cases "recover_entry de live now tar entry")
    case (Inr res)
    then show ?thesis using Cons.prems e
      by (cases res) (auto split: prod.splits sum.splits dest: Cons.IH[OF _ manifest_ok_steps(1)] Cons.IH)
  qed (use Cons.prems e in auto)
qed simp

lemma map_entries_id: "filter P d = [] \<Longrightarrow> map (\<lambda>(k, v). (k, if P (k, v) then f v else v)) d = d"
  by (induction d) (auto split: if_splits)

lemma reconcile_durable:
  assumes "reconcile_manifest_with_debt_heap de debt live now st = (Inr n, st')" "durable de st"
  shows "durable de st'"
proof (cases "filter (ghost de (live_set debt) (live_set live)) (dc_entries st) = []")
  case True
  then have "st' = st" using assms(1) by (simp add: reconcile_manifest_with_debt_heap_def map_entries_id)
  then show ?thesis using assms(2) by simp
next
  case False
  from assms(1)[unfolded reconcile_manifest_with_debt_heap_def Let_def if_not_P[OF False]] show ?thesis
    by (rule save_then_durable)
      (use durable_ok[OF assms(2)] in \<open>auto intro: reenqueue_durable manifest_ok_steps(5)[where f = "\<lambda>k v. if ghost de (live_set debt) (live_set live) (k, v) then defer_entry ''ghost_manifest_reconcile'' now v else v"] split: prod.splits sum.splits\<close>)
qed

lemma recover_durable:
  assumes "recover_stale_manifest_entries de live now st = (Inr (), st')" "durable de st"
  shows "durable de st'"
proof (cases "dc_stale_seconds de \<le> 0")
  case True
  then show ?thesis using assms(1) assms(2) by (simp add: recover_stale_manifest_entries_def)
next
  case False
  obtain rs st1 where l: "recover_loop de (live_set live) now (dc_entries st) st = (Inr rs, st1)"
    using assms(1) False by (auto simp: recover_stale_manifest_entries_def split: sum.splits prod.splits)
  show ?thesis
  proof (cases "rs = [] \<and> filter (stale_complete de) (dc_entries st1) = []")
    case True
    then have "st' = st" using assms(1) False l recover_loop_none[of de "live_set live" now "dc_entries st" st st1]
      by (simp add: recover_stale_manifest_entries_def map_entries_id)
    then show ?thesis using assms(2) by simp
  next
    case nonempty: False
    from assms(1)[unfolded recover_stale_manifest_entries_def if_not_P[OF False] l prod.case sum.case Let_def if_not_P[OF nonempty]]
    show ?thesis
      by (rule save_then_durable)
        (use recover_loop_ok[OF l durable_ok[OF assms(2)]] in \<open>auto intro: requeue_durable manifest_ok_steps(5)[where f = "\<lambda>k v. if stale_complete de (k, v) then defer_entry ''stale_complete_filesystem_mismatch'' now v else v"]\<close>)
  qed
qed

lemma dc_step_durable:
  assumes "dc_step de st st'" "durable de st"
  shows "durable de st'"
proof -
  have ok: "manifest_ok st" using assms(2) by (simp add: durable_def)
  from assms(1) show ?thesis
  proof cases
    case (enqueue path reason dis now r)
    obtain ok t where r: "r = (ok, t)" by (cases r)
    from enqueue[unfolded r] show ?thesis
    proof (cases rule: enqueue_cases)
      case (promoted q)
      then show ?thesis using save_durable[OF promoted(3)] ok by simp
    next
      case (queued st1)
      have "manifest_ok st1" using run_enqueue_durable[OF queued(2) assms(2)] by (simp add: durable_def)
      then show ?thesis using save_durable[OF queued(3)] by simp
    qed (use assms(2) durable_same in auto)
  next
    case (reconcile debt live now n)
    then show ?thesis using assms(2) by (rule reconcile_durable)
  next
    case (recover live now)
    then show ?thesis using assms(2) by (rule recover_durable)
  next
    case (clear path b)
    then show ?thesis using assms(2) ok
      by (auto simp: clear_deferred_waiting_on_ingest_def Let_def dest: save_durable split: if_splits)
  next
    case (handoff path now)
    then show ?thesis using assms(2) ok
      unfolding defer_for_ingest_handoff_def touch_manifest_def set_entry_status_def Let_def
      by (auto dest: save_durable touch_durable elim!: save_then_durable split: if_splits)
  next
    case (finalize path now b)
    then show ?thesis using assms(2) ok
      unfolding finalize_complete_if_filesystem_def touch_manifest_def set_entry_status_def Let_def
      by (auto simp: durable_ok dest: save_durable elim!: save_then_durable split: if_splits)
  next
    case (touch stage path now)
    then show ?thesis using touch_durable[OF _ assms(2)] by (simp add: touch_progress_def touch_manifest_def)
  next
    case (heap debt)
    then show ?thesis using assms(2) by (simp add: durable_def on_disk_def manifest_payload_def manifest_ok_def)
  qed
qed

lemma dc_reach_durable: "dc_reach de st st' \<Longrightarrow> durable de st \<Longrightarrow> durable de st'"
  by (induction rule: dc_reach.induct) (auto dest: dc_step_durable)

lemma load_present:
  assumes "path \<noteq> []" "dget fs path = Some (Some raw)" "validate_envelope rp raw kd = Inr True" "unwrap_envelope raw kd \<noteq> JNull"
  shows "load_persistence_document rp fs path kd def = Inr (unwrap_envelope raw kd)"
  using assms by (simp add: load_persistence_document_def isfile_def read_json_file_def Let_def)

lemma load_durable:
  assumes "durable de st" "dc_path de \<noteq> []"
  shows "\<exists>st2. load_manifest de (dc_files st) debt = Inr st2 \<and> (\<forall>k. dget (dc_entries st2) k = map_option canon (dget (dc_entries st) k))"
proof -
  let ?k = "''day_close_manifest''"
  define d where "d = dset ''entries'' (JObj (dc_entries st)) (dc_head st)"
  have ok: "manifest_ok st" by (rule durable_ok[OF assms(1)])
  obtain e where e: "wrap_envelope ?k (JObj d) = Inr e" "dget (dc_files st) (dc_path de) = Some (Some (stored True e))"
    using assms(1) by (auto simp: durable_def on_disk_def manifest_payload_def d_def stored_def)
  have kinds: "?k \<in> set DICT_PASSTHROUGH_KINDS" "?k \<in> set MANIFEST_KINDS" "?k \<notin> set LIST_ENTRY_KINDS" by (simp_all add: kind_defs)
  have "validate_manifest_payload (dc_repr de) ?k (JObj d)"
    using ok by (simp add: validate_manifest_payload_def MANIFEST_REQUIRED_TOP_LEVEL_def d_def keys_dset_mem jget_def manifest_ok_def)
  moreover have "keeps_schema ?k (JObj d)"
    using ok by (auto simp: keeps_schema_def expected_schema_version_def KIND_SCHEMA_VERSION_def d_def manifest_ok_def)
  moreover have "jget (JObj d) ''phase'' = JNull" "distinct (keys d)" using ok by (simp_all add: d_def jget_def manifest_ok_def)
  ultimately have "doc_ok (dc_repr de) ?k (JObj d)" using kinds by (simp add: doc_ok_def)
  note rt = roundtrip_dict[OF kinds(1) this e(1), where cmp = True]
  have ent: "jget (stored True e) ''entries'' = canon (JObj (dc_entries st))"
    using rt(3)[of "''entries''"] by (simp add: doc_fields_def d_def stored_def)
  then have o: "is_obj (stored True e)" by (cases "stored True e") (auto simp: jget_def)
  have l: "load_persistence_document (dc_repr de) (dc_files st) (dc_path de) ?k JNull = Inr (stored True e)"
    using load_present[OF assms(2) e(2) rt(1)] rt(2) o by (cases "stored True e = JNull") auto
  define d2 where "d2 = setdefault ''entries'' (JObj []) (setdefault ''version'' (JInt MANIFEST_VERSION) (obj_of (stored True e)))"
  have "dget (obj_of (stored True e)) ''entries'' = Some (canon (JObj (dc_entries st)))"
    using ent by (auto simp: jget_def split: option.splits)
  then have "dget d2 ''entries'' = Some (canon (JObj (dc_entries st)))" by (auto simp: d2_def setdefault_def)
  then have j: "jget (JObj d2) ''entries'' = canon (JObj (dc_entries st))" by (simp add: jget_def)
  have "load_manifest de (dc_files st) debt =
      Inr \<lparr>dc_head = ddel ''entries'' d2, dc_entries = obj_of (canon (JObj (dc_entries st))), dc_files = dc_files st, dc_debt = debt\<rparr>"
    unfolding load_manifest_def l bindE_simps Let_def d2_def[symmetric] j using o by (simp del: canon.simps(2))
  moreover have "dget (obj_of (canon (JObj (dc_entries st)))) k = map_option canon (dget (dc_entries st) k)" for k
  proof -
    have "distinct (keys (map (\<lambda>(k, v). (k, canon v)) (dc_entries st)))"
      using ok keys_map_entries[of "\<lambda>_. canon" "dc_entries st"] by (simp add: manifest_ok_def del: map_map)
    then show ?thesis by (simp add: dget_sort_key dget_map_vals)
  qed
  ultimately show ?thesis by auto
qed

lemma serial_restart:
  \<comment> \<open>One operation at a time: the document on disk is the manifest in memory.\<close>
  assumes "durable de st" "dc_reach de st st'" "dc_path de \<noteq> []"
  shows "\<exists>st2. load_manifest de (dc_files st') debt = Inr st2 \<and>
    (\<forall>k. dget (dc_entries st2) k = map_option canon (dget (dc_entries st') k))"
  by (rule load_durable[OF dc_reach_durable[OF assms(2,1)] assms(3)])

subsection \<open>Samples\<close>

definition sample_dc_env :: dc_env where
  \<comment> \<open>A debt heap that takes every day once.\<close>
  "sample_dc_env = \<lparr>dc_os = sample_env, dc_repr = (\<lambda>_. []), dc_path = ''m'', dc_stale_seconds = 60,
     dc_enqueue = Some (\<lambda>tar reason heap. if tar \<in> set heap then (False, heap) else (True, tar # heap)), dc_inflight = Some (\<lambda>heap. heap),
     dc_eligible = None, dc_disqualified = [], dc_fs_complete = (\<lambda>_. False)\<rparr>"

lemma sample_dc_env_ok: "push_ok sample_dc_env" "inflight_ok sample_dc_env"
  by (auto simp: push_ok_def inflight_ok_def sample_dc_env_def)

definition sample_manifest :: day_close where
  "sample_manifest = \<lparr>dc_head = [(''version'', JInt 1)], dc_entries = [(''d/1.tar'', JObj [(''status'', JStr ''sealing'')])],
     dc_files = [], dc_debt = []\<rparr>"

theorem reconcile_no_ghosts_witness:
  "\<exists>st'. reconcile_manifest_with_debt_heap sample_dc_env [] [] (Fin 9) sample_manifest = (Inr 1, st') \<and>
     dget (dc_entries st') ''d/1.tar'' \<noteq> None \<and> ''d/1.tar'' \<in> set (dc_debt st')"
proof -
  define x where "x = reconcile_manifest_with_debt_heap sample_dc_env [] [] (Fin 9) sample_manifest"
  have x: "fst x = Inr 1" "(case dget (dc_entries (snd x)) ''d/1.tar'' of Some e \<Rightarrow> is_worker_slot_pending_entry sample_dc_env e | None \<Rightarrow> False)"
    unfolding x_def by code_simp+
  then obtain st' where st': "x = (Inr 1, st')" by (cases x) auto
  obtain e where e: "dget (dc_entries st') ''d/1.tar'' = Some e" "is_worker_slot_pending_entry sample_dc_env e"
    using x(2) st' by (auto split: option.splits)
  have n: "\<forall>k \<in> set (keys (dc_entries sample_manifest)). normpath k = k" "distinct (keys (dc_entries sample_manifest))" by code_simp+
  have "''d/1.tar'' \<in> set (live_set []) \<union> set (live_set []) \<union> set (dc_debt st')"
    using reconcile_no_ghosts[OF sample_dc_env_ok(1) n(1) st'[unfolded x_def] n(2)] e by blast
  then show ?thesis using st' e(1) by (auto simp: x_def live_set_def)
qed

theorem enqueue_backed_witness:
  "\<exists>st'. enqueue_day_close_impl sample_dc_env ''d/2.tar'' ''r'' None (Fin 9) sample_manifest = (Inr (True, ''r''), st') \<and>
     ''d/2.tar'' \<in> set (dc_debt st')"
proof -
  define x where "x = enqueue_day_close_impl sample_dc_env ''d/2.tar'' ''r'' None (Fin 9) sample_manifest"
  have "fst x = Inr (True, ''r'')" unfolding x_def by code_simp
  then obtain st' where st': "x = (Inr (True, ''r''), st')" by (cases x) auto
  have n: "normpath ''d/2.tar'' = ''d/2.tar''" by code_simp
  show ?thesis using enqueue_backed[OF sample_dc_env_ok st'[unfolded x_def]] st' n by (auto simp: x_def sample_dc_env_def)
qed

end
