(* ===== verification/Day_Close_Conc.thy ===== *)
theory Day_Close_Conc
  imports Day_Close
begin

text \<open>
  Threads on the day-close manifest of \<^verbatim>\<open>dbload/lib/sync_timedb_day_close_manifest.py\<close>. A method changes
  the manifest and takes a deep copy of it under \<^verbatim>\<open>_lock\<close>, releases the lock and then writes the copy:
  between the two, other threads take copies and write theirs. Each locked section and each write
  is one step; copies are numbered in the order in which they were taken. A write may fail,
  the debt heap changes outside the lock. Shown: the document on disk is always one of the
  copies, whole, and it is the manifest in memory when the copies are written in their order;
  when they are not, it stays behind.
\<close>

subsection \<open>Sections and writes\<close>

text \<open>
  The locked sections, by method: \<open>touched\<close> is \<^verbatim>\<open>_touch_manifest\<close>, \<open>status_set\<close> is \<^verbatim>\<open>_set_entry_status\<close>,
  \<open>queued\<close> is the last section of \<^verbatim>\<open>_enqueue_day_close_impl\<close>, \<open>restored\<close> the return to \<open>queued\<close> in
  \<^verbatim>\<open>_recover_stale_manifest_entries\<close>, \<^verbatim>\<open>reconcile_manifest_with_debt_heap\<close> and
  \<^verbatim>\<open>_enqueue_day_close_impl\<close>, \<open>handed_off\<close> is \<^verbatim>\<open>defer_for_ingest_handoff\<close>, \<open>dropped\<close> the removal in
  \<^verbatim>\<open>clear_deferred_waiting_on_ingest\<close> and in the reconciliation, \<open>reconciled\<close> and \<open>recovered\<close> the first
  sections of \<^verbatim>\<open>reconcile_manifest_with_debt_heap\<close> and \<^verbatim>\<open>_recover_stale_manifest_entries\<close>. Each runs
  on whatever manifest other threads have left.
\<close>

inductive locked_section :: "dc_env \<Rightarrow> day_close \<Rightarrow> day_close \<Rightarrow> bool" for de where
  touched: "locked_section de st (touch_manifest_locked stage tar now st)"
| status_set: "locked_section de st (put_entry tar (set_fields ((''status'', JStr status) # extra)
    (if is_obj (entry_at st tar) then entry_at st tar else JObj [])) st)"
| queued: "locked_section de st (touch_manifest_locked ''queued'' tar now (put_entry tar
    (JObj [(''tar_path'', JStr tar), (''status'', JStr ''queued''), (''reason'', JStr reason), (''submitted_at'', JFloat now)]) st))"
| restored: "locked_section de st (restore_queued reason tar now st)"
| handed_off: "\<not> is_obj (entry_at st tar) \<Longrightarrow>
    locked_section de st (touch_manifest_locked ''deferred_waiting_on_ingest'' tar now (put_entry tar
      (JObj [(''tar_path'', JStr tar), (''status'', JStr ''deferred''), (''detail'', JStr ''waiting_on_ingest''),
         (''submitted_at'', JFloat now)]) st))"
| dropped: "locked_section de st (st\<lparr>dc_entries := ddel tar (dc_entries st)\<rparr>)"
| reconciled: "filter (ghost de debt live) (dc_entries st) \<noteq> [] \<Longrightarrow>
    locked_section de st (st\<lparr>dc_entries := map (\<lambda>(tar, e). (tar, if ghost de debt live (tar, e)
      then defer_entry ''ghost_manifest_reconcile'' now e else e)) (dc_entries st)\<rparr>)"
| recovered: "recover_loop de live now (dc_entries st) st = (Inr rs, st1) \<Longrightarrow>
    rs \<noteq> [] \<or> filter (stale_complete de) (dc_entries st1) \<noteq> [] \<Longrightarrow>
    locked_section de st (st1\<lparr>dc_entries := map (\<lambda>(tar, e). (tar, if stale_complete de (tar, e)
      then defer_entry ''stale_complete_filesystem_mismatch'' now e else e)) (dc_entries st1)\<rparr>)"

record mconc =
  mc_mem :: day_close
  mc_pending :: "nat \<Rightarrow> (nat \<times> day_close) option"
  mc_snaps :: "day_close list"
  mc_disk :: nat

datatype mc_event = Took nat | Wrote nat | Failed nat | Raised | Heap

inductive mc_step :: "dc_env \<Rightarrow> mconc \<Rightarrow> mc_event \<Rightarrow> mconc \<Rightarrow> bool" for de where
  take_copy: "mc_pending s p = None \<Longrightarrow> locked_section de (mc_mem s) m \<Longrightarrow>
    mc_step de s (Took (length (mc_snaps s)))
      (s\<lparr>mc_mem := m, mc_snaps := mc_snaps s @ [m], mc_pending := (mc_pending s)(p := Some (length (mc_snaps s), m))\<rparr>)"
| write_copy: "mc_pending s p = Some (n, m) \<Longrightarrow>
    save_persistence_document (dc_os de) (dc_path de) ''day_close_manifest'' (manifest_payload m) True (dc_files (mc_mem s)) = Inr fs \<Longrightarrow>
    mc_step de s (Wrote n) (s\<lparr>mc_mem := (mc_mem s)\<lparr>dc_files := fs\<rparr>, mc_pending := (mc_pending s)(p := None), mc_disk := n\<rparr>)"
| write_fails: "mc_pending s p = Some (n, m) \<Longrightarrow> mc_step de s (Failed n) (s\<lparr>mc_pending := (mc_pending s)(p := None)\<rparr>)"
| recovery_raises: "recover_loop de live now (dc_entries (mc_mem s)) (mc_mem s) = (Inl e, m) \<Longrightarrow>
    mc_step de s Raised (s\<lparr>mc_mem := m, mc_snaps := mc_snaps s @ [m]\<rparr>)"
| heap_changes: "mc_step de s Heap (s\<lparr>mc_mem := (mc_mem s)\<lparr>dc_debt := debt\<rparr>\<rparr>)"

inductive mc_run :: "dc_env \<Rightarrow> mconc \<Rightarrow> mc_event list \<Rightarrow> mconc \<Rightarrow> bool" for de where
  none: "mc_run de s [] s"
| more: "mc_run de s es u \<Longrightarrow> mc_step de u e t \<Longrightarrow> mc_run de s (es @ [e]) t"

definition mc_start :: "day_close \<Rightarrow> mconc" where
  "mc_start st = \<lparr>mc_mem = st, mc_pending = (\<lambda>_. None), mc_snaps = [st], mc_disk = 0\<rparr>"

definition written :: "mc_event list \<Rightarrow> nat list" where
  "written es = List.map_filter (\<lambda>e. case e of Wrote n \<Rightarrow> Some n | _ \<Rightarrow> None) es"

fun smooth :: "mc_event \<Rightarrow> bool" where
  "smooth (Failed n) = False" | "smooth Raised = False" | "smooth e = True"

lemma written_simps [simp]: "written [] = []" "written (es @ [e]) = written es @ (case e of Wrote n \<Rightarrow> [n] | _ \<Rightarrow> [])"
  by (simp_all add: written_def List.map_filter_def split: mc_event.split)

subsection \<open>The document is always one of the copies\<close>

definition mc_ok :: "dc_env \<Rightarrow> mconc \<Rightarrow> bool" where
  "mc_ok de s \<longleftrightarrow> mc_disk s < length (mc_snaps s) \<and>
     durable de ((mc_snaps s ! mc_disk s)\<lparr>dc_files := dc_files (mc_mem s)\<rparr>) \<and>
     manifest_ok (mc_mem s) \<and> dc_entries (last (mc_snaps s)) = dc_entries (mc_mem s) \<and>
     (\<forall>p n m. mc_pending s p = Some (n, m) \<longrightarrow> n < length (mc_snaps s) \<and> mc_snaps s ! n = m \<and> manifest_ok m)"

lemma recover_loop_files: "recover_loop de live now es x = (r, x') \<Longrightarrow> dc_files x' = dc_files x"
proof (induction es arbitrary: x r)
  case (Cons e es)
  then show ?case by (cases e) (auto simp: put_entry_def split: sum.splits option.splits prod.splits)
qed simp

lemma section_keeps:
  assumes "locked_section de st m" "manifest_ok st"
  shows "manifest_ok m" "dc_files m = dc_files st"
proof -
  have put: "dc_files (put_entry tar e x) = dc_files x" for tar e x by (simp add: put_entry_def)
  from assms(1) show "manifest_ok m"
  proof cases
    case (reconciled debt live now)
    then show ?thesis
      using manifest_ok_steps(5)[OF assms(2), of "\<lambda>k v. if ghost de debt live (k, v) then defer_entry ''ghost_manifest_reconcile'' now v else v"] by simp
  next
    case (recovered live now rs st1)
    then show ?thesis
      using manifest_ok_steps(5)[OF recover_loop_ok[OF recovered(2) assms(2)],
          of "\<lambda>k v. if stale_complete de (k, v) then defer_entry ''stale_complete_filesystem_mismatch'' now v else v"] by simp
  qed (use assms(2) in auto)
  from assms(1) show "dc_files m = dc_files st"
    by cases (auto simp: touch_frame restore_frame put dest: recover_loop_files)
qed

lemma save_on_disk:
  assumes "save_persistence_document (dc_os de) (dc_path de) ''day_close_manifest'' (manifest_payload m) True fs = Inr fs'" "manifest_ok m"
  shows "durable de (m\<lparr>dc_files := fs'\<rparr>)"
proof -
  obtain e where "wrap_envelope ''day_close_manifest'' (manifest_payload m) = Inr e" "fs' = dset (dc_path de) (Some (stored True e)) fs"
    using assms(1) by (rule save_cases)
  then show ?thesis using assms(2) by (simp add: durable_def on_disk_def manifest_ok_def manifest_payload_def stored_def)
qed

lemma mc_step_ok:
  assumes "mc_step de s e t" "mc_ok de s"
  shows "mc_ok de t"
  using assms(1)
proof cases
  case (take_copy p m)
  have "manifest_ok m" "dc_files m = dc_files (mc_mem s)" using section_keeps[OF take_copy(4)] assms(2) by (simp_all add: mc_ok_def)
  then show ?thesis using assms(2) take_copy(2) by (auto simp: mc_ok_def nth_append less_Suc_eq)
next
  case (write_copy p n m fs)
  have p: "n < length (mc_snaps s)" "mc_snaps s ! n = m" "manifest_ok m" using assms(2) write_copy(3) unfolding mc_ok_def by blast+
  from save_on_disk[OF write_copy(4) p(3)] show ?thesis using assms(2) write_copy(2) p by (auto simp: mc_ok_def manifest_ok_def)
next
  case (write_fails p n m)
  then show ?thesis using assms(2) by (auto simp: mc_ok_def)
next
  case (recovery_raises live now e m)
  have "manifest_ok m" "dc_files m = dc_files (mc_mem s)" 
    using recover_loop_ok[OF recovery_raises(3)] recover_loop_files[OF recovery_raises(3)] assms(2) by (simp_all add: mc_ok_def)
  then show ?thesis using assms(2) recovery_raises(2) by (auto simp: mc_ok_def nth_append less_Suc_eq)
next
  case (heap_changes debt)
  then show ?thesis using assms(2) by (simp add: mc_ok_def manifest_ok_def)
qed

lemma mc_run_ok: "mc_run de s es t \<Longrightarrow> mc_ok de s \<Longrightarrow> mc_ok de t"
  by (induction rule: mc_run.induct) (auto dest: mc_step_ok)

lemma mc_start_ok: "durable de st \<Longrightarrow> mc_ok de (mc_start st)"
  by (simp add: mc_ok_def mc_start_def durable_def)

subsection \<open>Writes in the order of the copies\<close>

lemma mc_disk_last: "mc_run de (mc_start st) es t \<Longrightarrow> mc_disk t = last (0 # written es)"
proof (induction "mc_start st" es t rule: mc_run.induct)
  case (more es u e t)
  from more(3,2) show ?case by cases simp_all
qed (simp add: mc_start_def)

lemma mc_covered:
  assumes "mc_run de (mc_start st) es t" "list_all smooth es" "n < length (mc_snaps t)"
  shows "n \<in> set (0 # written es) \<or> (\<exists>p m. mc_pending t p = Some (n, m))"
  using assms
proof (induction "mc_start st" es t arbitrary: n rule: mc_run.induct)
  case none
  then show ?case by (simp add: mc_start_def)
next
  case (more es u e t)
  have IH: "n \<in> set (0 # written es) \<or> (\<exists>p m. mc_pending u p = Some (n, m))" if "n < length (mc_snaps u)"
    using more(2) more(4) that by simp
  from more(3) show ?case
  proof cases
    case (take_copy p m)
    show ?thesis
    proof (cases "n = length (mc_snaps u)")
      case False
      then obtain "n \<in> set (0 # written es) \<or> (\<exists>q m. mc_pending u q = Some (n, m))" using IH more(5) take_copy(2) by auto
      then show ?thesis using take_copy(1,2,3) by (auto split: if_splits) (metis option.discI)
    qed (use take_copy(2) in auto)
  next
    case (write_copy p k m fs)
    then show ?thesis using IH more(5) by auto (metis option.inject prod.inject)
  qed (use IH more(4,5) in auto)
qed

lemma sorted_last: "sorted xs \<Longrightarrow> x \<in> set xs \<Longrightarrow> x \<le> last xs"
  by (induction xs) auto

lemma in_order_newest:
  assumes "mc_run de (mc_start st) es s" "durable de st" "sorted (written es)" "list_all smooth es" "\<forall>p. mc_pending s p = None"
  shows "mc_disk s = length (mc_snaps s) - 1"
proof -
  have ok: "mc_disk s < length (mc_snaps s)" using mc_run_ok[OF assms(1) mc_start_ok[OF assms(2)]] by (simp add: mc_ok_def)
  then have "length (mc_snaps s) - 1 \<in> set (0 # written es)" using mc_covered[OF assms(1,4)] assms(5) by (metis diff_less length_greater_0_conv less_numeral_extra(1) list.size(3) not_less_zero option.discI)
  then have "length (mc_snaps s) - 1 \<le> last (0 # written es)" using assms(3) by (intro sorted_last) auto
  then show ?thesis using mc_disk_last[OF assms(1)] ok by simp
qed

text \<open>
  C23. Restart: whatever sections and writes of any threads interleave, and whatever writes fail, the
  document loads back to exactly the entries that the manifest had in memory after one of the
  locked sections, never to a mixture of several. If moreover the copies are written in
  the order in which they were taken, none fails and none is pending, these are the entries
  of the manifest in memory.
\<close>
theorem manifest_restart:
  assumes "durable de st" "mc_run de (mc_start st) es s" "dc_path de \<noteq> []"
  shows "\<exists>st2. load_manifest de (dc_files (mc_mem s)) debt = Inr st2 \<and> mc_disk s < length (mc_snaps s) \<and>
    (\<forall>k. dget (dc_entries st2) k = map_option canon (dget (dc_entries (mc_snaps s ! mc_disk s)) k)) \<and>
    (sorted (written es) \<and> list_all smooth es \<and> (\<forall>p. mc_pending s p = None) \<longrightarrow>
      (\<forall>k. dget (dc_entries st2) k = map_option canon (dget (dc_entries (mc_mem s)) k)))"
proof -
  have ok: "mc_ok de s" using mc_run_ok[OF assms(2) mc_start_ok[OF assms(1)]] .
  then have "durable de ((mc_snaps s ! mc_disk s)\<lparr>dc_files := dc_files (mc_mem s)\<rparr>)" by (simp add: mc_ok_def)
  from load_durable[OF this assms(3), of debt] obtain st2 where st2: "load_manifest de (dc_files (mc_mem s)) debt = Inr st2"
    "\<forall>k. dget (dc_entries st2) k = map_option canon (dget (dc_entries (mc_snaps s ! mc_disk s)) k)" by auto
  have "dc_entries (mc_snaps s ! mc_disk s) = dc_entries (mc_mem s)"
    if "sorted (written es)" "list_all smooth es" "\<forall>p. mc_pending s p = None"
    using in_order_newest[OF assms(2,1) that] ok last_conv_nth[of "mc_snaps s"] by (fastforce simp: mc_ok_def)
  then show ?thesis using st2 ok by (auto simp: mc_ok_def)
qed

subsection \<open>Two threads\<close>

definition write_manifest :: "dc_env \<Rightarrow> day_close \<Rightarrow> files \<Rightarrow> files res" where
  "write_manifest de m fs = save_persistence_document (dc_os de) (dc_path de) ''day_close_manifest'' (manifest_payload m) True fs"

definition two_threads :: "day_close \<Rightarrow> day_close \<Rightarrow> day_close \<Rightarrow> files \<Rightarrow> (nat \<Rightarrow> (nat \<times> day_close) option) \<Rightarrow> nat \<Rightarrow> mconc" where
  "two_threads st m1 m2 fs pending disk = \<lparr>mc_mem = m2\<lparr>dc_files := fs\<rparr>, mc_pending = pending, mc_snaps = [st, m1, m2], mc_disk = disk\<rparr>"

lemma two_copies:
  assumes "locked_section de st m1" "locked_section de m1 m2"
  shows "mc_run de (mc_start st) [Took 1, Took 2] (two_threads st m1 m2 (dc_files m2) ((\<lambda>_. None)(0 := Some (1, m1), 1 := Some (2, m2))) 0)"
proof -
  let ?s1 = "(mc_start st)\<lparr>mc_mem := m1, mc_snaps := [st, m1], mc_pending := (\<lambda>_. None)(0 := Some (1, m1))\<rparr>"
  have "mc_step de (mc_start st) (Took 1) ?s1" using take_copy[of "mc_start st" 0 de m1] assms(1) by (simp add: mc_start_def)
  moreover have "mc_step de ?s1 (Took 2) (two_threads st m1 m2 (dc_files m2) ((\<lambda>_. None)(0 := Some (1, m1), 1 := Some (2, m2))) 0)"
    using take_copy[of ?s1 1 de m2] assms(2) by (simp add: mc_start_def two_threads_def numeral_2_eq_2)
  ultimately show ?thesis using mc_run.more[OF mc_run.more[OF mc_run.none]] by fastforce
qed

lemma write_thread:
  assumes "pending p = Some (n, m)" "write_manifest de m fs = Inr fs'"
  shows "mc_step de (two_threads st m1 m2 fs pending d) (Wrote n) (two_threads st m1 m2 fs' (pending(p := None)) n)"
  using write_copy[of "two_threads st m1 m2 fs pending d" p n m de fs'] assms by (simp add: two_threads_def write_manifest_def)

definition sample_saved :: day_close where
  "sample_saved = snd (touch_progress sample_dc_env ''s'' ''d/1.tar'' (Fin 3) sample_manifest)"

definition sample_touched :: day_close where
  "sample_touched = touch_manifest_locked ''sealing'' ''d/1.tar'' (Fin 4) sample_saved"

definition sample_queued :: day_close where
  "sample_queued = touch_manifest_locked ''queued'' ''d/2.tar'' (Fin 5) (put_entry ''d/2.tar''
     (JObj [(''tar_path'', JStr ''d/2.tar''), (''status'', JStr ''queued''), (''reason'', JStr ''r''), (''submitted_at'', JFloat (Fin 5))]) sample_touched)"

lemma sample_sections: "locked_section sample_dc_env sample_saved sample_touched" "locked_section sample_dc_env sample_touched sample_queued"
  unfolding sample_touched_def sample_queued_def by (rule touched, rule queued)

lemma sample_saved_durable: "durable sample_dc_env sample_saved"
proof -
  define x where "x = touch_progress sample_dc_env ''s'' ''d/1.tar'' (Fin 3) sample_manifest"
  have "fst x = Inr ()" unfolding x_def by code_simp
  then have x: "x = (Inr (), sample_saved)" by (simp add: prod_eq_iff sample_saved_def x_def)
  have "manifest_ok sample_manifest" by (simp add: manifest_ok_def sample_manifest_def)
  then show ?thesis
    using save_durable[of sample_dc_env "()" "touch_manifest_locked ''s'' (normpath ''d/1.tar'') (Fin 3) sample_manifest" "()" sample_saved] x
    by (simp add: x_def touch_progress_def touch_manifest_def)
qed

lemma sample_writes:
  "\<exists>f1 f2. write_manifest sample_dc_env sample_touched (dc_files sample_queued) = Inr f1 \<and> write_manifest sample_dc_env sample_queued f1 = Inr f2"
  "\<exists>f1 f2. write_manifest sample_dc_env sample_queued (dc_files sample_queued) = Inr f1 \<and> write_manifest sample_dc_env sample_touched f1 = Inr f2"
proof -
  have "case write_manifest sample_dc_env sample_touched (dc_files sample_queued) of Inr f1 \<Rightarrow> \<not> isl (write_manifest sample_dc_env sample_queued f1) | Inl _ \<Rightarrow> False"
    "case write_manifest sample_dc_env sample_queued (dc_files sample_queued) of Inr f1 \<Rightarrow> \<not> isl (write_manifest sample_dc_env sample_touched f1) | Inl _ \<Rightarrow> False"
    by code_simp+
  then show "\<exists>f1 f2. write_manifest sample_dc_env sample_touched (dc_files sample_queued) = Inr f1 \<and> write_manifest sample_dc_env sample_queued f1 = Inr f2"
    "\<exists>f1 f2. write_manifest sample_dc_env sample_queued (dc_files sample_queued) = Inr f1 \<and> write_manifest sample_dc_env sample_touched f1 = Inr f2"
    by (auto simp: isl_def split: sum.splits) (metis sum.exhaust)+
qed

lemma sample_day2: "dget (dc_entries sample_queued) ''d/2.tar'' \<noteq> None" "dget (dc_entries sample_touched) ''d/2.tar'' = None"
  by code_simp+

theorem manifest_restart_witness:
  "\<exists>s st2. mc_run sample_dc_env (mc_start sample_saved) [Took 1, Took 2, Wrote 1, Wrote 2] s \<and>
     load_manifest sample_dc_env (dc_files (mc_mem s)) [] = Inr st2 \<and> dget (dc_entries st2) ''d/2.tar'' \<noteq> None"
proof -
  obtain f1 f2 where w: "write_manifest sample_dc_env sample_touched (dc_files sample_queued) = Inr f1"
    "write_manifest sample_dc_env sample_queued f1 = Inr f2" using sample_writes(1) by blast
  let ?p = "(\<lambda>_. None)(0 := Some (1, sample_touched), 1 := Some (2, sample_queued)) :: nat \<Rightarrow> (nat \<times> day_close) option"
  let ?s = "two_threads sample_saved sample_touched sample_queued f2 (?p(0 := None, 1 := None)) 2"
  have run: "mc_run sample_dc_env (mc_start sample_saved) [Took 1, Took 2, Wrote 1, Wrote 2] ?s"
    using mc_run.more[OF mc_run.more[OF two_copies[OF sample_sections] write_thread[where p = 0, OF _ w(1)]] write_thread[where p = 1, OF _ w(2)]] by simp
  have p: "dc_path sample_dc_env \<noteq> []" by (simp add: sample_dc_env_def)
  have "written [Took 1, Took 2, Wrote 1, Wrote 2] = [1, 2]" by (simp add: written_def List.map_filter_def)
  then show ?thesis using manifest_restart[OF sample_saved_durable run p, of "[]"] run sample_day2(1) by (auto simp: two_threads_def)
qed

text \<open>
  C36. A stale document: of two threads, the one whose copy is older may write last. Both writes
  succeed and none is pending, but the day that the other thread has queued is in memory and
  not in the document, and a restart does not bring it back.
\<close>
theorem manifest_older_copy_last:
  "\<exists>s st2. durable sample_dc_env sample_saved \<and>
     mc_run sample_dc_env (mc_start sample_saved) [Took 1, Took 2, Wrote 2, Wrote 1] s \<and> (\<forall>p. mc_pending s p = None) \<and>
     dget (dc_entries (mc_mem s)) ''d/2.tar'' \<noteq> None \<and>
     load_manifest sample_dc_env (dc_files (mc_mem s)) [] = Inr st2 \<and> dget (dc_entries st2) ''d/2.tar'' = None"
proof -
  obtain f1 f2 where w: "write_manifest sample_dc_env sample_queued (dc_files sample_queued) = Inr f1"
    "write_manifest sample_dc_env sample_touched f1 = Inr f2" using sample_writes(2) by blast
  let ?p = "(\<lambda>_. None)(0 := Some (1, sample_touched), 1 := Some (2, sample_queued)) :: nat \<Rightarrow> (nat \<times> day_close) option"
  let ?s = "two_threads sample_saved sample_touched sample_queued f2 (?p(1 := None, 0 := None)) 1"
  have run: "mc_run sample_dc_env (mc_start sample_saved) [Took 1, Took 2, Wrote 2, Wrote 1] ?s"
    using mc_run.more[OF mc_run.more[OF two_copies[OF sample_sections] write_thread[where p = 1, OF _ w(1)]] write_thread[where p = 0, OF _ w(2)]] by simp
  have p: "dc_path sample_dc_env \<noteq> []" by (simp add: sample_dc_env_def)
  have "mc_ok sample_dc_env ?s" using mc_run_ok[OF run mc_start_ok[OF sample_saved_durable]] .
  then have "durable sample_dc_env (sample_touched\<lparr>dc_files := f2\<rparr>)" by (simp add: mc_ok_def two_threads_def)
  from load_durable[OF this p, of "[]"] obtain st2 where "load_manifest sample_dc_env f2 [] = Inr st2"
    "dget (dc_entries st2) ''d/2.tar'' = None" using sample_day2(2) by auto
  then show ?thesis using run sample_saved_durable sample_day2(1) by (intro exI[of _ ?s] exI[of _ st2]) (simp add: two_threads_def)
qed

end
