(* ===== verification/Spec2Isabelle.thy ===== *)
theory Spec2Isabelle
  imports Stats_Streaming Job_Persist Counter_Arcs Ingest_Marks Members_Conc Day_Close_Conc
begin

text \<open>
  HPCPerfStats (\<^verbatim>\<open>tacc_stats\<close>) collects performance counters on the nodes of a cluster and
  loads them into a time-series database. Monitors on the nodes write raw stats files (schema
  lines \<^verbatim>\<open>!type ...\<close>, marks \<^verbatim>\<open>%...\<close>, sample headers \<^verbatim>\<open>time jid host\<close>, counter lines); a listener
  collects them per host; the \<^verbatim>\<open>sync_timedb\<close> daemon discovers files, queues jobs, parses each
  file, writes host and process rows, and archives the raw file; metrics and a web site read
  the database. This library models the ingest core under \<^verbatim>\<open>src/hpcperfstats/dbload/lib\<close>: the
  parser of raw files, the deltas and rates computed from its rows, the durable job store that
  decides which file is parsed when, and the sidecar documents, ingest marks and archive member
  store beside the archive.

  \<^bold>\<open>Common ground.\<close>
  \<^item> \<open>HPS_Prelude\<close>: Python exceptions as values (\<open>py_error + 'a\<close>, \<open>bindE\<close>, \<open>foldE\<close>), dicts as
    insertion-ordered association lists, the string methods, \<^verbatim>\<open>int(...)\<close>; generic lemmas.
  \<^item> \<open>Float64\<close>, \<open>Numerals\<close>: IEEE binary64 as rationals with round-to-nearest-even, \<^verbatim>\<open>float(...)\<close>;
    integers below \<open>2 ^ 53\<close> are exact; numerals print and parse back.

  \<^bold>\<open>Raw stats files\<close> (\<^verbatim>\<open>sync_timedb_parsing.py\<close>, \<^verbatim>\<open>sync_timedb_parsing_legacy.py\<close>,
  \<^verbatim>\<open>monitor_mark_side_ingest.py\<close>).
  \<^item> \<open>Stats_Schema\<close>: schema tokens (\<^verbatim>\<open>_compile_schema_token\<close> ...) and the ten parallel columns
    of parsed rows; what the monitor prints for a schema entry
    (\<^verbatim>\<open>monitor/src/stats_text_format.c\<close>) compiles back.
  \<^item> \<open>Proc_Merge\<close>: process rows keyed by (jid, host, proc) and merged with high-water
    fields, online (\<^verbatim>\<open>_merge_proc_row_online\<close>), in batch and against stored rows. Locale
    \<open>keyed_merge\<close> states what a merge must satisfy; the three merges are shown equivalent.
  \<^item> \<open>Monitor_Marks\<close>: \<^verbatim>\<open>%jobs\<close> and affinity marks, their attachment to the next header, the
    affinity table, latest job times. The ORM calls are parameters.
  \<^item> \<open>Timestamp_Scan\<close>: header identity, batched and backward chunked reading, first and last
    headers, the duplicate scan that finds where to resume. The UTF-8 decoder of the backward
    reader is a parameter.
  \<^item> \<open>Legacy_Decode\<close>: hardware event maps and the pairing of control registers with counters.
  \<^item> \<open>Stats_Parser\<close>: every method of \<^verbatim>\<open>IncrementalStatsParser\<close> on the record \<open>parser\<close>, the
    invariant \<open>parser_ok\<close> of all reachable states, and locale \<open>buffered\<close>: draining the
    buffers between lines does not change what is emitted.
  \<^item> \<open>Stats_Streaming\<close>: the drivers \<^verbatim>\<open>parse_stats_lines\<close>, \<^verbatim>\<open>parse_stats_file_streaming\<close> and
    \<^verbatim>\<open>parse_stats_file_streaming_incremental\<close>: flush windows recombine to the uninterrupted
    parse, resuming keeps the schema.

  \<^bold>\<open>From readings to rates\<close> (second half of \<^verbatim>\<open>sync_timedb_parsing.py\<close>, \<^verbatim>\<open>lib/dcgm_blank.py\<close>).
  \<^item> \<open>Frame_Ops\<close>: what the code uses of numpy and pandas (sorting, factorisation, neighbours and
    aggregates of groups) as the fields of the parameter \<open>frame_ops\<close>, with their documented
    behaviour as named hypotheses, and an instance on lists that satisfies them. The reductions
    of a group-by and those of a series are different fields, which agree on integers of
    bounded sum.
  \<^item> \<open>Counter_Deltas\<close>: \<^verbatim>\<open>_apply_counter_deltas\<close> with wrap-around by counter width and the carry
    \<^verbatim>\<open>DeltaCarryState\<close> between chunks; shown equal to a stable sort and a scan.
  \<^item> \<open>Dcgm_Blank\<close>, \<open>Sample_Collapse\<close>: blank GPU values, host sums, socket power gauges, the GPU
    event classes; the vectorised collapse agrees with the per-group function on such integers.
  \<^item> \<open>Counter_Arcs\<close>: rates and the entry points \<^verbatim>\<open>compute_deltas_and_arc\<close> and
    \<^verbatim>\<open>compute_deltas_and_arc_chunk\<close>; chunks with one carry give the rows of the whole frame.

  \<^bold>\<open>Job store\<close> (\<^verbatim>\<open>sync_timedb_job_store.py\<close>).
  \<^item> \<open>Job_Scores\<close>: kinds, score bands and their encoding of calendar days, lease owner tokens,
    limits, slot caps, identities (with \<^verbatim>\<open>os.path.normpath\<close>) and fingerprints.
  \<^item> \<open>Job_Store\<close>: record \<open>job_store\<close> has the fields of \<^verbatim>\<open>SyncTimedbJobStore\<close>; one function per
    method. Each method body runs under the store's lock and is one atomic function;
    \<^verbatim>\<open>reorder_list\<close>, which has two critical sections, takes what the first one read.
  \<^item> \<open>Job_Store_Inv\<close>: the invariant \<open>store_ok\<close> and its preservation by the primitives.
  \<^item> \<open>Job_Claims\<close>: the claim loop over lazy heaps. It takes fuel; every turn lowers a weight of
    at most twice the heap length, so more fuel than that is enough.
  \<^item> \<open>Job_Leases\<close>: renewing, reaping, stealing and reconciling leases; payload fields.
  \<^item> \<open>Job_Lifecycle\<close>: the step relation of all operations, the abstract life cycle of one job
    and the simulation between them. Locale \<open>leased_jobs\<close> is the contract of a leased queue;
    it is interpreted on the store and, in \<open>Job_Persist\<close>, on the store with its writer.
  \<^item> \<open>Job_Queries\<close>: counts, census, dead letters. \<open>Job_Persist\<close>: the snapshot writer
    interleaved with the other operations, loading, restart.

  \<^bold>\<open>Documents beside the archive.\<close>
  \<^item> \<open>Json_Values\<close>, \<open>Persistence_Docs\<close> (\<^verbatim>\<open>sync_timedb_persistence.py\<close>,
    \<^verbatim>\<open>sync_timedb_manifest_contract.py\<close>): JSON values, the registry of sidecar files, envelopes
    and their validation, the contract version and the reset it triggers. Files are an
    association list from paths to contents; \<open>os_env\<close> says which writes and removals fail.
  \<^item> \<open>Ingest_Marks\<close> (\<^verbatim>\<open>sync_timedb_file_complete_ingest_mark.py\<close>,
    \<^verbatim>\<open>sync_timedb_zero_host_ingest_mark.py\<close>, \<^verbatim>\<open>sync_timedb_mark_entries_cache.py\<close>): fingerprinted
    marks with a cache per process. The step relation interleaves processes and has the clock
    of the file system, which advances in ticks; locale \<open>mark_file\<close> is interpreted on both kinds
    of mark.
  \<^item> \<open>Members_Store\<close>, \<open>Members_Conc\<close> (\<^verbatim>\<open>sync_timedb_archive_members_store.py\<close>): the critical
    sections of a day shard, its document, the populate queue; threads on a shard. Locale
    \<open>shard_op\<close> is what a critical section guarantees, interpreted on each of them.
  \<^item> \<open>Day_Close\<close> (\<^verbatim>\<open>sync_timedb_day_close_manifest.py\<close>): the manifest of days being closed, kept in
    step with the debt heap and with its document, one method at a time. The callbacks given to
    \<^verbatim>\<open>DayCloseManifestCoordinator\<close> are parameters with the laws \<open>push_ok\<close> and \<open>inflight_ok\<close>.
    \<open>Day_Close_Conc\<close>: its threads, which copy the manifest under the lock and write the copy
    after releasing it.

  \<^bold>\<open>What is shown.\<close> Nothing is emitted twice or dropped between flush windows, at a resume or by
  batch reading; parser and store invariants hold in every reachable state; no job is lost and
  only the lease holder finishes a job; list queues are first in, first out; a claim returns exactly the first jobs of its band and
  returns at all; a clean store survives a restart; deltas are differences modulo the counter
  width, exactly up to 52 bits and within the scaled range beyond, and do not depend on the
  chunking; documents, days and tokens round-trip; a contract change removes the registered
  sidecars and nothing else; concurrent marks (once their file exists) and merges are not lost,
  population is single flight as long as no identity is taken from its owner, and no waiter is
  left asleep; the day-close manifest has no ghost entries after
  reconciliation, and its document is always one of the states the manifest had. Some theorems record defects: a claim
  with a band name in another spelling does not return; the first mark of a directory can be
  overwritten; a mark file rewritten within one tick of the clock is served from stale
  caches; of two copies of the day-close manifest the older may be written last.
  Below, the properties that span components: what a resumed parse skips was already loaded,
  and the fingerprint a worker receives is the one of the file as it was queued.

  \<^bold>\<open>Bounds and fuel.\<close> Only the claim loop takes fuel (see \<open>Job_Claims\<close>); every other loop is
  structural or terminates by a measure. The retry loop of \<^verbatim>\<open>merge_members\<close> and the wait loop of
  \<^verbatim>\<open>wait_for_complete\<close> are steps of \<open>Members_Conc\<close>, one turn each.

  \<^bold>\<open>Assumptions made visible.\<close> Scores are integral (\<open>integral\<close>), as the encoder and all callers
  produce them: for a score strictly between the bands the claim loop of the code does not
  end. List jobs are enqueued with \<^verbatim>\<open>dedupe=True\<close>, as all callers do. A write replaces
  the file or fails as a whole. Where marks are shown linear, the mark file exists and two
  writes of it are at least one tick of the file system's clock apart. Sections under a lock
  are atomic. Text is ASCII; other bytes count as no space, digit or letter.

  \<^bold>\<open>Not modelled.\<close> Telemetry, logging, thread scheduling and the locks themselves; the ORM and
  SQL; the compiled Codon copy of the parser, whose semantics is that of another compiler; JSON
  texts; configuration parsing; and the components outside the ingest core: the tar and zstd
  subprocesses of the archive and day close, the orchestrator and its process pools,
  accounting import, listener, metrics and plots, web site, the monitor in C, the front end,
  scripts. These are dominated by calls to the operating system, the database and third-party
  libraries.
\<close>

subsection \<open>Resuming a partly loaded file\<close>

lemma known_before_resume:
  assumes "j < length lines" "sample_second (lines ! j) = Some u" "int j < resume_index present lines"
  shows "present u"
  using resume_index_covers[OF assms(1,2), of present] assms(3) by linarith

lemma resume_index_le: "resume_index present lines \<le> int (length lines)"
proof -
  let ?m = "known_prefix present lines"
  have "last (headers_before lines ?m) < ?m" if "headers_before lines ?m \<noteq> []"
    using last_in_set[OF that] by (simp add: headers_before_def)
  moreover have "?m \<le> length lines" by (simp add: known_prefix_def length_takeWhile_le)
  ultimately show ?thesis by (auto simp: resume_index_def Let_def)
qed

text \<open>
  C38. Resuming a partly loaded file loses nothing: when the duplicate scan tells the parser
  to start at line \<open>n\<close>, the parse equals that of the schema and mark lines of the skipped part
  followed by the rest of the file, and every sample header in the skipped part carries a
  time that is already in the database.
\<close>
theorem resume_skips_only_known:
  assumes "\<forall>l \<in> set (iter_stats_file_lines file). \<not> isl (digit_line_unix_second (lstrip l))"
    and "find_processing_start_index_streaming file itimes tp = Inr (int n, found)"
  shows "parse_stats_lines (iter_stats_file_lines file) (int n) ex =
      parse_stats_lines (filter prefix_line (take n (iter_stats_file_lines file)) @ drop n (iter_stats_file_lines file)) 0 ex \<and>
    (\<forall>j u. j < n \<longrightarrow> sample_second (iter_stats_file_lines file ! j) = Some u \<longrightarrow> timestamp_present_for_duplicate itimes tp u)"
proof -
  have n: "int n = resume_index (timestamp_present_for_duplicate itimes tp) (iter_stats_file_lines file)"
    using assms(2) by (simp add: find_processing_start_index_streaming_def scan_start_resume[OF assms(1)] resume_index_def Let_def
        split: if_splits)
  have "timestamp_present_for_duplicate itimes tp u"
    if "j < n" "sample_second (iter_stats_file_lines file ! j) = Some u" for j u
  proof (rule known_before_resume[OF _ that(2)])
    show "j < length (iter_stats_file_lines file)"
      using that(1) n resume_index_le[of "timestamp_present_for_duplicate itimes tp" "iter_stats_file_lines file"] by linarith
    show "int j < resume_index (timestamp_present_for_duplicate itimes tp) (iter_stats_file_lines file)"
      using that(1) n by linarith
  qed
  then show ?thesis using resume_split by blast
qed

definition sample_file :: "string option" where
  \<comment> \<open>Three samples, at 17, 18 and 19.\<close>
  "sample_file = Some (''17 9 h'' @ [CHR 0x0A] @ ''18 9 h'' @ [CHR 0x0A] @ ''19 9 h'')"

theorem resume_skips_only_known_witness:
  "find_processing_start_index_streaming sample_file [17, 18] None = Inr (1, True) \<and>
   timestamp_present_for_duplicate [17, 18] None 17"
proof -
  define ls where "ls = [''17 9 h'' @ [CHR 0x0A], ''18 9 h'' @ [CHR 0x0A], ''19 9 h'']"
  have i: "iter_stats_file_lines sample_file = ls"
    by (simp add: sample_file_def ls_def iter_stats_file_lines_def iter_file_lines_eq STREAM_PARSE_LINE_BATCH_def)
  have "find_processing_start_index ls [17, 18] None = Inr (int 1, True)" unfolding ls_def by code_simp
  then have f: "find_processing_start_index_streaming sample_file [17, 18] None = Inr (int 1, True)"
    by (simp add: find_processing_start_index_streaming_def find_processing_start_index_def i)
  have l: "\<forall>l \<in> set (iter_stats_file_lines sample_file). \<not> isl (digit_line_unix_second (lstrip l))"
    unfolding i ls_def by code_simp
  have "sample_second (iter_stats_file_lines sample_file ! 0) = Some 17" unfolding i ls_def by code_simp
  then show ?thesis using resume_skips_only_known[OF l f] f by auto
qed

subsection \<open>From queueing a file to its worker\<close>

lemma zadd_payload:
  assumes "fst (zadd_ingest cfg i v fp s) = 1" "fp \<noteq> []"
  shows "payload_field (snd (zadd_ingest cfg i v fp s)) JOB_KIND_INGEST i ''fingerprint'' = fp"
  using assms by (auto simp: zadd_ingest_def Let_def payload_field_def get_or_def put_payload_def store_fields split: if_splits)

text \<open>
  C39. A worker gets the fingerprint of the file as it was queued: a job added with the
  fingerprint of a file and then claimed from either band carries a fingerprint that matches
  a path exactly when \<^verbatim>\<open>os.stat\<close> reports the size and the mtime the file had when it was queued.
\<close>
theorem claimed_fingerprint_current:
  assumes "store_reach s" "integral v" "zadd_ingest_job cfg i v (ingest_fingerprint sz mtime_ns) s = (1, s')"
    and "band = ''hot'' \<or> band = ''catchup''"
    and "claim_ingest_jobs fuel cfg band owner max_n ttl now s' = Some (Inr (jobs, t))" "j \<in> set jobs" "identity j = i"
  shows "fingerprint_matches_path stat path (fingerprint j) \<longleftrightarrow> path \<noteq> [] \<and> stat path = Some (sz, mtime_ns)"
proof -
  have "ingest_fingerprint sz mtime_ns \<noteq> []" by (simp add: ingest_fingerprint_def)
  then have p: "payload_field s' JOB_KIND_INGEST i ''fingerprint'' = ingest_fingerprint sz mtime_ns"
    using zadd_payload[of cfg i v "ingest_fingerprint sz mtime_ns" s] assms(3) by (simp add: zadd_ingest_job_def)
  have "store_reach s'" using reach_zadd[OF assms(1,2), of cfg i "ingest_fingerprint sz mtime_ns"] assms(3) by simp
  then have "jobs = map (band_job s' owner (fadd now (of_int_f64 (lease_ttl cfg ttl)))) (take (nat max_n) (band_queue s' band))"
    using claim_ingest_some(3)[OF reach_ok assms(4)] assms(5) by (simp add: claim_ingest_jobs_def)
  then have "fingerprint j = payload_field s' JOB_KIND_INGEST (identity j) ''fingerprint''"
    using assms(6) by (auto simp: band_job_def claimed_ingest_def payload_field_def)
  then show ?thesis using p assms(7) by (simp add: fingerprint_iff)
qed

theorem claimed_fingerprint_current_witness:
  "\<exists>s' t j. zadd_ingest_job sample_cfg ''f'' (Fin 2) (ingest_fingerprint 7 8) new_store = (1, s') \<and>
     claim_ingest_jobs 9 sample_cfg ''hot'' ''w'' 1 None (Fin 0) s' = Some (Inr ([j], t)) \<and>
     fingerprint_matches_path (\<lambda>_. Some (7, 8)) ''f'' (fingerprint j)"
proof -
  define s' where "s' = snd (zadd_ingest_job sample_cfg ''f'' (Fin 2) (ingest_fingerprint 7 8) new_store)"
  have z: "zadd_ingest_job sample_cfg ''f'' (Fin 2) (ingest_fingerprint 7 8) new_store = (1, s')"
    by (simp add: s'_def zadd_ingest_job_def zadd_ingest_def Let_def new_store_def decode_ingest_band_def)
  have i: "integral (Fin 2)" by (simp add: integral_def)
  have r: "store_reach s'" unfolding s'_def by (rule reach_zadd[OF reach_new i])
  have q: "map snd (band_queue s' ''hot'') = [''f'']" "length (ingest_heap_for_band s' ''hot'') = 1"
    unfolding s'_def by code_simp+
  have h: "2 * length (ingest_heap_for_band s' ''hot'') < 9" using q(2) by simp
  obtain v where v: "band_queue s' ''hot'' = [(v, ''f'')]" using q(1) by (cases "band_queue s' ''hot''") auto
  obtain t j where c: "claim_ingest_jobs 9 sample_cfg ''hot'' ''w'' 1 None (Fin 0) s' = Some (Inr ([j], t))" "identity j = ''f''"
    using claim_ingest_returns[OF reach_ok[OF r] disjI1[OF refl] _ _ h, of "''w''" 1 sample_cfg None "Fin 0"] v
    by (auto simp: claim_ingest_jobs_def band_job_def claimed_ingest_def)
  have "fingerprint_matches_path (\<lambda>_. Some (7, 8)) ''f'' (fingerprint j)"
    using claimed_fingerprint_current[OF reach_new i z disjI1[OF refl] c(1) _ c(2)] by simp
  then show ?thesis using z c(1) by blast
qed

end
